(* ===== verification/Glibc_Prelude.thy ===== *)
theory Glibc_Prelude
  imports Main "HOL-Library.Word"
begin

unbundle bit_operations_syntax

text \<open>
  Shared vocabulary of the development.

  \<^item> the C integer types the modelled files use (LP64: \<open>int\<close> has 32 bits, \<open>long\<close> and
    \<open>size_t\<close> have 64), as words of that width;
  \<^item> \<open>errno\<close> values the modelled functions store;
  \<^item> a byte-addressed memory with block reads and writes (\<open>memcpy\<close>), used where a component
    writes into a caller's buffer through a pointer;
  \<^item> big-endian packing of 16- and 32-bit values (\<open>htonl\<close>, \<open>ntohl\<close> followed by a store or
    a load), with the round-trip facts;
  \<^item> generic facts on lists and words shared by the components.
\<close>

section \<open>Machine integers\<close>

type_synonym u8 = "8 word"
type_synonym u16 = "16 word"
type_synonym u32 = "32 word"
type_synonym u64 = "64 word"

text \<open>Signed C types have the same representation; a signed reading is \<open>sint\<close>.\<close>

type_synonym c_int = "32 word"
type_synonym c_long = "64 word"
type_synonym c_short = "16 word"
type_synonym c_char = "8 word"

datatype errno = EINVAL | ENOMEM | ESRCH | ENOENT | EMSGSIZE | ENOSPC | EAFNOSUPPORT | ERANGE

section \<open>Collections of rewrite rules\<close>

named_theorems mem_simps
  \<open>block reads and writes of the byte memory\<close>

named_theorems bytes_simps
  \<open>big-endian packing and unpacking\<close>

section \<open>Byte memory\<close>

type_synonym mem = "nat \<Rightarrow> u8"

definition mem_write :: "mem \<Rightarrow> nat \<Rightarrow> u8 list \<Rightarrow> mem" where
  "mem_write m a bs = (\<lambda>i. if a \<le> i \<and> i < a + length bs then bs ! (i - a) else m i)"

definition mem_read :: "mem \<Rightarrow> nat \<Rightarrow> nat \<Rightarrow> u8 list" where
  "mem_read m a n = map m [a..<a + n]"

lemma length_mem_read [simp]: "length (mem_read m a n) = n"
  by (simp add: mem_read_def)

lemma mem_read_0 [simp]: "mem_read m a 0 = []"
  by (simp add: mem_read_def)

lemma mem_write_Nil [simp]: "mem_write m a [] = m"
  by (rule ext) (auto simp: mem_write_def)

lemma mem_write_append [mem_simps]:
  "mem_write (mem_write m a xs) (a + length xs) ys = mem_write m a (xs @ ys)"
  by (rule ext) (auto simp: mem_write_def nth_append)

lemma mem_read_write_same [mem_simps]:
  "n = length bs \<Longrightarrow> mem_read (mem_write m a bs) a n = bs"
  by (rule nth_equalityI) (auto simp: mem_read_def mem_write_def)

lemma mem_read_write_prefix [mem_simps]:
  "length bs \<le> n \<Longrightarrow> take (length bs) (mem_read (mem_write m a bs) a n) = bs"
  by (rule nth_equalityI) (auto simp: mem_read_def mem_write_def)

lemma take_mem_read [mem_simps]: "k \<le> n \<Longrightarrow> take k (mem_read m a n) = mem_read m a k"
  by (rule nth_equalityI) (auto simp: mem_read_def)

lemma drop_mem_read [mem_simps]: "drop k (mem_read m a n) = mem_read m (a + k) (n - k)"
  by (rule nth_equalityI) (auto simp: mem_read_def add.assoc)

lemma mem_write_outside [mem_simps]:
  "i < a \<or> a + length bs \<le> i \<Longrightarrow> mem_write m a bs i = m i"
  by (auto simp: mem_write_def)

definition memcpy :: "mem \<Rightarrow> nat \<Rightarrow> nat \<Rightarrow> nat \<Rightarrow> mem" where
  "memcpy m dst src n = mem_write m dst (mem_read m src n)"

lemma nth_mem_read [simp]: "i < n \<Longrightarrow> mem_read m a n ! i = m (a + i)"
  by (simp add: mem_read_def)

lemma mem_read_cong: "(\<And>i. a \<le> i \<Longrightarrow> i < a + n \<Longrightarrow> m i = m' i) \<Longrightarrow> mem_read m a n = mem_read m' a n"
  by (simp add: mem_read_def)

lemma memcpy_apply:
  "memcpy m dst src n a = (if dst \<le> a \<and> a < dst + n then m (src + (a - dst)) else m a)"
  by (auto simp: memcpy_def mem_write_def)

lemma mem_read_memcpy: "mem_read (memcpy m dst src n) dst n = mem_read m src n"
  by (simp add: memcpy_def mem_read_write_same)

subsection \<open>Framing\<close>

text \<open>\<open>m'\<close> differs from \<open>m\<close> at most in the given set of addresses.\<close>

definition only_changes :: "nat set \<Rightarrow> mem \<Rightarrow> mem \<Rightarrow> bool" where
  "only_changes A m m' \<longleftrightarrow> (\<forall>a. a \<notin> A \<longrightarrow> m' a = m a)"

lemma only_changes_refl [simp]: "only_changes A m m"
  by (simp add: only_changes_def)

lemma only_changes_trans: "only_changes A m m' \<Longrightarrow> only_changes B m' m'' \<Longrightarrow> only_changes (A \<union> B) m m''"
  by (simp add: only_changes_def)

lemma only_changes_trans1: "only_changes A m m' \<Longrightarrow> only_changes A m' m'' \<Longrightarrow> only_changes A m m''"
  by (simp add: only_changes_def)

lemma only_changes_mono: "only_changes A m m' \<Longrightarrow> A \<subseteq> B \<Longrightarrow> only_changes B m m'"
  by (auto simp: only_changes_def)

lemma only_changes_write: "only_changes {a..<a + length bs} m (mem_write m a bs)"
  by (auto simp: only_changes_def mem_write_def)

lemma only_changes_memcpy: "only_changes {dst..<dst + n} m (memcpy m dst src n)"
  by (auto simp: only_changes_def memcpy_apply)

lemma only_changes_read: "only_changes A m m' \<Longrightarrow> A \<inter> {a..<a + n} = {} \<Longrightarrow> mem_read m' a n = mem_read m a n"
  by (intro mem_read_cong) (auto simp: only_changes_def)

section \<open>Words and natural numbers\<close>

text \<open>Words without a common bit.\<close>

lemma unat_or_disjoint: "(a :: 'a::len word) AND b = 0 \<Longrightarrow> unat (a OR b) = unat a + unat b"
proof -
  assume "a AND b = 0"
  then have "unat a AND unat b = 0" by (metis unsigned_and_eq unsigned_0)
  then show ?thesis by (simp add: unsigned_or_eq disjunctive_add_eq_or)
qed

lemma unat_of_nat_le:
  fixes h :: "'a::len word"
  assumes "n \<le> unat h"
  shows "unat (of_nat n :: 'a word) = n"
proof -
  have "unat h < 2 ^ LENGTH('a)" by (rule unsigned_less)
  with assms have "n < 2 ^ LENGTH('a)" by (rule le_less_trans)
  then show ?thesis by (simp add: unat_of_nat)
qed

lemma unat_of_nat_plus_1:
  assumes "Suc k < 2 ^ LENGTH('a)"
  shows "unat (of_nat k + 1 :: 'a::len word) = Suc k"
proof -
  have "of_nat k + 1 = (of_nat (Suc k) :: 'a word)" by simp
  then show ?thesis using assms by (simp only: unat_of_nat mod_less)
qed

lemma ucast_of_nat_le:
  assumes "n \<le> unat (h :: u32)"
  shows "ucast (of_nat n :: u32) = (of_nat n :: u64)"
proof -
  have "unat h < 2 ^ 32" using unsigned_less [of h] by simp
  then have "n < 2 ^ 32" using assms by linarith
  then have "unat (ucast (of_nat n :: u32) :: u64) = unat (of_nat n :: u64)"
    by (simp add: unsigned_ucast_eq unat_of_nat take_bit_nat_eq_self)
  then show ?thesis by (rule word_unat_eq_iff [THEN iffD2])
qed

lemma unat_sub_of_nat:
  fixes h :: "'a::len word"
  assumes "n \<le> unat h"
  shows "unat (h - of_nat n) = unat h - n"
proof -
  have "of_nat n \<le> h"
    using assms by (simp add: word_le_nat_alt unat_of_nat_le)
  then show ?thesis
    using assms by (simp add: unat_sub unat_of_nat_le)
qed

text \<open>Truncation undoes both extensions; the two halves of a 64-bit value.\<close>

lemma ucast_scast_u32 [simp]: "ucast (scast (v :: u32) :: u64) = v"
  by (rule bit_word_eqI) (auto simp: bit_simps)

lemma ucast_ucast_u32 [simp]: "ucast (ucast (v :: u32) :: u64) = v"
  by (rule bit_word_eqI) (auto simp: bit_simps)

lemma ucast_scast_u16_u64 [simp]: "ucast (ucast (scast (v :: u16) :: u64) :: u32) = v"
  by (rule bit_word_eqI) (auto simp: bit_simps)

lemma ucast_scast_u16 [simp]: "ucast (scast (v :: u16) :: u32) = v"
  by (rule bit_word_eqI) (auto simp: bit_simps)

lemma ucast_ucast_u16 [simp]: "ucast (ucast (v :: u16) :: u32) = v"
  by (rule bit_word_eqI) (auto simp: bit_simps)

lemma ucast_scast_u8 [simp]: "ucast (scast (v :: u8) :: u32) = v"
  by (rule bit_word_eqI) (auto simp: bit_simps)

lemma ucast_ucast_u8 [simp]: "ucast (ucast (v :: u8) :: u32) = v"
  by (rule bit_word_eqI) (auto simp: bit_simps)

lemma ucast_u64_u32_u16 [simp]: "ucast (scast (v :: u32) :: u64) = (ucast v :: u16)"
  by (rule bit_word_eqI) (auto simp: bit_simps)

lemma ucast_scast_u16_down [simp]: "(ucast (scast (v :: u16) :: u64) :: u32) = scast v"
  by (rule bit_word_eqI) (auto simp: bit_simps)

lemma ucast_ucast_u16_down [simp]: "(ucast (ucast (v :: u16) :: u64) :: u32) = ucast v"
  by (rule bit_word_eqI) (auto simp: bit_simps)

lemma ucast_signed_drop_bit_32 [simp]: "ucast (signed_drop_bit 32 (v :: u64)) = (ucast (drop_bit 32 v) :: u32)"
  by (rule bit_word_eqI) (auto simp: bit_simps)

lemma join_halves_scast [simp]: "push_bit 32 (scast (ucast (drop_bit 32 v) :: u32)) OR ucast (ucast v :: u32) = (v :: u64)"
  by (rule bit_word_eqI) (auto simp: bit_simps)

lemma join_halves_ucast [simp]: "push_bit 32 (ucast (ucast (drop_bit 32 v) :: u32)) OR ucast (ucast v :: u32) = (v :: u64)"
  by (rule bit_word_eqI) (auto simp: bit_simps)

section \<open>Big-endian packing\<close>

definition be32 :: "u32 \<Rightarrow> u8 list" where
  "be32 w = [ucast (drop_bit 24 w), ucast (drop_bit 16 w), ucast (drop_bit 8 w), ucast w]"

definition of_be32 :: "u8 list \<Rightarrow> u32" where
  "of_be32 bs = push_bit 24 (ucast (bs ! 0)) OR push_bit 16 (ucast (bs ! 1))
     OR push_bit 8 (ucast (bs ! 2)) OR ucast (bs ! 3)"

lemma length_be32 [simp]: "length (be32 w) = 4"
  by (simp add: be32_def)

lemma bit_u8_beyond [simp]: "8 \<le> n \<Longrightarrow> \<not> bit (x :: u8) n"
  by (auto dest: bit_imp_le_length)

lemma bit_of_be32_be32:
  "bit (of_be32 (be32 w)) n \<longleftrightarrow>
     (24 \<le> n \<and> n < 32 \<and> bit w n) \<or> (16 \<le> n \<and> n < 24 \<and> bit w n)
      \<or> (8 \<le> n \<and> n < 16 \<and> bit w n) \<or> (n < 8 \<and> bit w n)"
  by (simp add: of_be32_def be32_def bit_simps cong: conj_cong) auto

lemma of_be32_be32 [simp]: "of_be32 (be32 w) = w"
  by (rule bit_word_eqI) (auto simp: bit_of_be32_be32)

lemma of_be32_append [simp]: "of_be32 (be32 w @ r) = w"
proof -
  have "of_be32 (be32 w @ r) = of_be32 (be32 w)"
    by (simp add: of_be32_def nth_append)
  then show ?thesis by simp
qed

lemma be32_of_be32:
  assumes "length bs = 4"
  shows "be32 (of_be32 bs) = bs"
proof -
  from assms obtain a b c d where bs: "bs = [a, b, c, d]"
    by (auto simp: numeral_eq_Suc length_Suc_conv)
  show ?thesis
    by (simp add: bs be32_def of_be32_def) (auto intro!: bit_word_eqI simp: bit_simps)
qed

section \<open>Little-endian packing\<close>

text \<open>The bytes of a number, low byte first, as the machine stores integers and pointers.\<close>

primrec le_bytes :: "nat \<Rightarrow> nat \<Rightarrow> u8 list" where
  "le_bytes 0 p = []"
| "le_bytes (Suc k) p = of_nat p # le_bytes k (p div 256)"

primrec of_le_bytes :: "u8 list \<Rightarrow> nat" where
  "of_le_bytes [] = 0"
| "of_le_bytes (b # bs) = unat b + 256 * of_le_bytes bs"

lemma length_le_bytes [simp]: "length (le_bytes k p) = k"
  by (induction k arbitrary: p) simp_all

lemma of_le_bytes_le_bytes: "p < 256 ^ k \<Longrightarrow> of_le_bytes (le_bytes k p) = p"
proof (induction k arbitrary: p)
  case (Suc k)
  have "unat (of_nat p :: u8) = p mod 256" by (simp add: unat_of_nat take_bit_eq_mod)
  then show ?case using Suc.IH [of "p div 256"] Suc.prems by (simp add: less_mult_imp_div_less)
qed simp

end
