(* ===== verification/Xdr_Stream.thy ===== *)
theory Xdr_Stream
  imports Glibc_Prelude
begin

text \<open>
  The XDR handle and the operations vector every stream implementation fills in
  (\<open>sunrpc/rpc/xdr.h\<close>), and the contract the generic filters of \<open>sunrpc/xdr.c\<close> rely on.

  The handle is polymorphic in \<open>x_private\<close>, the field the implementation owns: an address for
  memory streams, a scratch block for the size counter.  The fields that hold addresses are
  natural numbers; \<open>x_mem\<close> is the memory they point into.  A function of the vector that the
  C code passes a result pointer returns the value instead, \<open>None\<close> for \<open>FALSE\<close>; \<open>x_inline\<close>
  returns the address of the reserved block, \<open>None\<close> for \<open>NULL\<close>.

  Two locales state what a stream promises: \<open>xdr_sink\<close> for one that is written and
  \<open>xdr_source\<close> for one that is read.
\<close>

datatype xdr_op = XDR_ENCODE | XDR_DECODE | XDR_FREE

definition BYTES_PER_XDR_UNIT :: u32 where
  "BYTES_PER_XDR_UNIT = 4"

record 'p XDR =
  x_op :: xdr_op
  x_private :: 'p
  x_base :: nat
  x_handy :: u32
  x_mem :: mem

record 'p xdr_ops =
  x_getlong :: "'p XDR \<Rightarrow> c_long option \<times> 'p XDR"
  x_putlong :: "'p XDR \<Rightarrow> c_long \<Rightarrow> bool \<times> 'p XDR"
  x_getbytes :: "'p XDR \<Rightarrow> u32 \<Rightarrow> u8 list option \<times> 'p XDR"
  x_putbytes :: "'p XDR \<Rightarrow> u8 list \<Rightarrow> u32 \<Rightarrow> bool \<times> 'p XDR"
  x_getpostn :: "'p XDR \<Rightarrow> u32"
  x_setpostn :: "'p XDR \<Rightarrow> u32 \<Rightarrow> bool \<times> 'p XDR"
  x_inline :: "'p XDR \<Rightarrow> u32 \<Rightarrow> nat option \<times> 'p XDR"
  x_destroy :: "'p XDR \<Rightarrow> 'p XDR"
  x_getint32 :: "'p XDR \<Rightarrow> c_int option \<times> 'p XDR"
  x_putint32 :: "'p XDR \<Rightarrow> c_int \<Rightarrow> bool \<times> 'p XDR"

text \<open>
  A filter (\<open>xdrproc_t\<close>) is called with the handle and a pointer to the object; here it maps
  the handle and the object's value to the result flag, the handle and the object's new value.
  A filter that goes through caller-provided storage returns \<open>None\<close> where the C code would
  access that storage out of bounds.
\<close>

type_synonym ('p, 'v) xdrproc = "'p XDR \<Rightarrow> 'v \<Rightarrow> (bool \<times> 'p XDR \<times> 'v) option"

section \<open>The contract of a stream\<close>

text \<open>
  A sink: \<open>room x n\<close> says that \<open>n\<close> more bytes fit, \<open>emit x bs\<close> is the handle after the
  bytes \<open>bs\<close> went out.  A put operation emits exactly its bytes or fails and changes nothing.
\<close>

locale xdr_sink =
  fixes ops :: "'p xdr_ops"
    and room :: "'p XDR \<Rightarrow> nat \<Rightarrow> bool"
    and emit :: "'p XDR \<Rightarrow> u8 list \<Rightarrow> 'p XDR"
  assumes putlong: "x_putlong ops x l =
      (if room x 4 then (True, emit x (be32 (ucast l))) else (False, x))"
    and putint32: "x_putint32 ops x i =
      (if room x 4 then (True, emit x (be32 i)) else (False, x))"
    and putbytes: "length bs = unat len \<Longrightarrow> x_putbytes ops x bs len =
      (if room x (length bs) then (True, emit x bs) else (False, x))"
    and emit_append: "room x (length a + length b) \<Longrightarrow> emit (emit x a) b = emit x (a @ b)"
    and room_emit: "room x (length a) \<Longrightarrow> room (emit x a) n \<longleftrightarrow> room x (length a + n)"
    and room_mono: "room x n \<Longrightarrow> k \<le> n \<Longrightarrow> room x k"
    and room_0: "room x 0"
    and emit_Nil: "emit x [] = x"
    and op_emit: "x_op (emit x a) = x_op x"

text \<open>
  A source: \<open>avail x\<close> are the bytes not read yet, \<open>adv x n\<close> the handle after \<open>n\<close> of them
  were consumed.
\<close>

locale xdr_source =
  fixes ops :: "'p xdr_ops"
    and avail :: "'p XDR \<Rightarrow> u8 list"
    and adv :: "'p XDR \<Rightarrow> nat \<Rightarrow> 'p XDR"
  assumes getlong: "x_getlong ops x =
      (if 4 \<le> length (avail x) then (Some (scast (of_be32 (take 4 (avail x)))), adv x 4)
       else (None, x))"
    and getint32: "x_getint32 ops x =
      (if 4 \<le> length (avail x) then (Some (of_be32 (take 4 (avail x))), adv x 4)
       else (None, x))"
    and getbytes: "x_getbytes ops x len =
      (if unat len \<le> length (avail x) then (Some (take (unat len) (avail x)), adv x (unat len))
       else (None, x))"
    and avail_adv: "k \<le> length (avail x) \<Longrightarrow> avail (adv x k) = drop k (avail x)"
    and adv_adv: "j + k \<le> length (avail x) \<Longrightarrow> adv (adv x j) k = adv x (j + k)"
    and adv_0: "adv x 0 = x"
    and op_adv: "x_op (adv x k) = x_op x"

end
