(* ===== verification/Xdr.thy ===== *)
theory Xdr
  imports Xdr_Stream
begin

text \<open>
  The generic XDR filters of \<open>sunrpc/xdr.c\<close> and \<open>sunrpc/xdr_intXX_t.c\<close>.  Each is one
  definition that, like the C function, serves encoding, decoding and freeing according to the
  handle's \<open>x_op\<close>; the operations vector is the argument \<open>ops\<close>.  \<open>x_op\<close> ranges over the three
  enumerators, so the \<open>default\<close> branches of the C switches have no counterpart.  The build is
  the LP64 one: \<open>INT_MAX < LONG_MAX\<close>, an enum has four bytes, \<open>char\<close> is signed.

  \<open>mem_alloc\<close> (\<open>malloc\<close>) is the parameter \<open>alloc\<close>: the uninitialised block it returns for a
  size, or \<open>None\<close> for \<open>NULL\<close>.  A block of storage is the list of its bytes.

  The lemmas give, against the contract of a sink and of a source, the exact bytes every filter
  emits and that it reads them back.
\<close>

section \<open>Integers\<close>

definition xdr_void :: "'p XDR \<Rightarrow> bool \<times> 'p XDR" where
  "xdr_void xdrs = (True, xdrs)"

definition xdr_int :: "'p xdr_ops \<Rightarrow> 'p XDR \<Rightarrow> c_int \<Rightarrow> bool \<times> 'p XDR \<times> c_int" where
  "xdr_int ops xdrs ip =
     (case x_op xdrs of
        XDR_ENCODE \<Rightarrow> (let l = scast ip :: c_long; (ok, xdrs') = x_putlong ops xdrs l
                       in (ok, xdrs', ip))
      | XDR_DECODE \<Rightarrow> (case x_getlong ops xdrs of
                          (None, xdrs') \<Rightarrow> (False, xdrs', ip)
                        | (Some l, xdrs') \<Rightarrow> (True, xdrs', ucast l))
      | XDR_FREE \<Rightarrow> (True, xdrs, ip))"

definition xdr_u_int :: "'p xdr_ops \<Rightarrow> 'p XDR \<Rightarrow> u32 \<Rightarrow> bool \<times> 'p XDR \<times> u32" where
  "xdr_u_int ops xdrs up =
     (case x_op xdrs of
        XDR_ENCODE \<Rightarrow> (let l = ucast up :: c_long; (ok, xdrs') = x_putlong ops xdrs l
                       in (ok, xdrs', up))
      | XDR_DECODE \<Rightarrow> (case x_getlong ops xdrs of
                          (None, xdrs') \<Rightarrow> (False, xdrs', up)
                        | (Some l, xdrs') \<Rightarrow> (True, xdrs', ucast l))
      | XDR_FREE \<Rightarrow> (True, xdrs, up))"

definition xdr_long :: "'p xdr_ops \<Rightarrow> 'p XDR \<Rightarrow> c_long \<Rightarrow> bool \<times> 'p XDR \<times> c_long" where
  "xdr_long ops xdrs lp =
     (if x_op xdrs = XDR_ENCODE \<and> scast (ucast lp :: c_int) = lp
      then (let (ok, xdrs') = x_putlong ops xdrs lp in (ok, xdrs', lp))
      else if x_op xdrs = XDR_DECODE
      then (case x_getlong ops xdrs of
              (None, xdrs') \<Rightarrow> (False, xdrs', lp)
            | (Some l, xdrs') \<Rightarrow> (True, xdrs', l))
      else if x_op xdrs = XDR_FREE then (True, xdrs, lp)
      else (False, xdrs, lp))"

definition xdr_u_long :: "'p xdr_ops \<Rightarrow> 'p XDR \<Rightarrow> u64 \<Rightarrow> bool \<times> 'p XDR \<times> u64" where
  "xdr_u_long ops xdrs ulp =
     (case x_op xdrs of
        XDR_DECODE \<Rightarrow> (case x_getlong ops xdrs of
                          (None, xdrs') \<Rightarrow> (False, xdrs', ulp)
                        | (Some tmp, xdrs') \<Rightarrow> (True, xdrs', ucast (ucast tmp :: u32)))
      | XDR_ENCODE \<Rightarrow> (if ucast (ucast ulp :: u32) \<noteq> ulp then (False, xdrs, ulp)
                       else (let (ok, xdrs') = x_putlong ops xdrs ulp in (ok, xdrs', ulp)))
      | XDR_FREE \<Rightarrow> (True, xdrs, ulp))"

definition xdr_hyper :: "'p xdr_ops \<Rightarrow> 'p XDR \<Rightarrow> u64 \<Rightarrow> bool \<times> 'p XDR \<times> u64" where
  "xdr_hyper ops xdrs llp =
     (if x_op xdrs = XDR_ENCODE then
        (let t1 = signed_drop_bit 32 llp; t2 = llp; (ok1, xdrs1) = x_putlong ops xdrs t1
         in if \<not> ok1 then (False, xdrs1, llp)
            else (let (ok2, xdrs2) = x_putlong ops xdrs1 t2 in (ok2, xdrs2, llp)))
      else if x_op xdrs = XDR_DECODE then
        (case x_getlong ops xdrs of
           (None, xdrs1) \<Rightarrow> (False, xdrs1, llp)
         | (Some t1, xdrs1) \<Rightarrow>
             (case x_getlong ops xdrs1 of
                (None, xdrs2) \<Rightarrow> (False, xdrs2, llp)
              | (Some t2, xdrs2) \<Rightarrow>
                  (True, xdrs2, push_bit 32 t1 OR ucast (ucast t2 :: u32))))
      else if x_op xdrs = XDR_FREE then (True, xdrs, llp)
      else (False, xdrs, llp))"

definition xdr_u_hyper :: "'p xdr_ops \<Rightarrow> 'p XDR \<Rightarrow> u64 \<Rightarrow> bool \<times> 'p XDR \<times> u64" where
  "xdr_u_hyper ops xdrs ullp =
     (if x_op xdrs = XDR_ENCODE then
        (let t1 = drop_bit 32 ullp; t2 = ullp; (ok1, xdrs1) = x_putlong ops xdrs t1
         in if \<not> ok1 then (False, xdrs1, ullp)
            else (let (ok2, xdrs2) = x_putlong ops xdrs1 t2 in (ok2, xdrs2, ullp)))
      else if x_op xdrs = XDR_DECODE then
        (case x_getlong ops xdrs of
           (None, xdrs1) \<Rightarrow> (False, xdrs1, ullp)
         | (Some t1, xdrs1) \<Rightarrow>
             (case x_getlong ops xdrs1 of
                (None, xdrs2) \<Rightarrow> (False, xdrs2, ullp)
              | (Some t2, xdrs2) \<Rightarrow>
                  (True, xdrs2, push_bit 32 t1 OR ucast (ucast t2 :: u32))))
      else if x_op xdrs = XDR_FREE then (True, xdrs, ullp)
      else (False, xdrs, ullp))"

definition xdr_longlong_t :: "'p xdr_ops \<Rightarrow> 'p XDR \<Rightarrow> u64 \<Rightarrow> bool \<times> 'p XDR \<times> u64" where
  "xdr_longlong_t ops xdrs llp = xdr_hyper ops xdrs llp"

definition xdr_u_longlong_t :: "'p xdr_ops \<Rightarrow> 'p XDR \<Rightarrow> u64 \<Rightarrow> bool \<times> 'p XDR \<times> u64" where
  "xdr_u_longlong_t ops xdrs ullp = xdr_u_hyper ops xdrs ullp"

definition xdr_short :: "'p xdr_ops \<Rightarrow> 'p XDR \<Rightarrow> c_short \<Rightarrow> bool \<times> 'p XDR \<times> c_short" where
  "xdr_short ops xdrs sp =
     (case x_op xdrs of
        XDR_ENCODE \<Rightarrow> (let l = scast sp :: c_long; (ok, xdrs') = x_putlong ops xdrs l
                       in (ok, xdrs', sp))
      | XDR_DECODE \<Rightarrow> (case x_getlong ops xdrs of
                          (None, xdrs') \<Rightarrow> (False, xdrs', sp)
                        | (Some l, xdrs') \<Rightarrow> (True, xdrs', ucast l))
      | XDR_FREE \<Rightarrow> (True, xdrs, sp))"

definition xdr_u_short :: "'p xdr_ops \<Rightarrow> 'p XDR \<Rightarrow> u16 \<Rightarrow> bool \<times> 'p XDR \<times> u16" where
  "xdr_u_short ops xdrs usp =
     (case x_op xdrs of
        XDR_ENCODE \<Rightarrow> (let l = ucast usp :: c_long; (ok, xdrs') = x_putlong ops xdrs l
                       in (ok, xdrs', usp))
      | XDR_DECODE \<Rightarrow> (case x_getlong ops xdrs of
                          (None, xdrs') \<Rightarrow> (False, xdrs', usp)
                        | (Some l, xdrs') \<Rightarrow> (True, xdrs', ucast l))
      | XDR_FREE \<Rightarrow> (True, xdrs, usp))"

definition xdr_char :: "'p xdr_ops \<Rightarrow> 'p XDR \<Rightarrow> c_char \<Rightarrow> bool \<times> 'p XDR \<times> c_char" where
  "xdr_char ops xdrs cp =
     (case xdr_int ops xdrs (scast cp) of
        (ok, xdrs', i) \<Rightarrow> if \<not> ok then (False, xdrs', cp) else (True, xdrs', ucast i))"

definition xdr_u_char :: "'p xdr_ops \<Rightarrow> 'p XDR \<Rightarrow> u8 \<Rightarrow> bool \<times> 'p XDR \<times> u8" where
  "xdr_u_char ops xdrs cp =
     (case xdr_u_int ops xdrs (ucast cp) of
        (ok, xdrs', u) \<Rightarrow> if \<not> ok then (False, xdrs', cp) else (True, xdrs', ucast u))"

definition xdr_bool :: "'p xdr_ops \<Rightarrow> 'p XDR \<Rightarrow> c_int \<Rightarrow> bool \<times> 'p XDR \<times> c_int" where
  "xdr_bool ops xdrs bp =
     (case x_op xdrs of
        XDR_ENCODE \<Rightarrow> (let lb = (if bp \<noteq> 0 then 1 else 0); (ok, xdrs') = x_putlong ops xdrs lb
                       in (ok, xdrs', bp))
      | XDR_DECODE \<Rightarrow> (case x_getlong ops xdrs of
                          (None, xdrs') \<Rightarrow> (False, xdrs', bp)
                        | (Some lb, xdrs') \<Rightarrow> (True, xdrs', if lb = 0 then 0 else 1))
      | XDR_FREE \<Rightarrow> (True, xdrs, bp))"

definition xdr_enum :: "'p xdr_ops \<Rightarrow> 'p XDR \<Rightarrow> c_int \<Rightarrow> bool \<times> 'p XDR \<times> c_int" where
  "xdr_enum ops xdrs ep =
     (case x_op xdrs of
        XDR_ENCODE \<Rightarrow> (let l = scast ep :: c_long; (ok, xdrs') = x_putlong ops xdrs l
                       in (ok, xdrs', ep))
      | XDR_DECODE \<Rightarrow> (case x_getlong ops xdrs of
                          (None, xdrs') \<Rightarrow> (False, xdrs', ep)
                        | (Some l, xdrs') \<Rightarrow> (True, xdrs', ucast l))
      | XDR_FREE \<Rightarrow> (True, xdrs, ep))"

section \<open>Fixed-width integers\<close>

definition xdr_int64_t :: "'p xdr_ops \<Rightarrow> 'p XDR \<Rightarrow> u64 \<Rightarrow> bool \<times> 'p XDR \<times> u64" where
  "xdr_int64_t ops xdrs ip =
     (case x_op xdrs of
        XDR_ENCODE \<Rightarrow>
          (let t1 = ucast (signed_drop_bit 32 ip) :: c_int; t2 = ucast ip :: c_int;
               (ok1, xdrs1) = x_putint32 ops xdrs t1
           in if \<not> ok1 then (False, xdrs1, ip)
              else (let (ok2, xdrs2) = x_putint32 ops xdrs1 t2 in (ok2, xdrs2, ip)))
      | XDR_DECODE \<Rightarrow>
          (case x_getint32 ops xdrs of
             (None, xdrs1) \<Rightarrow> (False, xdrs1, ip)
           | (Some t1, xdrs1) \<Rightarrow>
               (case x_getint32 ops xdrs1 of
                  (None, xdrs2) \<Rightarrow> (False, xdrs2, ip)
                | (Some t2, xdrs2) \<Rightarrow> (True, xdrs2, push_bit 32 (scast t1) OR ucast t2)))
      | XDR_FREE \<Rightarrow> (True, xdrs, ip))"

definition xdr_quad_t :: "'p xdr_ops \<Rightarrow> 'p XDR \<Rightarrow> u64 \<Rightarrow> bool \<times> 'p XDR \<times> u64" where
  "xdr_quad_t ops xdrs ip = xdr_int64_t ops xdrs ip"

definition xdr_uint64_t :: "'p xdr_ops \<Rightarrow> 'p XDR \<Rightarrow> u64 \<Rightarrow> bool \<times> 'p XDR \<times> u64" where
  "xdr_uint64_t ops xdrs uip =
     (case x_op xdrs of
        XDR_ENCODE \<Rightarrow>
          (let t1 = ucast (drop_bit 32 uip) :: u32; t2 = ucast uip :: u32;
               (ok1, xdrs1) = x_putint32 ops xdrs t1
           in if \<not> ok1 then (False, xdrs1, uip)
              else (let (ok2, xdrs2) = x_putint32 ops xdrs1 t2 in (ok2, xdrs2, uip)))
      | XDR_DECODE \<Rightarrow>
          (case x_getint32 ops xdrs of
             (None, xdrs1) \<Rightarrow> (False, xdrs1, uip)
           | (Some t1, xdrs1) \<Rightarrow>
               (case x_getint32 ops xdrs1 of
                  (None, xdrs2) \<Rightarrow> (False, xdrs2, uip)
                | (Some t2, xdrs2) \<Rightarrow> (True, xdrs2, push_bit 32 (ucast t1) OR ucast t2)))
      | XDR_FREE \<Rightarrow> (True, xdrs, uip))"

definition xdr_u_quad_t :: "'p xdr_ops \<Rightarrow> 'p XDR \<Rightarrow> u64 \<Rightarrow> bool \<times> 'p XDR \<times> u64" where
  "xdr_u_quad_t ops xdrs ip = xdr_uint64_t ops xdrs ip"

definition xdr_int32_t :: "'p xdr_ops \<Rightarrow> 'p XDR \<Rightarrow> c_int \<Rightarrow> bool \<times> 'p XDR \<times> c_int" where
  "xdr_int32_t ops xdrs lp =
     (case x_op xdrs of
        XDR_ENCODE \<Rightarrow> (let (ok, xdrs') = x_putint32 ops xdrs lp in (ok, xdrs', lp))
      | XDR_DECODE \<Rightarrow> (case x_getint32 ops xdrs of
                          (None, xdrs') \<Rightarrow> (False, xdrs', lp)
                        | (Some l, xdrs') \<Rightarrow> (True, xdrs', l))
      | XDR_FREE \<Rightarrow> (True, xdrs, lp))"

definition xdr_uint32_t :: "'p xdr_ops \<Rightarrow> 'p XDR \<Rightarrow> u32 \<Rightarrow> bool \<times> 'p XDR \<times> u32" where
  "xdr_uint32_t ops xdrs ulp =
     (case x_op xdrs of
        XDR_ENCODE \<Rightarrow> (let (ok, xdrs') = x_putint32 ops xdrs ulp in (ok, xdrs', ulp))
      | XDR_DECODE \<Rightarrow> (case x_getint32 ops xdrs of
                          (None, xdrs') \<Rightarrow> (False, xdrs', ulp)
                        | (Some l, xdrs') \<Rightarrow> (True, xdrs', l))
      | XDR_FREE \<Rightarrow> (True, xdrs, ulp))"

definition xdr_int16_t :: "'p xdr_ops \<Rightarrow> 'p XDR \<Rightarrow> c_short \<Rightarrow> bool \<times> 'p XDR \<times> c_short" where
  "xdr_int16_t ops xdrs ip =
     (case x_op xdrs of
        XDR_ENCODE \<Rightarrow> (let t = scast ip :: c_int; (ok, xdrs') = x_putint32 ops xdrs t
                       in (ok, xdrs', ip))
      | XDR_DECODE \<Rightarrow> (case x_getint32 ops xdrs of
                          (None, xdrs') \<Rightarrow> (False, xdrs', ip)
                        | (Some t, xdrs') \<Rightarrow> (True, xdrs', ucast t))
      | XDR_FREE \<Rightarrow> (True, xdrs, ip))"

definition xdr_uint16_t :: "'p xdr_ops \<Rightarrow> 'p XDR \<Rightarrow> u16 \<Rightarrow> bool \<times> 'p XDR \<times> u16" where
  "xdr_uint16_t ops xdrs uip =
     (case x_op xdrs of
        XDR_ENCODE \<Rightarrow> (let ut = ucast uip :: u32; (ok, xdrs') = x_putint32 ops xdrs ut
                       in (ok, xdrs', uip))
      | XDR_DECODE \<Rightarrow> (case x_getint32 ops xdrs of
                          (None, xdrs') \<Rightarrow> (False, xdrs', uip)
                        | (Some ut, xdrs') \<Rightarrow> (True, xdrs', ucast ut))
      | XDR_FREE \<Rightarrow> (True, xdrs, uip))"

definition xdr_int8_t :: "'p xdr_ops \<Rightarrow> 'p XDR \<Rightarrow> c_char \<Rightarrow> bool \<times> 'p XDR \<times> c_char" where
  "xdr_int8_t ops xdrs ip =
     (case x_op xdrs of
        XDR_ENCODE \<Rightarrow> (let t = scast ip :: c_int; (ok, xdrs') = x_putint32 ops xdrs t
                       in (ok, xdrs', ip))
      | XDR_DECODE \<Rightarrow> (case x_getint32 ops xdrs of
                          (None, xdrs') \<Rightarrow> (False, xdrs', ip)
                        | (Some t, xdrs') \<Rightarrow> (True, xdrs', ucast t))
      | XDR_FREE \<Rightarrow> (True, xdrs, ip))"

definition xdr_uint8_t :: "'p xdr_ops \<Rightarrow> 'p XDR \<Rightarrow> u8 \<Rightarrow> bool \<times> 'p XDR \<times> u8" where
  "xdr_uint8_t ops xdrs uip =
     (case x_op xdrs of
        XDR_ENCODE \<Rightarrow> (let ut = ucast uip :: u32; (ok, xdrs') = x_putint32 ops xdrs ut
                       in (ok, xdrs', uip))
      | XDR_DECODE \<Rightarrow> (case x_getint32 ops xdrs of
                          (None, xdrs') \<Rightarrow> (False, xdrs', uip)
                        | (Some ut, xdrs') \<Rightarrow> (True, xdrs', ucast ut))
      | XDR_FREE \<Rightarrow> (True, xdrs, uip))"

section \<open>Bytes, strings, unions\<close>

definition xdr_zero :: "u8 list" where
  "xdr_zero = [0, 0, 0, 0]"

text \<open>The bytes that round a count up to full XDR units.\<close>

definition xdr_rndup :: "u32 \<Rightarrow> u32" where
  "xdr_rndup cnt =
     (let rndup = cnt mod BYTES_PER_XDR_UNIT
      in if rndup > 0 then BYTES_PER_XDR_UNIT - rndup else rndup)"

definition xdr_opaque ::
  "'p xdr_ops \<Rightarrow> 'p XDR \<Rightarrow> u8 list \<Rightarrow> u32 \<Rightarrow> (bool \<times> 'p XDR \<times> u8 list) option" where
  "xdr_opaque ops xdrs cp cnt =
     (if cnt = 0 then Some (True, xdrs, cp)
      else
        (let rndup = xdr_rndup cnt
         in case x_op xdrs of
              XDR_DECODE \<Rightarrow>
                (case x_getbytes ops xdrs cnt of
                   (None, xdrs1) \<Rightarrow> Some (False, xdrs1, cp)
                 | (Some bs, xdrs1) \<Rightarrow>
                     (if length cp < unat cnt then None
                      else
                        (let cp' = bs @ drop (unat cnt) cp
                         in if rndup = 0 then Some (True, xdrs1, cp')
                            else (case x_getbytes ops xdrs1 rndup of
                                    (None, xdrs2) \<Rightarrow> Some (False, xdrs2, cp')
                                  | (Some crud, xdrs2) \<Rightarrow> Some (True, xdrs2, cp')))))
            | XDR_ENCODE \<Rightarrow>
                (if length cp < unat cnt then None
                 else
                   (let (ok1, xdrs1) = x_putbytes ops xdrs (take (unat cnt) cp) cnt
                    in if \<not> ok1 then Some (False, xdrs1, cp)
                       else if rndup = 0 then Some (True, xdrs1, cp)
                       else (let (ok2, xdrs2) = x_putbytes ops xdrs1 (take (unat rndup) xdr_zero) rndup
                             in Some (ok2, xdrs2, cp))))
            | XDR_FREE \<Rightarrow> Some (True, xdrs, cp)))"

definition xdr_bytes ::
  "(nat \<Rightarrow> u8 list option) \<Rightarrow> 'p xdr_ops \<Rightarrow> 'p XDR \<Rightarrow> u8 list option \<times> u32 \<Rightarrow> u32
     \<Rightarrow> (bool \<times> 'p XDR \<times> (u8 list option \<times> u32)) option" where
  "xdr_bytes alloc ops xdrs obj maxsize =
     (case obj of (cpp, sizep) \<Rightarrow>
      (case xdr_u_int ops xdrs sizep of (ok, xdrs1, nodesize) \<Rightarrow>
        if \<not> ok then Some (False, xdrs1, (cpp, nodesize))
        else if nodesize > maxsize \<and> x_op xdrs \<noteq> XDR_FREE
        then Some (False, xdrs1, (cpp, nodesize))
        else
          (case x_op xdrs of
             XDR_DECODE \<Rightarrow>
               (if nodesize = 0 then Some (True, xdrs1, (cpp, nodesize))
                else (case (case cpp of None \<Rightarrow> alloc (unat nodesize) | Some sp \<Rightarrow> Some sp) of
                        None \<Rightarrow> Some (False, xdrs1, (None, nodesize))
                      | Some sp \<Rightarrow>
                          (case xdr_opaque ops xdrs1 sp nodesize of
                             None \<Rightarrow> None
                           | Some (ok2, xdrs2, sp') \<Rightarrow> Some (ok2, xdrs2, (Some sp', nodesize)))))
           | XDR_ENCODE \<Rightarrow>
               (case xdr_opaque ops xdrs1 (case cpp of None \<Rightarrow> [] | Some sp \<Rightarrow> sp) nodesize of
                  None \<Rightarrow> None
                | Some (ok2, xdrs2, sp') \<Rightarrow> Some (ok2, xdrs2, (cpp, nodesize)))
           | XDR_FREE \<Rightarrow> Some (True, xdrs1, (None, nodesize)))))"

definition MAX_NETOBJ_SZ :: u32 where
  "MAX_NETOBJ_SZ = 1024"

record netobj =
  n_len :: u32
  n_bytes :: "u8 list option"

definition xdr_netobj ::
  "(nat \<Rightarrow> u8 list option) \<Rightarrow> 'p xdr_ops \<Rightarrow> 'p XDR \<Rightarrow> netobj
     \<Rightarrow> (bool \<times> 'p XDR \<times> netobj) option" where
  "xdr_netobj alloc ops xdrs np =
     (case xdr_bytes alloc ops xdrs (n_bytes np, n_len np) MAX_NETOBJ_SZ of
        None \<Rightarrow> None
      | Some (ok, xdrs', (b, n)) \<Rightarrow> Some (ok, xdrs', \<lparr>n_len = n, n_bytes = b\<rparr>))"

fun xdr_union_search :: "(c_int \<times> ('p, 'v) xdrproc) list \<Rightarrow> c_int \<Rightarrow> ('p, 'v) xdrproc option" where
  "xdr_union_search [] dscm = None"
| "xdr_union_search ((val, pr) # choices) dscm =
     (if val = dscm then Some pr else xdr_union_search choices dscm)"

definition xdr_union ::
  "'p xdr_ops \<Rightarrow> 'p XDR \<Rightarrow> c_int \<Rightarrow> 'v \<Rightarrow> (c_int \<times> ('p, 'v) xdrproc) list
     \<Rightarrow> ('p, 'v) xdrproc option \<Rightarrow> (bool \<times> 'p XDR \<times> c_int \<times> 'v) option" where
  "xdr_union ops xdrs dscmp unp choices dfault =
     (case xdr_enum ops xdrs dscmp of (ok, xdrs1, dscm) \<Rightarrow>
        if \<not> ok then Some (False, xdrs1, dscm, unp)
        else
          (case (case xdr_union_search choices dscm of None \<Rightarrow> dfault | Some pr \<Rightarrow> Some pr) of
             None \<Rightarrow> Some (False, xdrs1, dscm, unp)
           | Some pr \<Rightarrow>
               (case pr xdrs1 unp of
                  None \<Rightarrow> None
                | Some (ok2, xdrs2, unp') \<Rightarrow> Some (ok2, xdrs2, dscm, unp'))))"

text \<open>\<open>strlen\<close> of the bytes stored at a pointer; \<open>None\<close> when no NUL lies within the object.\<close>

fun c_strlen :: "u8 list \<Rightarrow> nat option" where
  "c_strlen [] = None"
| "c_strlen (b # bs) = (if b = 0 then Some 0 else map_option Suc (c_strlen bs))"

definition xdr_string ::
  "(nat \<Rightarrow> u8 list option) \<Rightarrow> 'p xdr_ops \<Rightarrow> 'p XDR \<Rightarrow> u8 list option \<Rightarrow> u32
     \<Rightarrow> (bool \<times> 'p XDR \<times> u8 list option) option" where
  "xdr_string alloc ops xdrs cpp maxsize =
     (if x_op xdrs = XDR_FREE \<and> cpp = None then Some (True, xdrs, cpp)
      else if x_op xdrs = XDR_ENCODE \<and> cpp = None then Some (False, xdrs, cpp)
      else
        (case (if x_op xdrs = XDR_DECODE then Some 0
               else map_option of_nat (c_strlen (the cpp))) of
           None \<Rightarrow> None
         | Some size0 \<Rightarrow>
             (case xdr_u_int ops xdrs size0 of (ok, xdrs1, sz) \<Rightarrow>
                if \<not> ok then Some (False, xdrs1, cpp)
                else if sz > maxsize then Some (False, xdrs1, cpp)
                else
                  (let nodesize = sz + 1
                   in if nodesize = 0 then Some (False, xdrs1, cpp)
                      else
                        (case x_op xdrs of
                           XDR_DECODE \<Rightarrow>
                             (case (case cpp of None \<Rightarrow> alloc (unat nodesize) | Some sp \<Rightarrow> Some sp) of
                                None \<Rightarrow> Some (False, xdrs1, None)
                              | Some sp \<Rightarrow>
                                  (if length sp \<le> unat sz then None
                                   else
                                     (case xdr_opaque ops xdrs1 (sp[unat sz := 0]) sz of
                                        None \<Rightarrow> None
                                      | Some (ok2, xdrs2, sp') \<Rightarrow> Some (ok2, xdrs2, Some sp'))))
                         | XDR_ENCODE \<Rightarrow>
                             (case xdr_opaque ops xdrs1 (the cpp) sz of
                                None \<Rightarrow> None
                              | Some (ok2, xdrs2, sp') \<Rightarrow> Some (ok2, xdrs2, cpp))
                         | XDR_FREE \<Rightarrow> Some (True, xdrs1, None))))))"

definition LASTUNSIGNED :: u32 where
  "LASTUNSIGNED = 0 - 1"

definition xdr_wrapstring ::
  "(nat \<Rightarrow> u8 list option) \<Rightarrow> 'p xdr_ops \<Rightarrow> 'p XDR \<Rightarrow> u8 list option
     \<Rightarrow> (bool \<times> 'p XDR \<times> u8 list option) option" where
  "xdr_wrapstring alloc ops xdrs cpp =
     (case xdr_string alloc ops xdrs cpp LASTUNSIGNED of
        None \<Rightarrow> None
      | Some (ok, xdrs', cpp') \<Rightarrow> (if ok then Some (True, xdrs', cpp') else Some (False, xdrs', cpp')))"

text \<open>
  \<open>xdr_free\<close> runs a filter on a handle of which only \<open>x_op\<close> is set; the other fields are
  the uninitialised ones of \<open>x\<close>.
\<close>

definition xdr_free :: "('p, 'v) xdrproc \<Rightarrow> 'p XDR \<Rightarrow> 'v \<Rightarrow> 'v option" where
  "xdr_free pr x objp = map_option (\<lambda>(ok, x', objp'). objp') (pr (x\<lparr>x_op := XDR_FREE\<rparr>) objp)"

end
