(* ===== verification/Xdr_Codec.thy ===== *)
theory Xdr_Codec
  imports Xdr
begin

text \<open>
  What the filters put on the wire.  \<open>xdr_encodes\<close> and \<open>xdr_decodes\<close> say, over the contract of
  a stream, that a filter emits exactly the given bytes for a value (or reports failure when
  they do not fit, after a prefix of them that did fit) and that it turns these bytes back into the value, consuming them and nothing
  more.
\<close>

definition xdr_prefix_out ::
  "('p XDR \<Rightarrow> nat \<Rightarrow> bool) \<Rightarrow> ('p XDR \<Rightarrow> u8 list \<Rightarrow> 'p XDR) \<Rightarrow> 'p XDR \<Rightarrow> u8 list \<Rightarrow> 'p XDR \<Rightarrow> bool"
  where
  "xdr_prefix_out room emit x bs x' \<longleftrightarrow>
     (\<exists>k \<le> length bs. room x k \<and> x' = emit x (take k bs))"

definition xdr_encodes ::
  "('p XDR \<Rightarrow> nat \<Rightarrow> bool) \<Rightarrow> ('p XDR \<Rightarrow> u8 list \<Rightarrow> 'p XDR) \<Rightarrow> ('p, 'v) xdrproc \<Rightarrow> 'v \<Rightarrow> u8 list \<Rightarrow> bool"
  where
  "xdr_encodes room emit pr v bs \<longleftrightarrow>
     (\<forall>x. x_op x = XDR_ENCODE \<longrightarrow>
       (if room x (length bs) then pr x v = Some (True, emit x bs, v)
        else (\<exists>x'. pr x v = Some (False, x', v) \<and> xdr_prefix_out room emit x bs x')))"

definition xdr_decodes ::
  "('p XDR \<Rightarrow> u8 list) \<Rightarrow> ('p XDR \<Rightarrow> nat \<Rightarrow> 'p XDR) \<Rightarrow> ('p, 'v) xdrproc \<Rightarrow> 'v \<Rightarrow> 'v \<Rightarrow> u8 list \<Rightarrow> bool"
  where
  "xdr_decodes avail adv pr w v bs \<longleftrightarrow>
     (\<forall>x r. x_op x = XDR_DECODE \<longrightarrow> avail x = bs @ r \<longrightarrow>
       pr x w = Some (True, adv x (length bs), v))"

text \<open>A scalar filter as an \<open>xdrproc\<close>: it touches no caller storage beyond the object.\<close>

definition lift_xdr :: "('p XDR \<Rightarrow> 'v \<Rightarrow> bool \<times> 'p XDR \<times> 'v) \<Rightarrow> ('p, 'v) xdrproc" where
  "lift_xdr f x v = Some (f x v)"

definition xdr_pad :: "nat \<Rightarrow> nat" where
  "xdr_pad n = (4 - n mod 4) mod 4"

definition enc_opaque :: "u8 list \<Rightarrow> u8 list" where
  "enc_opaque bs = bs @ replicate (xdr_pad (length bs)) 0"

definition enc_bytes :: "u8 list \<Rightarrow> u8 list" where
  "enc_bytes bs = be32 (of_nat (length bs)) @ enc_opaque bs"

definition enc_hyper :: "u64 \<Rightarrow> u8 list" where
  "enc_hyper v = be32 (ucast (drop_bit 32 v)) @ be32 (ucast v)"

lemma length_enc_hyper [simp]: "length (enc_hyper v) = 8"
  by (simp add: enc_hyper_def)

section \<open>Encoding\<close>

context xdr_sink
begin

lemma room_4_8: "room x 8 \<Longrightarrow> room x 4"
  by (erule room_mono) simp

lemma room_emit_4 [simp]: "length a = 4 \<Longrightarrow> room x 4 \<Longrightarrow> room (emit x a) 4 \<longleftrightarrow> room x 8"
  using room_emit [of x a 4] by simp

lemma emit_hyper: "room x 8 \<Longrightarrow> emit (emit x (be32 (ucast (drop_bit 32 v)))) (be32 (ucast v)) = emit x (enc_hyper v)"
  using emit_append [of x "be32 (ucast (drop_bit 32 v))" "be32 (ucast v)"] by (simp add: enc_hyper_def)

text \<open>The prefixes of an output.\<close>

lemma prefix_out_none [simp]: "xdr_prefix_out room emit x bs x"
  unfolding xdr_prefix_out_def by (rule exI [of _ 0]) (simp add: room_0 emit_Nil)

lemma prefix_out_first [simp]: "room x (length a) \<Longrightarrow> xdr_prefix_out room emit x (a @ b) (emit x a)"
  unfolding xdr_prefix_out_def by (rule exI [of _ "length a"]) simp

lemma prefix_out_after:
  assumes "room x (length a)" and "xdr_prefix_out room emit (emit x a) bs x'"
  shows "xdr_prefix_out room emit x (a @ bs) x'"
proof -
  from assms(2) obtain k where k: "k \<le> length bs" "room (emit x a) k" "x' = emit (emit x a) (take k bs)"
    by (auto simp: xdr_prefix_out_def)
  then have "room x (length a + k)" using assms(1) by (simp add: room_emit)
  then have "x' = emit x (take (length a + k) (a @ bs))"
    using k by (simp add: emit_append)
  with \<open>room x (length a + k)\<close> k(1) show ?thesis
    unfolding xdr_prefix_out_def by (intro exI [of _ "length a + k"]) simp
qed

lemma prefix_out_extend:
  assumes "xdr_prefix_out room emit x a x'" shows "xdr_prefix_out room emit x (a @ b) x'"
proof -
  from assms obtain k where k: "k \<le> length a" "room x k" "x' = emit x (take k a)"
    by (auto simp: xdr_prefix_out_def)
  then show ?thesis
    unfolding xdr_prefix_out_def by (intro exI [of _ k]) simp
qed

lemma prefix_out_hyper [simp]:
  "room x 4 \<Longrightarrow> xdr_prefix_out room emit x (enc_hyper v) (emit x (be32 (ucast (drop_bit 32 v))))"
  using prefix_out_first [of x "be32 (ucast (drop_bit 32 v))" "be32 (ucast v)"]
  by (simp add: enc_hyper_def)

text \<open>A filter that runs after other bytes went out.\<close>

lemma encodes_after:
  assumes "xdr_encodes room emit pr v bs" and "x_op x = XDR_ENCODE" and "room x (length a)"
  shows "if room x (length a + length bs) then pr (emit x a) v = Some (True, emit x (a @ bs), v)
     else (\<exists>x'. pr (emit x a) v = Some (False, x', v) \<and> xdr_prefix_out room emit x (a @ bs) x')"
  using assms room_emit [of x a "length bs"] emit_append [of x a bs]
  by (auto simp: xdr_encodes_def op_emit split: if_splits dest!: spec [of _ "emit x a"]
      intro: prefix_out_after)

lemma encodes_int: "xdr_encodes room emit (lift_xdr (xdr_int ops)) v (be32 v)"
  by (simp add: xdr_encodes_def lift_xdr_def xdr_int_def putlong)

lemma encodes_u_int: "xdr_encodes room emit (lift_xdr (xdr_u_int ops)) v (be32 v)"
  by (simp add: xdr_encodes_def lift_xdr_def xdr_u_int_def putlong)

lemma encodes_long:
  "scast (ucast v :: c_int) = v \<Longrightarrow> xdr_encodes room emit (lift_xdr (xdr_long ops)) v (be32 (ucast v))"
  by (simp add: xdr_encodes_def lift_xdr_def xdr_long_def putlong)

lemma encodes_u_long:
  "ucast (ucast v :: u32) = v \<Longrightarrow> xdr_encodes room emit (lift_xdr (xdr_u_long ops)) v (be32 (ucast v))"
  by (simp add: xdr_encodes_def lift_xdr_def xdr_u_long_def putlong)

lemma encodes_hyper: "xdr_encodes room emit (lift_xdr (xdr_hyper ops)) v (enc_hyper v)"
  by (auto simp: xdr_encodes_def lift_xdr_def xdr_hyper_def putlong emit_hyper room_4_8)

lemma encodes_u_hyper: "xdr_encodes room emit (lift_xdr (xdr_u_hyper ops)) v (enc_hyper v)"
  by (auto simp: xdr_encodes_def lift_xdr_def xdr_u_hyper_def putlong emit_hyper room_4_8)

lemma encodes_short:
  "xdr_encodes room emit (lift_xdr (xdr_short ops)) v (be32 (scast v))"
  by (simp add: xdr_encodes_def lift_xdr_def xdr_short_def putlong)

lemma encodes_u_short:
  "xdr_encodes room emit (lift_xdr (xdr_u_short ops)) v (be32 (ucast v))"
  by (simp add: xdr_encodes_def lift_xdr_def xdr_u_short_def putlong)

lemma encodes_char: "xdr_encodes room emit (lift_xdr (xdr_char ops)) v (be32 (scast v))"
  by (simp add: xdr_encodes_def lift_xdr_def xdr_char_def xdr_int_def putlong)

lemma encodes_u_char: "xdr_encodes room emit (lift_xdr (xdr_u_char ops)) v (be32 (ucast v))"
  by (simp add: xdr_encodes_def lift_xdr_def xdr_u_char_def xdr_u_int_def putlong)

lemma encodes_bool:
  "xdr_encodes room emit (lift_xdr (xdr_bool ops)) v (be32 (if v \<noteq> 0 then 1 else 0))"
  by (simp add: xdr_encodes_def lift_xdr_def xdr_bool_def putlong)

lemma encodes_enum: "xdr_encodes room emit (lift_xdr (xdr_enum ops)) v (be32 v)"
  by (simp add: xdr_encodes_def lift_xdr_def xdr_enum_def putlong)

lemma encodes_int64_t: "xdr_encodes room emit (lift_xdr (xdr_int64_t ops)) v (enc_hyper v)"
  by (auto simp: xdr_encodes_def lift_xdr_def xdr_int64_t_def putint32 emit_hyper room_4_8)

lemma encodes_uint64_t: "xdr_encodes room emit (lift_xdr (xdr_uint64_t ops)) v (enc_hyper v)"
  by (auto simp: xdr_encodes_def lift_xdr_def xdr_uint64_t_def putint32 emit_hyper room_4_8)

lemma encodes_int32_t: "xdr_encodes room emit (lift_xdr (xdr_int32_t ops)) v (be32 v)"
  by (simp add: xdr_encodes_def lift_xdr_def xdr_int32_t_def putint32)

lemma encodes_uint32_t: "xdr_encodes room emit (lift_xdr (xdr_uint32_t ops)) v (be32 v)"
  by (simp add: xdr_encodes_def lift_xdr_def xdr_uint32_t_def putint32)

lemma encodes_int16_t: "xdr_encodes room emit (lift_xdr (xdr_int16_t ops)) v (be32 (scast v))"
  by (simp add: xdr_encodes_def lift_xdr_def xdr_int16_t_def putint32)

lemma encodes_uint16_t: "xdr_encodes room emit (lift_xdr (xdr_uint16_t ops)) v (be32 (ucast v))"
  by (simp add: xdr_encodes_def lift_xdr_def xdr_uint16_t_def putint32)

lemma encodes_int8_t: "xdr_encodes room emit (lift_xdr (xdr_int8_t ops)) v (be32 (scast v))"
  by (simp add: xdr_encodes_def lift_xdr_def xdr_int8_t_def putint32)

lemma encodes_uint8_t: "xdr_encodes room emit (lift_xdr (xdr_uint8_t ops)) v (be32 (ucast v))"
  by (simp add: xdr_encodes_def lift_xdr_def xdr_uint8_t_def putint32)

end

section \<open>Decoding\<close>

context xdr_source
begin

lemma get_be32:
  assumes "avail x = be32 v @ r"
  shows "x_getlong ops x = (Some (scast v), adv x 4)" and "x_getint32 ops x = (Some v, adv x 4)"
    and "avail (adv x 4) = r"
  using assms by (simp_all add: getlong getint32 avail_adv)

lemma adv_4_4: "avail x = be32 v @ be32 w @ r \<Longrightarrow> adv (adv x 4) 4 = adv x 8"
  using adv_adv [of 4 4 x] by simp

text \<open>A filter that runs after other bytes were consumed.\<close>

lemma decodes_after:
  assumes "xdr_decodes avail adv pr w v bs" and "x_op x = XDR_DECODE" and "avail x = a @ bs @ r"
  shows "pr (adv x (length a)) w = Some (True, adv x (length a + length bs), v)"
  using assms avail_adv [of "length a" x] adv_adv [of "length a" "length bs" x]
  by (simp add: xdr_decodes_def op_adv)

lemma decodes_int: "xdr_decodes avail adv (lift_xdr (xdr_int ops)) w v (be32 v)"
  by (simp add: xdr_decodes_def lift_xdr_def xdr_int_def get_be32)

lemma decodes_u_int: "xdr_decodes avail adv (lift_xdr (xdr_u_int ops)) w v (be32 v)"
  by (simp add: xdr_decodes_def lift_xdr_def xdr_u_int_def get_be32)

lemma decodes_long:
  "scast (ucast v :: c_int) = v \<Longrightarrow> xdr_decodes avail adv (lift_xdr (xdr_long ops)) w v (be32 (ucast v))"
  by (simp add: xdr_decodes_def lift_xdr_def xdr_long_def get_be32)

lemma decodes_u_long:
  "ucast (ucast v :: u32) = v \<Longrightarrow> xdr_decodes avail adv (lift_xdr (xdr_u_long ops)) w v (be32 (ucast v))"
  by (simp add: xdr_decodes_def lift_xdr_def xdr_u_long_def get_be32)

lemma decodes_hyper: "xdr_decodes avail adv (lift_xdr (xdr_hyper ops)) w v (enc_hyper v)"
  by (simp add: xdr_decodes_def lift_xdr_def xdr_hyper_def enc_hyper_def get_be32 adv_4_4)

lemma decodes_u_hyper: "xdr_decodes avail adv (lift_xdr (xdr_u_hyper ops)) w v (enc_hyper v)"
  by (simp add: xdr_decodes_def lift_xdr_def xdr_u_hyper_def enc_hyper_def get_be32 adv_4_4)

lemma decodes_short: "xdr_decodes avail adv (lift_xdr (xdr_short ops)) w v (be32 (scast v))"
  by (simp add: xdr_decodes_def lift_xdr_def xdr_short_def get_be32)

lemma decodes_u_short: "xdr_decodes avail adv (lift_xdr (xdr_u_short ops)) w v (be32 (ucast v))"
  by (simp add: xdr_decodes_def lift_xdr_def xdr_u_short_def get_be32)

lemma decodes_char: "xdr_decodes avail adv (lift_xdr (xdr_char ops)) w v (be32 (scast v))"
  by (simp add: xdr_decodes_def lift_xdr_def xdr_char_def xdr_int_def get_be32)

lemma decodes_u_char: "xdr_decodes avail adv (lift_xdr (xdr_u_char ops)) w v (be32 (ucast v))"
  by (simp add: xdr_decodes_def lift_xdr_def xdr_u_char_def xdr_u_int_def get_be32)

lemma decodes_bool:
  "xdr_decodes avail adv (lift_xdr (xdr_bool ops)) w (if (v :: c_int) \<noteq> 0 then 1 else 0)
     (be32 (if v \<noteq> 0 then 1 else 0))"
  by (simp add: xdr_decodes_def lift_xdr_def xdr_bool_def get_be32)

lemma decodes_enum: "xdr_decodes avail adv (lift_xdr (xdr_enum ops)) w v (be32 v)"
  by (simp add: xdr_decodes_def lift_xdr_def xdr_enum_def get_be32)

lemma decodes_int64_t: "xdr_decodes avail adv (lift_xdr (xdr_int64_t ops)) w v (enc_hyper v)"
  by (simp add: xdr_decodes_def lift_xdr_def xdr_int64_t_def enc_hyper_def get_be32 adv_4_4)

lemma decodes_uint64_t: "xdr_decodes avail adv (lift_xdr (xdr_uint64_t ops)) w v (enc_hyper v)"
  by (simp add: xdr_decodes_def lift_xdr_def xdr_uint64_t_def enc_hyper_def get_be32 adv_4_4)

lemma decodes_int32_t: "xdr_decodes avail adv (lift_xdr (xdr_int32_t ops)) w v (be32 v)"
  by (simp add: xdr_decodes_def lift_xdr_def xdr_int32_t_def get_be32)

lemma decodes_uint32_t: "xdr_decodes avail adv (lift_xdr (xdr_uint32_t ops)) w v (be32 v)"
  by (simp add: xdr_decodes_def lift_xdr_def xdr_uint32_t_def get_be32)

lemma decodes_int16_t: "xdr_decodes avail adv (lift_xdr (xdr_int16_t ops)) w v (be32 (scast v))"
  by (simp add: xdr_decodes_def lift_xdr_def xdr_int16_t_def get_be32)

lemma decodes_uint16_t: "xdr_decodes avail adv (lift_xdr (xdr_uint16_t ops)) w v (be32 (ucast v))"
  by (simp add: xdr_decodes_def lift_xdr_def xdr_uint16_t_def get_be32)

lemma decodes_int8_t: "xdr_decodes avail adv (lift_xdr (xdr_int8_t ops)) w v (be32 (scast v))"
  by (simp add: xdr_decodes_def lift_xdr_def xdr_int8_t_def get_be32)

lemma decodes_uint8_t: "xdr_decodes avail adv (lift_xdr (xdr_uint8_t ops)) w v (be32 (ucast v))"
  by (simp add: xdr_decodes_def lift_xdr_def xdr_uint8_t_def get_be32)

end

section \<open>Opaque data, counted bytes and strings\<close>

lemma xdr_pad_less [simp]: "xdr_pad n < 4"
  by (simp add: xdr_pad_def)

lemma take_xdr_zero: "n < 4 \<Longrightarrow> take n xdr_zero = replicate n 0"
  by (auto simp: xdr_zero_def numeral_eq_Suc less_Suc_eq)

lemma unat_xdr_rndup [simp]: "unat (xdr_rndup cnt) = xdr_pad (unat cnt)"
proof -
  have m: "unat (cnt mod 4) = unat cnt mod 4"
    by (simp add: unat_mod)
  have "cnt mod 4 \<le> 4" by (simp add: word_le_nat_alt m)
  then have "unat (4 - cnt mod 4) = 4 - unat cnt mod 4"
    by (simp add: unat_sub m)
  then show ?thesis
    by (auto simp: xdr_rndup_def Let_def BYTES_PER_XDR_UNIT_def xdr_pad_def word_less_nat_alt m)
qed

lemma xdr_rndup_0 [simp]: "xdr_rndup cnt = 0 \<longleftrightarrow> xdr_pad (unat cnt) = 0"
  by (metis unat_xdr_rndup unat_eq_zero)

lemma length_enc_opaque [simp]: "length (enc_opaque bs) = length bs + xdr_pad (length bs)"
  by (simp add: enc_opaque_def)

lemma c_strlen_le: "c_strlen sp = Some k \<Longrightarrow> k < length sp"
  by (induction sp arbitrary: k) (auto split: if_splits)

lemma c_strlen_append [simp]: "0 \<notin> set bs \<Longrightarrow> c_strlen (bs @ 0 # r) = Some (length bs)"
  by (induction bs) auto

context xdr_sink
begin
lemma encodes_opaque:
  assumes "unat cnt \<le> length cp"
  shows "xdr_encodes room emit (\<lambda>x c. xdr_opaque ops x c cnt) cp (enc_opaque (take (unat cnt) cp))"
proof (cases "cnt = 0")
  case True
  then show ?thesis
    by (simp add: xdr_encodes_def xdr_opaque_def enc_opaque_def xdr_pad_def emit_Nil room_0)
next
  case False
  let ?bs = "take (unat cnt) cp" and ?z = "replicate (xdr_pad (unat cnt)) 0"
  have l: "length ?bs = unat cnt" using assms by simp
  show ?thesis unfolding xdr_encodes_def
  proof (intro allI impI)
    fix x :: "'p XDR" assume "x_op x = XDR_ENCODE"
    then show "if room x (length (enc_opaque ?bs)) then xdr_opaque ops x cp cnt = Some (True, emit x (enc_opaque ?bs), cp)
       else \<exists>x'. xdr_opaque ops x cp cnt = Some (False, x', cp)
         \<and> xdr_prefix_out room emit x (enc_opaque ?bs) x'"
      using False assms room_mono [of x "unat cnt + xdr_pad (unat cnt)" "unat cnt"]
        room_emit [of x ?bs "xdr_pad (unat cnt)"] emit_append [of x ?bs ?z] 
      by (auto simp: xdr_opaque_def putbytes l enc_opaque_def take_xdr_zero Let_def)
  qed
qed

lemma u_int_encode:
  "x_op x = XDR_ENCODE \<Longrightarrow> xdr_u_int ops x v =
     (if room x 4 then (True, emit x (be32 v), v) else (False, x, v))"
  by (simp add: xdr_u_int_def putlong)

lemma counted_opaque:
  assumes "x_op x = XDR_ENCODE" and "unat n \<le> length sp" and "room x 4"
  shows "if room x (4 + length (enc_opaque (take (unat n) sp)))
     then xdr_opaque ops (emit x (be32 n)) sp n =
       Some (True, emit x (be32 n @ enc_opaque (take (unat n) sp)), sp)
     else (\<exists>x'. xdr_opaque ops (emit x (be32 n)) sp n = Some (False, x', sp)
       \<and> xdr_prefix_out room emit x (be32 n @ enc_opaque (take (unat n) sp)) x')"
  using encodes_after [OF encodes_opaque [OF assms(2)] assms(1), of "be32 n"] assms(3) by simp

lemma encodes_bytes:
  assumes "unat n \<le> length sp" and "n \<le> maxsize"
  shows "xdr_encodes room emit (\<lambda>x obj. xdr_bytes alloc ops x obj maxsize) (Some sp, n)
    (enc_bytes (take (unat n) sp))"
proof -
  show ?thesis
    unfolding xdr_encodes_def
  proof (intro allI impI)
    fix x :: "'p XDR" assume op: "x_op x = XDR_ENCODE"
    show "if room x (length (enc_bytes (take (unat n) sp)))
      then xdr_bytes alloc ops x (Some sp, n) maxsize =
        Some (True, emit x (enc_bytes (take (unat n) sp)), (Some sp, n))
      else (\<exists>x'. xdr_bytes alloc ops x (Some sp, n) maxsize = Some (False, x', (Some sp, n))
        \<and> xdr_prefix_out room emit x (enc_bytes (take (unat n) sp)) x')"
      using counted_opaque [OF op assms(1)] op assms
        room_mono [of x "length (enc_bytes (take (unat n) sp))" 4]
      by (cases "room x 4")
        (auto simp: xdr_bytes_def u_int_encode enc_bytes_def min_absorb2 not_less split: if_splits)
  qed
qed

lemma encodes_string:
  assumes "c_strlen sp = Some k" and "Suc k < 2 ^ 32" and "of_nat k \<le> maxsize"
  shows "xdr_encodes room emit (\<lambda>x cpp. xdr_string alloc ops x cpp maxsize) (Some sp)
    (enc_bytes (take k sp))"
proof -
  have k: "unat (of_nat k :: u32) = k" using assms(2) by (simp add: unat_of_nat)
  have s: "unat (of_nat k + 1 :: u32) = Suc k"
    using assms(2) by (intro unat_of_nat_plus_1) simp
  then have z: "of_nat k + 1 \<noteq> (0 :: u32)"
    by (metis Zero_not_Suc unat_0)
  have l: "k \<le> length sp" using c_strlen_le [OF assms(1)] by simp
  show ?thesis
    unfolding xdr_encodes_def
  proof (intro allI impI)
    fix x :: "'p XDR" assume op: "x_op x = XDR_ENCODE"
    show "if room x (length (enc_bytes (take k sp)))
      then xdr_string alloc ops x (Some sp) maxsize = Some (True, emit x (enc_bytes (take k sp)), Some sp)
      else (\<exists>x'. xdr_string alloc ops x (Some sp) maxsize = Some (False, x', Some sp)
        \<and> xdr_prefix_out room emit x (enc_bytes (take k sp)) x')"
      using counted_opaque [OF op, of "of_nat k" sp] op assms(1,3) l
        room_mono [of x "length (enc_bytes (take k sp))" 4]
      by (cases "room x 4")
        (auto simp: xdr_string_def u_int_encode enc_bytes_def k z min_absorb2 not_less split: if_splits)
  qed
qed
lemma encodes_wrapstring:
  assumes "c_strlen sp = Some k" and "Suc k < 2 ^ 32"
  shows "xdr_encodes room emit (xdr_wrapstring alloc ops) (Some sp) (enc_bytes (take k sp))"
proof -
  have "of_nat k \<le> LASTUNSIGNED" by (simp add: LASTUNSIGNED_def)
  from encodes_string [OF assms this, of alloc] show ?thesis
    by (fastforce simp: xdr_encodes_def xdr_wrapstring_def split: if_splits)
qed

end

context xdr_source
begin
lemma decodes_opaque:
  assumes "unat cnt = length bs" "length bs \<le> length cp"
  shows "xdr_decodes avail adv (\<lambda>x c. xdr_opaque ops x c cnt) cp (bs @ drop (length bs) cp) (enc_opaque bs)"
proof (cases "cnt = 0")
  case True
  then show ?thesis
    using assms by (simp add: xdr_decodes_def xdr_opaque_def enc_opaque_def xdr_pad_def adv_0)
next
  case False
  show ?thesis unfolding xdr_decodes_def
  proof (intro allI impI)
    fix x r assume "x_op x = XDR_DECODE" "avail x = enc_opaque bs @ r"
    then show "xdr_opaque ops x cp cnt = Some (True, adv x (length (enc_opaque bs)), bs @ drop (length bs) cp)"
      using False assms adv_adv [of "length bs" "xdr_pad (length bs)" x]
      by (auto simp: xdr_opaque_def getbytes avail_adv enc_opaque_def Let_def)
  qed
qed


lemma u_int_decode:
  "x_op x = XDR_DECODE \<Longrightarrow> avail x = be32 v @ r \<Longrightarrow> xdr_u_int ops x w = (True, adv x 4, v)"
  by (simp add: xdr_u_int_def get_be32)

lemma counted_opaque_decode:
  assumes "x_op x = XDR_DECODE" and "avail x = be32 n @ enc_opaque bs @ r"
    and "unat n = length bs" and "length bs \<le> length cp"
  shows "xdr_opaque ops (adv x 4) cp n =
    Some (True, adv x (4 + length (enc_opaque bs)), bs @ drop (length bs) cp)"
  using decodes_after [OF decodes_opaque [OF assms(3,4)] assms(1,2)] by simp

lemma decodes_bytes_alloc:
  assumes "length bs < 2 ^ 32" and "of_nat (length bs) \<le> maxsize"
    and "alloc (length bs) = Some blk" and "length blk = length bs"
  shows "xdr_decodes avail adv (\<lambda>x obj. xdr_bytes alloc ops x obj maxsize) (None, n0)
    (if bs = [] then None else Some bs, of_nat (length bs)) (enc_bytes bs)"
proof -
  have n: "unat (of_nat (length bs) :: u32) = length bs"
    using assms(1) by (simp add: unat_of_nat)
  then have z: "of_nat (length bs) = (0 :: u32) \<longleftrightarrow> bs = []"
    by (metis length_0_conv unat_eq_zero)
  show ?thesis
    unfolding xdr_decodes_def
  proof (intro allI impI)
    fix x r assume op: "x_op x = XDR_DECODE" and av: "avail x = enc_bytes bs @ r"
    then have av': "avail x = be32 (of_nat (length bs)) @ enc_opaque bs @ r"
      by (simp add: enc_bytes_def)
    show "xdr_bytes alloc ops x (None, n0) maxsize =
      Some (True, adv x (length (enc_bytes bs)),
        (if bs = [] then None else Some bs, of_nat (length bs)))"
      using assms(2-4) op u_int_decode [OF op av'] counted_opaque_decode [OF op av' n, of blk]
      by (simp add: xdr_bytes_def n z enc_bytes_def xdr_pad_def not_less)
  qed
qed

lemma decodes_string_alloc:
  assumes "Suc (length bs) < 2 ^ 32" and "of_nat (length bs) \<le> maxsize"
    and "alloc (Suc (length bs)) = Some blk" and "length blk = Suc (length bs)"
  shows "xdr_decodes avail adv (\<lambda>x cpp. xdr_string alloc ops x cpp maxsize) None
    (Some (bs @ [0])) (enc_bytes bs)"
proof -
  have n: "unat (of_nat (length bs) :: u32) = length bs"
    using assms(1) by (simp add: unat_of_nat)
  have s: "unat (of_nat (length bs) + 1 :: u32) = Suc (length bs)"
    using assms(1) by (intro unat_of_nat_plus_1) simp
  then have z: "of_nat (length bs) + 1 \<noteq> (0 :: u32)"
    by (metis Zero_not_Suc unat_0)
  show ?thesis
    unfolding xdr_decodes_def
  proof (intro allI impI)
    fix x r assume op: "x_op x = XDR_DECODE" and av: "avail x = enc_bytes bs @ r"
    then have av': "avail x = be32 (of_nat (length bs)) @ enc_opaque bs @ r"
      by (simp add: enc_bytes_def)
    have dr: "drop (length bs) (blk[length bs := 0]) = [0]"
      using assms(4) by (simp add: drop_update_swap) (metis Cons_nth_drop_Suc drop_all le_refl lessI list_update_code(2))
    show "xdr_string alloc ops x None maxsize =
      Some (True, adv x (length (enc_bytes bs)), Some (bs @ [0]))"
      using assms(2-4) op u_int_decode [OF op av', of 0] counted_opaque_decode [OF op av' n, of "blk[length bs := 0]"]
      by (simp add: xdr_string_def n s z dr enc_bytes_def)
  qed
qed
text \<open>
  Whatever the input holds, decoding into caller-provided storage writes no further than the
  count: the rest of the storage keeps its bytes.
\<close>

lemma opaque_decode_into:
  assumes "x_op x = XDR_DECODE" and "unat cnt \<le> length cp"
  obtains ok x' bs where "xdr_opaque ops x cp cnt = Some (ok, x', bs @ drop (length bs) cp)"
    and "length bs \<le> unat cnt" and "ok \<Longrightarrow> length bs = unat cnt"
proof (cases "cnt \<noteq> 0 \<and> unat cnt \<le> length (avail x)")
  case True
  let ?bs = "take (unat cnt) (avail x)"
  have "\<exists>ok x'. xdr_opaque ops x cp cnt = Some (ok, x', ?bs @ drop (unat cnt) cp)"
    using assms True by (auto simp: xdr_opaque_def getbytes Let_def split: prod.splits option.splits)
  then obtain ok x' where "xdr_opaque ops x cp cnt = Some (ok, x', ?bs @ drop (unat cnt) cp)"
    by blast
  then show ?thesis using that [of ok x' ?bs] True by (simp add: min_absorb2)
next
  case False
  then show ?thesis
    using assms that [of "cnt = 0" x "[]"] by (auto simp: xdr_opaque_def getbytes)
qed

lemma string_decode_into:
  assumes "x_op x = XDR_DECODE" and "unat maxsize < length sp"
  shows "\<exists>ok x' sp'. xdr_string alloc ops x (Some sp) maxsize = Some (ok, x', Some sp')
    \<and> length sp' = length sp
    \<and> drop (Suc (unat maxsize)) sp' = drop (Suc (unat maxsize)) sp
    \<and> (ok \<longrightarrow> (\<exists>n \<le> unat maxsize. sp' ! n = 0))"
proof (cases "4 \<le> length (avail x)")
  case False
  then show ?thesis
    using assms by (auto simp: xdr_string_def xdr_u_int_def getlong)
next
  case True
  let ?n = "of_be32 (take 4 (avail x))"
  have u: "xdr_u_int ops x 0 = (True, adv x 4, ?n)"
    using assms(1) True by (simp add: xdr_u_int_def getlong)
  show ?thesis
  proof (cases "?n > maxsize \<or> ?n + 1 = 0")
    case True
    then show ?thesis using assms(1) u by (auto simp: xdr_string_def)
  next
    case False
    then have nl: "\<not> maxsize < ?n" and nz: "?n + 1 \<noteq> 0" by auto
    then have n: "unat ?n \<le> unat maxsize" by (simp add: word_less_nat_alt)
    let ?sp = "sp[unat ?n := 0]"
    obtain ok x' bs where o: "xdr_opaque ops (adv x 4) ?sp ?n = Some (ok, x', bs @ drop (length bs) ?sp)"
      and l: "length bs \<le> unat ?n" and ok: "ok \<Longrightarrow> length bs = unat ?n"
      by (rule opaque_decode_into [of "adv x 4" ?n ?sp]) (use assms n in \<open>auto simp: op_adv\<close>)
    have r: "xdr_string alloc ops x (Some sp) maxsize = Some (ok, x', Some (bs @ drop (length bs) ?sp))"
      using assms u o n nz nl by (simp add: xdr_string_def)
    have "(bs @ drop (length bs) ?sp) ! unat ?n = 0"
      using l n assms(2) by (simp add: nth_append)
    moreover have "drop (Suc (unat maxsize)) (bs @ drop (length bs) ?sp) = drop (Suc (unat maxsize)) sp"
      using l n by simp
    ultimately show ?thesis using r l n assms(2) by auto
  qed
qed

end

end
