(* ===== verification/Xdr_Array.thy ===== *)
theory Xdr_Array
  imports Xdr_Codec
begin

text \<open>
  Arrays, vectors and pointers (\<open>sunrpc/xdr_array.c\<close>, \<open>sunrpc/xdr_ref.c\<close>).  An array in memory
  is the list of its elements, so that the element size only enters the overflow check of
  \<open>xdr_array\<close>; \<open>calloc\<close> is a parameter that returns the zeroed block or \<open>None\<close>.  An access
  beyond the list, or through a null pointer, is undefined in C and \<open>None\<close> here.
\<close>

text \<open>The loop both functions run: one call of the element filter per element, until one fails.\<close>

fun xdr_elems :: "('p, 'v) xdrproc \<Rightarrow> nat \<Rightarrow> 'p XDR \<Rightarrow> 'v list \<Rightarrow> (bool \<times> 'p XDR \<times> 'v list) option"
  where
  "xdr_elems elproc 0 xdrs target = Some (True, xdrs, target)"
| "xdr_elems elproc (Suc n) xdrs [] = None"
| "xdr_elems elproc (Suc n) xdrs (v # target) =
     (case elproc xdrs v of
        None \<Rightarrow> None
      | Some (stat, xdrs1, v') \<Rightarrow>
          (if stat then
             (case xdr_elems elproc n xdrs1 target of
                None \<Rightarrow> None
              | Some (stat', xdrs2, target') \<Rightarrow> Some (stat', xdrs2, v' # target'))
           else Some (False, xdrs1, v' # target)))"

definition xdr_array ::
  "(nat \<Rightarrow> 'v list option) \<Rightarrow> 'p xdr_ops \<Rightarrow> 'p XDR \<Rightarrow> 'v list option \<times> u32 \<Rightarrow> u32 \<Rightarrow> u32
     \<Rightarrow> ('p, 'v) xdrproc \<Rightarrow> (bool \<times> 'p XDR \<times> 'v list option \<times> u32) option" where
  "xdr_array calloc ops xdrs obj maxsize elsize elproc =
     (case obj of (addrp, sizep) \<Rightarrow>
      (case xdr_u_int ops xdrs sizep of (ok, xdrs1, c) \<Rightarrow>
        if \<not> ok then Some (False, xdrs1, addrp, c)
        else if c \<le> maxsize \<and> elsize = 0 then None
        else if (c > maxsize \<or> c > - 1 div elsize) \<and> x_op xdrs \<noteq> XDR_FREE
        then Some (False, xdrs1, addrp, c)
        else
          (case addrp of
             None \<Rightarrow>
               (case x_op xdrs of
                  XDR_DECODE \<Rightarrow>
                    (if c = 0 then Some (True, xdrs1, None, c)
                     else (case calloc (unat c) of
                             None \<Rightarrow> Some (False, xdrs1, None, c)
                           | Some target \<Rightarrow>
                               (case xdr_elems elproc (unat c) xdrs1 target of
                                  None \<Rightarrow> None
                                | Some (stat, xdrs2, target') \<Rightarrow>
                                    Some (stat, xdrs2, Some target', c))))
                | XDR_FREE \<Rightarrow> Some (True, xdrs1, None, c)
                | XDR_ENCODE \<Rightarrow> (if c = 0 then Some (True, xdrs1, None, c) else None))
           | Some target \<Rightarrow>
               (case xdr_elems elproc (unat c) xdrs1 target of
                  None \<Rightarrow> None
                | Some (stat, xdrs2, target') \<Rightarrow>
                    Some (stat, xdrs2, if x_op xdrs = XDR_FREE then None else Some target', c)))))"

definition xdr_vector ::
  "'p XDR \<Rightarrow> 'v list \<Rightarrow> u32 \<Rightarrow> ('p, 'v) xdrproc \<Rightarrow> (bool \<times> 'p XDR \<times> 'v list) option" where
  "xdr_vector xdrs basep nelem xdr_elem = xdr_elems xdr_elem (unat nelem) xdrs basep"

definition xdr_reference ::
  "'v option \<Rightarrow> 'p XDR \<Rightarrow> 'v option \<Rightarrow> ('p, 'v) xdrproc \<Rightarrow> (bool \<times> 'p XDR \<times> 'v option) option"
  where
  "xdr_reference calloc xdrs pp pr =
     (if pp = None \<and> x_op xdrs = XDR_FREE then Some (True, xdrs, None)
      else if pp = None \<and> x_op xdrs = XDR_DECODE \<and> calloc = None then Some (False, xdrs, None)
      else
        (case (if pp = None \<and> x_op xdrs = XDR_DECODE then calloc else pp) of
           None \<Rightarrow> None
         | Some loc \<Rightarrow>
             (case pr xdrs loc of
                None \<Rightarrow> None
              | Some (stat, xdrs1, loc') \<Rightarrow>
                  Some (stat, xdrs1, if x_op xdrs = XDR_FREE then None else Some loc'))))"

definition xdr_pointer ::
  "'v option \<Rightarrow> 'p xdr_ops \<Rightarrow> 'p XDR \<Rightarrow> 'v option \<Rightarrow> ('p, 'v) xdrproc
     \<Rightarrow> (bool \<times> 'p XDR \<times> 'v option) option" where
  "xdr_pointer calloc ops xdrs objpp xdr_obj =
     (case xdr_bool ops xdrs (if objpp \<noteq> None then 1 else 0) of (ok, xdrs1, more_data) \<Rightarrow>
        if \<not> ok then Some (False, xdrs1, objpp)
        else if more_data = 0 then Some (True, xdrs1, None)
        else xdr_reference calloc xdrs1 objpp xdr_obj)"

section \<open>Codec laws\<close>

definition enc_array :: "('v \<Rightarrow> u8 list) \<Rightarrow> 'v list \<Rightarrow> u8 list" where
  "enc_array enc vs = be32 (of_nat (length vs)) @ concat (map enc vs)"

definition enc_pointer :: "('v \<Rightarrow> u8 list) \<Rightarrow> 'v option \<Rightarrow> u8 list" where
  "enc_pointer enc pp = (case pp of None \<Rightarrow> be32 0 | Some v \<Rightarrow> be32 1 @ enc v)"

context xdr_sink
begin

lemma encodes_elems:
  assumes "\<And>v. v \<in> set vs \<Longrightarrow> xdr_encodes room emit elproc v (enc v)"
  shows "xdr_encodes room emit (\<lambda>x. xdr_elems elproc (length vs) x) vs (concat (map enc vs))"
  using assms
proof (induction vs)
  case Nil
  then show ?case by (simp add: xdr_encodes_def room_0 emit_Nil)
next
  case (Cons v vs)
  let ?a = "enc v" and ?b = "concat (map enc vs)"
  show ?case
    unfolding xdr_encodes_def
  proof (intro allI impI)
    fix x :: "'p XDR" assume op: "x_op x = XDR_ENCODE"
    have v: "xdr_encodes room emit elproc v ?a" by (rule Cons.prems) simp
    have vs: "xdr_encodes room emit (\<lambda>x. xdr_elems elproc (length vs) x) vs ?b"
      by (rule Cons.IH) (simp add: Cons.prems)
    show "if room x (length (concat (map enc (v # vs))))
      then xdr_elems elproc (length (v # vs)) x (v # vs) =
        Some (True, emit x (concat (map enc (v # vs))), v # vs)
      else (\<exists>x'. xdr_elems elproc (length (v # vs)) x (v # vs) = Some (False, x', v # vs)
        \<and> xdr_prefix_out room emit x (concat (map enc (v # vs))) x')"
      using op v encodes_after [OF vs op, of ?a] room_mono [of x "length ?a + length ?b" "length ?a"]
      by (cases "room x (length ?a)")
        (auto simp: xdr_encodes_def split: if_splits dest!: spec [of _ x] intro: prefix_out_extend)
  qed
qed

lemma encodes_array:
  assumes el: "\<And>v. v \<in> set vs \<Longrightarrow> xdr_encodes room emit elproc v (enc v)"
    and n: "length vs < 2 ^ 32"
    and c: "of_nat (length vs) \<le> maxsize" "elsize \<noteq> 0" "of_nat (length vs) \<le> - 1 div elsize"
  shows "xdr_encodes room emit (\<lambda>x obj. xdr_array calloc ops x obj maxsize elsize elproc)
    (Some vs, of_nat (length vs)) (enc_array enc vs)"
  unfolding xdr_encodes_def
proof (intro allI impI)
  fix x :: "'p XDR" assume op: "x_op x = XDR_ENCODE"
  have u: "unat (of_nat (length vs) :: u32) = length vs"
    using n by (simp add: unat_of_nat)
  have els: "xdr_encodes room emit (xdr_elems elproc (length vs)) vs (concat (map enc vs))"
    by (rule encodes_elems) (rule el)
  show "if room x (length (enc_array enc vs))
    then xdr_array calloc ops x (Some vs, of_nat (length vs)) maxsize elsize elproc =
      Some (True, emit x (enc_array enc vs), Some vs, of_nat (length vs))
    else (\<exists>x'. xdr_array calloc ops x (Some vs, of_nat (length vs)) maxsize elsize elproc =
      Some (False, x', Some vs, of_nat (length vs)) \<and> xdr_prefix_out room emit x (enc_array enc vs) x')"
    using op c encodes_after [OF els op, where a = "be32 (of_nat (length vs))"]
      room_mono [of x "length (enc_array enc vs)" 4]
    by (cases "room x 4")
      (auto simp: xdr_array_def u_int_encode enc_array_def u not_less split: if_splits)
qed

lemma encodes_pointer:
  assumes "\<And>v. pp = Some v \<Longrightarrow> xdr_encodes room emit pr v (enc v)"
  shows "xdr_encodes room emit (\<lambda>x o'. xdr_pointer cal ops x o' pr) pp (enc_pointer enc pp)"
  unfolding xdr_encodes_def
proof (intro allI impI)
  fix x :: "'p XDR" assume op: "x_op x = XDR_ENCODE"
  show "if room x (length (enc_pointer enc pp))
    then xdr_pointer cal ops x pp pr = Some (True, emit x (enc_pointer enc pp), pp)
    else (\<exists>x'. xdr_pointer cal ops x pp pr = Some (False, x', pp)
      \<and> xdr_prefix_out room emit x (enc_pointer enc pp) x')"
  proof (cases pp)
    case None
    then show ?thesis
      using op by (simp add: xdr_pointer_def xdr_bool_def putlong enc_pointer_def)
  next
    case (Some v)
    then show ?thesis
      using op encodes_after [OF assms [OF Some] op, where a = "be32 1"]
        room_mono [of x "length (enc_pointer enc pp)" 4]
      by (cases "room x 4")
        (auto simp: xdr_pointer_def xdr_bool_def putlong enc_pointer_def xdr_reference_def op_emit
          split: if_splits)
  qed
qed

end

context xdr_source
begin

lemma decodes_elems:
  assumes "\<And>v w. v \<in> set vs \<Longrightarrow> xdr_decodes avail adv elproc w v (enc v)"
    and "length ws = length vs"
  shows "xdr_decodes avail adv (\<lambda>x. xdr_elems elproc (length vs) x) ws vs (concat (map enc vs))"
  using assms(2,1)
proof (induction ws vs rule: list_induct2)
  case Nil
  then show ?case by (simp add: xdr_decodes_def adv_0)
next
  case (Cons w ws v vs)
  let ?a = "enc v" and ?b = "concat (map enc vs)"
  have v: "xdr_decodes avail adv elproc w v ?a" by (rule Cons.prems) simp
  have vs: "xdr_decodes avail adv (\<lambda>x. xdr_elems elproc (length vs) x) ws vs ?b"
    by (rule Cons.IH) (simp add: Cons.prems)
  show ?case
    unfolding xdr_decodes_def
  proof (intro allI impI)
    fix x r assume op: "x_op x = XDR_DECODE" and av: "avail x = concat (map enc (v # vs)) @ r"
    then have "avail x = ?a @ ?b @ r" by simp
    then show "xdr_elems elproc (length (v # vs)) x (w # ws) =
      Some (True, adv x (length (concat (map enc (v # vs)))), v # vs)"
      using op v decodes_after [OF vs op, of ?a r] by (simp add: xdr_decodes_def)
  qed
qed

lemma decodes_array_alloc:
  assumes el: "\<And>v w. v \<in> set vs \<Longrightarrow> xdr_decodes avail adv elproc w v (enc v)"
    and n: "length vs < 2 ^ 32"
    and c: "of_nat (length vs) \<le> maxsize" "elsize \<noteq> 0" "of_nat (length vs) \<le> - 1 div elsize"
    and cal: "calloc (length vs) = Some ws" "length ws = length vs"
  shows "xdr_decodes avail adv (\<lambda>x obj. xdr_array calloc ops x obj maxsize elsize elproc) (None, n0)
    (if vs = [] then None else Some vs, of_nat (length vs)) (enc_array enc vs)"
proof -
  have u: "unat (of_nat (length vs) :: u32) = length vs"
    using n by (simp add: unat_of_nat)
  then have z: "of_nat (length vs) = (0 :: u32) \<longleftrightarrow> vs = []"
    by (metis length_0_conv unat_eq_zero)
  show ?thesis
    unfolding xdr_decodes_def
  proof (intro allI impI)
    fix x r assume op: "x_op x = XDR_DECODE" and av: "avail x = enc_array enc vs @ r"
    then have av': "avail x = be32 (of_nat (length vs)) @ concat (map enc vs) @ r"
      by (simp add: enc_array_def)
    show "xdr_array calloc ops x (None, n0) maxsize elsize elproc =
      Some (True, adv x (length (enc_array enc vs)),
        if vs = [] then None else Some vs, of_nat (length vs))"
      using c cal op u_int_decode [OF op av'] decodes_after [OF decodes_elems [OF el cal(2)] op av']
      by (simp add: xdr_array_def u z enc_array_def not_less)
  qed
qed

lemma decodes_pointer_alloc:
  assumes "\<And>v. pp = Some v \<Longrightarrow> xdr_decodes avail adv pr w v (enc v)"
  shows "xdr_decodes avail adv (\<lambda>x o'. xdr_pointer (Some w) ops x o' pr) None pp (enc_pointer enc pp)"
  unfolding xdr_decodes_def
proof (intro allI impI)
  fix x r assume op: "x_op x = XDR_DECODE" and av: "avail x = enc_pointer enc pp @ r"
  show "xdr_pointer (Some w) ops x None pr = Some (True, adv x (length (enc_pointer enc pp)), pp)"
  proof (cases pp)
    case None
    then have "avail x = be32 0 @ r" using av by (simp add: enc_pointer_def)
    then show ?thesis
      using op None by (simp add: xdr_pointer_def xdr_bool_def get_be32 enc_pointer_def)
  next
    case (Some v)
    then have av': "avail x = be32 1 @ enc v @ r" using av by (simp add: enc_pointer_def)
    then show ?thesis
      using op Some decodes_after [OF assms [OF Some] op av']
      by (simp add: xdr_pointer_def xdr_bool_def get_be32 enc_pointer_def xdr_reference_def op_adv)
  qed
qed

end

end
