(* ===== verification/Xdr_Mem.thy ===== *)
theory Xdr_Mem
  imports Xdr_Array
begin

text \<open>
  XDR streams over a memory buffer (\<open>sunrpc/xdr_mem.c\<close>): \<open>x_private\<close> is the address of the
  next byte, \<open>x_base\<close> the start of the buffer, \<open>x_handy\<close> the bytes left.  The stores and
  loads of a 32-bit unit go through \<open>htonl\<close> and \<open>ntohl\<close>, so the buffer holds big-endian units
  on every host.  Addresses do not wrap: a buffer that wraps around the address space is no C
  object.
\<close>

type_synonym xdrmem = "nat XDR"

definition xdrmem_getlong :: "xdrmem \<Rightarrow> c_long option \<times> xdrmem" where
  "xdrmem_getlong xdrs =
     (if x_handy xdrs < 4 then (None, xdrs)
      else (Some (scast (of_be32 (mem_read (x_mem xdrs) (x_private xdrs) 4))),
            xdrs\<lparr>x_handy := x_handy xdrs - 4, x_private := x_private xdrs + 4\<rparr>))"

definition xdrmem_putlong :: "xdrmem \<Rightarrow> c_long \<Rightarrow> bool \<times> xdrmem" where
  "xdrmem_putlong xdrs lp =
     (if x_handy xdrs < 4 then (False, xdrs)
      else (True, xdrs\<lparr>x_handy := x_handy xdrs - 4,
                       x_mem := mem_write (x_mem xdrs) (x_private xdrs) (be32 (ucast lp)),
                       x_private := x_private xdrs + 4\<rparr>))"

definition xdrmem_getbytes :: "xdrmem \<Rightarrow> u32 \<Rightarrow> u8 list option \<times> xdrmem" where
  "xdrmem_getbytes xdrs len =
     (if x_handy xdrs < len then (None, xdrs)
      else (Some (mem_read (x_mem xdrs) (x_private xdrs) (unat len)),
            xdrs\<lparr>x_handy := x_handy xdrs - len, x_private := x_private xdrs + unat len\<rparr>))"

definition xdrmem_putbytes :: "xdrmem \<Rightarrow> u8 list \<Rightarrow> u32 \<Rightarrow> bool \<times> xdrmem" where
  "xdrmem_putbytes xdrs addr len =
     (if x_handy xdrs < len then (False, xdrs)
      else (True, xdrs\<lparr>x_handy := x_handy xdrs - len,
                       x_mem := mem_write (x_mem xdrs) (x_private xdrs) (take (unat len) addr),
                       x_private := x_private xdrs + unat len\<rparr>))"

definition xdrmem_getpos :: "xdrmem \<Rightarrow> u32" where
  "xdrmem_getpos xdrs = ucast (of_nat (x_private xdrs) - of_nat (x_base xdrs) :: u64)"

definition xdrmem_setpos :: "xdrmem \<Rightarrow> u32 \<Rightarrow> bool \<times> xdrmem" where
  "xdrmem_setpos xdrs pos =
     (let newaddr = x_base xdrs + unat pos;
          lastaddr = x_private xdrs + unat (x_handy xdrs);
          handy = of_nat lastaddr - of_nat newaddr :: u64
      in if newaddr > lastaddr \<or> newaddr < x_base xdrs \<or> handy \<noteq> ucast (ucast handy :: u32)
         then (False, xdrs)
         else (True, xdrs\<lparr>x_private := newaddr, x_handy := ucast handy\<rparr>))"

definition xdrmem_inline :: "xdrmem \<Rightarrow> u32 \<Rightarrow> nat option \<times> xdrmem" where
  "xdrmem_inline xdrs len =
     (if x_handy xdrs \<ge> len
      then (Some (x_private xdrs),
            xdrs\<lparr>x_handy := x_handy xdrs - len, x_private := x_private xdrs + unat len\<rparr>)
      else (None, xdrs))"

definition xdrmem_destroy :: "xdrmem \<Rightarrow> xdrmem" where
  "xdrmem_destroy xdrs = xdrs"

definition xdrmem_getint32 :: "xdrmem \<Rightarrow> c_int option \<times> xdrmem" where
  "xdrmem_getint32 xdrs =
     (if x_handy xdrs < 4 then (None, xdrs)
      else (Some (of_be32 (mem_read (x_mem xdrs) (x_private xdrs) 4)),
            xdrs\<lparr>x_handy := x_handy xdrs - 4, x_private := x_private xdrs + 4\<rparr>))"

definition xdrmem_putint32 :: "xdrmem \<Rightarrow> c_int \<Rightarrow> bool \<times> xdrmem" where
  "xdrmem_putint32 xdrs ip =
     (if x_handy xdrs < 4 then (False, xdrs)
      else (True, xdrs\<lparr>x_handy := x_handy xdrs - 4,
                       x_mem := mem_write (x_mem xdrs) (x_private xdrs) (be32 ip),
                       x_private := x_private xdrs + 4\<rparr>))"

definition xdrmem_ops :: "nat xdr_ops" where
  "xdrmem_ops =
     \<lparr>x_getlong = xdrmem_getlong, x_putlong = xdrmem_putlong,
      x_getbytes = xdrmem_getbytes, x_putbytes = xdrmem_putbytes,
      x_getpostn = xdrmem_getpos, x_setpostn = xdrmem_setpos,
      x_inline = xdrmem_inline, x_destroy = xdrmem_destroy,
      x_getint32 = xdrmem_getint32, x_putint32 = xdrmem_putint32\<rparr>"

text \<open>\<open>xdrmem_create\<close> fills in every field; \<open>m\<close> is the memory the buffer lies in.\<close>

definition xdrmem_create :: "mem \<Rightarrow> nat \<Rightarrow> u32 \<Rightarrow> xdr_op \<Rightarrow> xdrmem" where
  "xdrmem_create m addr sz op =
     \<lparr>x_op = op, x_private = addr, x_base = addr, x_handy = sz, x_mem = m\<rparr>"

section \<open>The memory stream meets the stream contract\<close>

definition xdrmem_room :: "xdrmem \<Rightarrow> nat \<Rightarrow> bool" where
  "xdrmem_room x n \<longleftrightarrow> n \<le> unat (x_handy x)"

definition xdrmem_emit :: "xdrmem \<Rightarrow> u8 list \<Rightarrow> xdrmem" where
  "xdrmem_emit x bs =
     x\<lparr>x_private := x_private x + length bs, x_handy := x_handy x - of_nat (length bs),
       x_mem := mem_write (x_mem x) (x_private x) bs\<rparr>"

definition xdrmem_avail :: "xdrmem \<Rightarrow> u8 list" where
  "xdrmem_avail x = mem_read (x_mem x) (x_private x) (unat (x_handy x))"

definition xdrmem_adv :: "xdrmem \<Rightarrow> nat \<Rightarrow> xdrmem" where
  "xdrmem_adv x n = x\<lparr>x_private := x_private x + n, x_handy := x_handy x - of_nat n\<rparr>"

lemma unat_less_4: "(h :: u32) < 4 \<longleftrightarrow> unat h < 4"
  by (simp add: word_less_nat_alt)

interpretation xmsink: xdr_sink xdrmem_ops xdrmem_room xdrmem_emit
proof
  fix x :: xdrmem and l :: c_long and i :: c_int and bs a b :: "u8 list" and n :: u32 and k m :: nat
  show "x_putlong xdrmem_ops x l =
      (if xdrmem_room x 4 then (True, xdrmem_emit x (be32 (ucast l))) else (False, x))"
    by (simp add: xdrmem_ops_def xdrmem_putlong_def xdrmem_room_def xdrmem_emit_def unat_less_4)
  show "x_putint32 xdrmem_ops x i =
      (if xdrmem_room x 4 then (True, xdrmem_emit x (be32 i)) else (False, x))"
    by (simp add: xdrmem_ops_def xdrmem_putint32_def xdrmem_room_def xdrmem_emit_def unat_less_4)
  show "length bs = unat n \<Longrightarrow> x_putbytes xdrmem_ops x bs n =
      (if xdrmem_room x (length bs) then (True, xdrmem_emit x bs) else (False, x))"
    by (auto simp: xdrmem_ops_def xdrmem_putbytes_def xdrmem_room_def xdrmem_emit_def
        word_less_nat_alt)
  show "xdrmem_room x (length a + length b) \<Longrightarrow>
      xdrmem_emit (xdrmem_emit x a) b = xdrmem_emit x (a @ b)"
    by (simp add: xdrmem_emit_def mem_write_append add.assoc diff_diff_add)
  show "xdrmem_room x (length a) \<Longrightarrow>
      xdrmem_room (xdrmem_emit x a) m \<longleftrightarrow> xdrmem_room x (length a + m)"
    by (simp add: xdrmem_emit_def xdrmem_room_def unat_sub_of_nat) linarith
  show "xdrmem_room x m \<Longrightarrow> k \<le> m \<Longrightarrow> xdrmem_room x k"
    by (simp add: xdrmem_room_def)
  show "xdrmem_room x 0"
    by (simp add: xdrmem_room_def)
  show "xdrmem_emit x [] = x"
    by (simp add: xdrmem_emit_def)
  show "x_op (xdrmem_emit x a) = x_op x"
    by (simp add: xdrmem_emit_def)
qed

interpretation xmsource: xdr_source xdrmem_ops xdrmem_avail xdrmem_adv
proof
  fix x :: xdrmem and n :: u32 and j k :: nat
  show "x_getlong xdrmem_ops x =
      (if 4 \<le> length (xdrmem_avail x)
       then (Some (scast (of_be32 (take 4 (xdrmem_avail x)))), xdrmem_adv x 4) else (None, x))"
    by (simp add: xdrmem_ops_def xdrmem_getlong_def xdrmem_avail_def xdrmem_adv_def unat_less_4
        take_mem_read)
  show "x_getint32 xdrmem_ops x =
      (if 4 \<le> length (xdrmem_avail x)
       then (Some (of_be32 (take 4 (xdrmem_avail x))), xdrmem_adv x 4) else (None, x))"
    by (simp add: xdrmem_ops_def xdrmem_getint32_def xdrmem_avail_def xdrmem_adv_def unat_less_4
        take_mem_read)
  show "x_getbytes xdrmem_ops x n =
      (if unat n \<le> length (xdrmem_avail x)
       then (Some (take (unat n) (xdrmem_avail x)), xdrmem_adv x (unat n)) else (None, x))"
    by (simp add: xdrmem_ops_def xdrmem_getbytes_def xdrmem_avail_def xdrmem_adv_def
        word_less_nat_alt take_mem_read)
  show "k \<le> length (xdrmem_avail x) \<Longrightarrow>
      xdrmem_avail (xdrmem_adv x k) = drop k (xdrmem_avail x)"
    by (simp add: xdrmem_avail_def xdrmem_adv_def unat_sub_of_nat drop_mem_read)
  show "j + k \<le> length (xdrmem_avail x) \<Longrightarrow>
      xdrmem_adv (xdrmem_adv x j) k = xdrmem_adv x (j + k)"
    by (simp add: xdrmem_adv_def algebra_simps)
  show "xdrmem_adv x 0 = x"
    by (simp add: xdrmem_adv_def)
  show "x_op (xdrmem_adv x k) = x_op x"
    by (simp add: xdrmem_adv_def)
qed

end
