(* ===== verification/Xdr_Sizeof.thy ===== *)
theory Xdr_Sizeof
  imports Xdr_Array
begin

text \<open>
  The size-counting stream of \<open>sunrpc/xdr_sizeof.c\<close>: it only adds up the lengths in
  \<open>x_handy\<close>.  \<open>x_private\<close> is the scratch block \<open>x_inline\<close> hands out (\<open>None\<close> for the null
  pointer) and \<open>x_base\<close>, cast to a pointer in the C code, is its size.  \<open>malloc\<close> is a
  parameter: the address it returns for a size, or \<open>None\<close>.
\<close>

type_synonym xdrsize = "nat option XDR"

definition x_putlong_sz :: "xdrsize \<Rightarrow> c_long \<Rightarrow> bool \<times> xdrsize" where
  "x_putlong_sz xdrs longp = (True, xdrs\<lparr>x_handy := x_handy xdrs + BYTES_PER_XDR_UNIT\<rparr>)"

definition x_putbytes_sz :: "xdrsize \<Rightarrow> u8 list \<Rightarrow> u32 \<Rightarrow> bool \<times> xdrsize" where
  "x_putbytes_sz xdrs bp len = (True, xdrs\<lparr>x_handy := x_handy xdrs + len\<rparr>)"

definition x_getpostn_sz :: "xdrsize \<Rightarrow> u32" where
  "x_getpostn_sz xdrs = x_handy xdrs"

definition x_setpostn_sz :: "xdrsize \<Rightarrow> u32 \<Rightarrow> bool \<times> xdrsize" where
  "x_setpostn_sz xdrs len = (False, xdrs)"

definition x_inline_sz :: "(nat \<Rightarrow> nat option) \<Rightarrow> xdrsize \<Rightarrow> u32 \<Rightarrow> nat option \<times> xdrsize" where
  "x_inline_sz malloc xdrs len =
     (if len = 0 then (None, xdrs)
      else if x_op xdrs \<noteq> XDR_ENCODE then (None, xdrs)
      else if len < of_nat (x_base xdrs)
      then (x_private xdrs, xdrs\<lparr>x_handy := x_handy xdrs + len\<rparr>)
      else
        (case malloc (unat len) of
           None \<Rightarrow> (None, xdrs\<lparr>x_private := None, x_base := 0\<rparr>)
         | Some p \<Rightarrow> (Some p, xdrs\<lparr>x_private := Some p, x_base := unat len,
                                   x_handy := x_handy xdrs + len\<rparr>)))"

definition x_destroy_sz :: "xdrsize \<Rightarrow> xdrsize" where
  "x_destroy_sz xdrs = xdrs\<lparr>x_handy := 0, x_base := 0, x_private := None\<rparr>"

definition x_putint32_sz :: "xdrsize \<Rightarrow> c_int \<Rightarrow> bool \<times> xdrsize" where
  "x_putint32_sz xdrs int32p = (True, xdrs\<lparr>x_handy := x_handy xdrs + BYTES_PER_XDR_UNIT\<rparr>)"

definition xdr_sizeof_ops :: "(nat \<Rightarrow> nat option) \<Rightarrow> nat option xdr_ops" where
  "xdr_sizeof_ops malloc =
     \<lparr>x_getlong = (\<lambda>x. (None, x)), x_putlong = x_putlong_sz,
      x_getbytes = (\<lambda>x n. (None, x)), x_putbytes = x_putbytes_sz,
      x_getpostn = x_getpostn_sz, x_setpostn = x_setpostn_sz,
      x_inline = x_inline_sz malloc, x_destroy = x_destroy_sz,
      x_getint32 = (\<lambda>x. (None, x)), x_putint32 = x_putint32_sz\<rparr>"

text \<open>\<open>m\<close> is the memory of the handle; the counter never uses it.\<close>

definition xdr_sizeof_handle :: "mem \<Rightarrow> xdrsize" where
  "xdr_sizeof_handle m = \<lparr>x_op = XDR_ENCODE, x_private = None, x_base = 0, x_handy = 0, x_mem = m\<rparr>"

definition xdr_sizeof :: "mem \<Rightarrow> (nat option, 'v) xdrproc \<Rightarrow> 'v \<Rightarrow> u64 option" where
  "xdr_sizeof m func data =
     (case func (xdr_sizeof_handle m) data of
        None \<Rightarrow> None
      | Some (stat, x, data') \<Rightarrow> Some (if stat then ucast (x_handy x) else 0))"

section \<open>The counter meets the contract of a sink\<close>

definition xdrsize_room :: "xdrsize \<Rightarrow> nat \<Rightarrow> bool" where
  "xdrsize_room x n \<longleftrightarrow> True"

definition xdrsize_emit :: "xdrsize \<Rightarrow> u8 list \<Rightarrow> xdrsize" where
  "xdrsize_emit x bs = x\<lparr>x_handy := x_handy x + of_nat (length bs)\<rparr>"

interpretation xssink: xdr_sink "xdr_sizeof_ops malloc" xdrsize_room xdrsize_emit
  by unfold_locales
    (auto simp: xdr_sizeof_ops_def x_putlong_sz_def x_putint32_sz_def x_putbytes_sz_def
      xdrsize_room_def xdrsize_emit_def BYTES_PER_XDR_UNIT_def algebra_simps)

lemma xdr_sizeof_encodes:
  assumes "xdr_encodes xdrsize_room xdrsize_emit pr v bs"
  shows "xdr_sizeof m pr v = Some (ucast (of_nat (length bs) :: u32))"
proof -
  have "pr (xdr_sizeof_handle m) v = Some (True, xdrsize_emit (xdr_sizeof_handle m) bs, v)"
    using assms by (simp add: xdr_encodes_def xdr_sizeof_handle_def xdrsize_room_def)
  then show ?thesis
    by (simp add: xdr_sizeof_def xdrsize_emit_def xdr_sizeof_handle_def)
qed

end
