(* ===== verification/Xdr_Properties.thy ===== *)
theory Xdr_Properties
  imports Xdr_Mem Xdr_Sizeof
begin

text \<open>
  What XDR over a memory buffer guarantees, end to end: what is encoded decodes to the same
  value, the bytes on the wire are those of the XDR standard, nothing outside the buffer or the
  caller's storage is written, and the size counter agrees with the encoder.
\<close>

text \<open>
  \<open>v\<close> is encoded into \<open>n\<close> bytes of any buffer with that room, and decoding them over the old value \<open>w\<close> gives \<open>v'\<close>.
\<close>

definition xdrmem_transfer :: "(nat, 'v) xdrproc \<Rightarrow> nat \<Rightarrow> 'v \<Rightarrow> 'v \<Rightarrow> 'v \<Rightarrow> bool" where
  "xdrmem_transfer pr n v v' w \<longleftrightarrow>
     (\<forall>m a sz. n \<le> unat sz \<longrightarrow>
       (\<exists>x y. pr (xdrmem_create m a sz XDR_ENCODE) v = Some (True, x, v)
          \<and> x_private x = a + n
          \<and> pr (xdrmem_create (x_mem x) a sz XDR_DECODE) w = Some (True, y, v')
          \<and> x_private y = a + n))"

abbreviation xdrmem_roundtrip :: "(nat, 'v) xdrproc \<Rightarrow> nat \<Rightarrow> 'v \<Rightarrow> 'v \<Rightarrow> bool" where
  "xdrmem_roundtrip pr n v w \<equiv> xdrmem_transfer pr n v v w"

text \<open>Encoding \<open>v\<close> fails, with the stream and its buffer as they were.\<close>

definition xdrmem_refuses :: "(nat, 'v) xdrproc \<Rightarrow> 'v \<Rightarrow> bool" where
  "xdrmem_refuses pr v \<longleftrightarrow>
     (\<forall>m a sz. pr (xdrmem_create m a sz XDR_ENCODE) v = Some (False, xdrmem_create m a sz XDR_ENCODE, v))"

lemma xdrmem_encode:
  assumes "xdr_encodes xdrmem_room xdrmem_emit pr v bs" and "length bs \<le> unat sz"
  shows "pr (xdrmem_create m a sz XDR_ENCODE) v =
    Some (True, xdrmem_emit (xdrmem_create m a sz XDR_ENCODE) bs, v)"
  using assms by (simp add: xdr_encodes_def xdrmem_create_def xdrmem_room_def)

lemma xdrmem_decode:
  assumes "xdr_decodes xdrmem_avail xdrmem_adv pr w v bs" and "length bs \<le> unat sz"
  shows "pr (xdrmem_create (mem_write m a bs) a sz XDR_DECODE) w =
    Some (True, xdrmem_adv (xdrmem_create (mem_write m a bs) a sz XDR_DECODE) (length bs), v)"
proof -
  let ?x = "xdrmem_create (mem_write m a bs) a sz XDR_DECODE"
  have "take (length bs) (xdrmem_avail ?x) = bs"
    using assms(2) by (simp add: xdrmem_avail_def xdrmem_create_def mem_read_write_prefix)
  then have "xdrmem_avail ?x = bs @ drop (length bs) (xdrmem_avail ?x)"
    by (metis append_take_drop_id)
  moreover have "x_op ?x = XDR_DECODE" by (simp add: xdrmem_create_def)
  ultimately show ?thesis
    using assms(1) unfolding xdr_decodes_def by blast
qed

lemma xdrmem_transferI:
  assumes "xdr_encodes xdrmem_room xdrmem_emit pr v bs"
    and "xdr_decodes xdrmem_avail xdrmem_adv pr w v' bs" and "length bs = n"
  shows "xdrmem_transfer pr n v v' w"
  unfolding xdrmem_transfer_def
proof (intro allI impI)
  fix m a and sz :: u32 assume "n \<le> unat sz"
  then have len: "length bs \<le> unat sz" using assms(3) by simp
  show "\<exists>x y. pr (xdrmem_create m a sz XDR_ENCODE) v = Some (True, x, v) \<and> x_private x = a + n
    \<and> pr (xdrmem_create (x_mem x) a sz XDR_DECODE) w = Some (True, y, v') \<and> x_private y = a + n"
    using xdrmem_encode [OF assms(1) len, of m a] xdrmem_decode [OF assms(2) len, of m a] assms(3)
    by (simp add: xdrmem_emit_def xdrmem_adv_def xdrmem_create_def)
qed

lemma signed_fits_32: "scast (ucast (l :: u64) :: u32) = l \<longleftrightarrow> - (2 ^ 31) \<le> sint l \<and> sint l < 2 ^ 31"
proof -
  have "sint (scast (ucast l :: u32) :: u64) = signed_take_bit 31 (sint l)"
    by (rule bit_eqI) (auto simp: bit_simps min_def)
  then have "scast (ucast l :: u32) = l \<longleftrightarrow> signed_take_bit 31 (sint l) = sint l"
    by (metis signed_word_eqI)
  then show ?thesis by (simp add: signed_take_bit_int_eq_self_iff)
qed

lemma unsigned_fits_32: "ucast (ucast (l :: u64) :: u32) = l \<longleftrightarrow> unat l < 2 ^ 32"
proof -
  have "unat (ucast (ucast l :: u32) :: u64) = take_bit 32 (unat l)"
    by (simp add: unsigned_ucast_eq unsigned_take_bit_eq)
  then have "ucast (ucast l :: u32) = l \<longleftrightarrow> take_bit 32 (unat l) = unat l"
    by (simp add: word_unat_eq_iff)
  then show ?thesis by (simp add: take_bit_nat_eq_self_iff)
qed

lemma xdr_long_transfer:
  "if - (2 ^ 31) \<le> sint l \<and> sint l < 2 ^ 31 then xdrmem_roundtrip (lift_xdr (xdr_long xdrmem_ops)) 4 l l'
   else xdrmem_refuses (lift_xdr (xdr_long xdrmem_ops)) l"
proof (cases "scast (ucast l :: u32) = l")
  case True
  then show ?thesis
    using xdrmem_transferI [OF xmsink.encodes_long [OF True] xmsource.decodes_long [OF True] length_be32]
    unfolding signed_fits_32 by simp
next
  case False
  then show ?thesis unfolding signed_fits_32 [symmetric]
    by (simp add: xdrmem_refuses_def lift_xdr_def xdr_long_def xdrmem_create_def)
qed

lemma xdr_u_long_transfer:
  "if unat l < 2 ^ 32 then xdrmem_roundtrip (lift_xdr (xdr_u_long xdrmem_ops)) 4 l l'
   else xdrmem_refuses (lift_xdr (xdr_u_long xdrmem_ops)) l"
proof (cases "ucast (ucast l :: u32) = l")
  case True
  then show ?thesis
    using xdrmem_transferI [OF xmsink.encodes_u_long [OF True] xmsource.decodes_u_long [OF True] length_be32]
    unfolding unsigned_fits_32 by simp
next
  case False
  then show ?thesis unfolding unsigned_fits_32 [symmetric]
    by (simp add: xdrmem_refuses_def lift_xdr_def xdr_u_long_def xdrmem_create_def)
qed

text \<open>
  C10.  The scalar filters of \<open>xdr.c\<close> and \<open>xdr_intXX_t.c\<close> through a memory stream: encoding a value
  into a buffer with room for its 4 or 8 bytes succeeds, and decoding from that buffer (over any old
  content of the object) succeeds with the same value and ends at the same position.  There are
  two exceptions.  \<open>xdr_long\<close> and \<open>xdr_u_long\<close> do so for the values that fit 32 bits and refuse to
  encode the others, writing nothing; \<open>xdr_bool\<close> of any nonzero value is decoded as 1.
\<close>

theorem xdr_scalars_roundtrip:
  "xdrmem_roundtrip (lift_xdr (xdr_int xdrmem_ops)) 4 i i'
   \<and> xdrmem_roundtrip (lift_xdr (xdr_u_int xdrmem_ops)) 4 u u'
   \<and> (if - (2 ^ 31) \<le> sint l \<and> sint l < 2 ^ 31 then xdrmem_roundtrip (lift_xdr (xdr_long xdrmem_ops)) 4 l l'
       else xdrmem_refuses (lift_xdr (xdr_long xdrmem_ops)) l)
   \<and> (if unat l < 2 ^ 32 then xdrmem_roundtrip (lift_xdr (xdr_u_long xdrmem_ops)) 4 l l'
       else xdrmem_refuses (lift_xdr (xdr_u_long xdrmem_ops)) l)
   \<and> xdrmem_roundtrip (lift_xdr (xdr_hyper xdrmem_ops)) 8 q q'
   \<and> xdrmem_roundtrip (lift_xdr (xdr_u_hyper xdrmem_ops)) 8 q q'
   \<and> xdrmem_roundtrip (lift_xdr (xdr_longlong_t xdrmem_ops)) 8 q q'
   \<and> xdrmem_roundtrip (lift_xdr (xdr_u_longlong_t xdrmem_ops)) 8 q q'
   \<and> xdrmem_roundtrip (lift_xdr (xdr_short xdrmem_ops)) 4 s s'
   \<and> xdrmem_roundtrip (lift_xdr (xdr_u_short xdrmem_ops)) 4 s s'
   \<and> xdrmem_roundtrip (lift_xdr (xdr_char xdrmem_ops)) 4 c c'
   \<and> xdrmem_roundtrip (lift_xdr (xdr_u_char xdrmem_ops)) 4 c c'
   \<and> xdrmem_transfer (lift_xdr (xdr_bool xdrmem_ops)) 4 i (if i = 0 then 0 else 1) i'
   \<and> xdrmem_roundtrip (lift_xdr (xdr_enum xdrmem_ops)) 4 i i'
   \<and> xdrmem_roundtrip (lift_xdr (xdr_int64_t xdrmem_ops)) 8 q q'
   \<and> xdrmem_roundtrip (lift_xdr (xdr_quad_t xdrmem_ops)) 8 q q'
   \<and> xdrmem_roundtrip (lift_xdr (xdr_uint64_t xdrmem_ops)) 8 q q'
   \<and> xdrmem_roundtrip (lift_xdr (xdr_u_quad_t xdrmem_ops)) 8 q q'
   \<and> xdrmem_roundtrip (lift_xdr (xdr_int32_t xdrmem_ops)) 4 i i'
   \<and> xdrmem_roundtrip (lift_xdr (xdr_uint32_t xdrmem_ops)) 4 u u'
   \<and> xdrmem_roundtrip (lift_xdr (xdr_int16_t xdrmem_ops)) 4 s s'
   \<and> xdrmem_roundtrip (lift_xdr (xdr_uint16_t xdrmem_ops)) 4 s s'
   \<and> xdrmem_roundtrip (lift_xdr (xdr_int8_t xdrmem_ops)) 4 c c'
   \<and> xdrmem_roundtrip (lift_xdr (xdr_uint8_t xdrmem_ops)) 4 c c'"
proof -
  have b: "xdrmem_transfer (lift_xdr (xdr_bool xdrmem_ops)) 4 i (if i = 0 then 0 else 1) i'"
    using xdrmem_transferI [OF xmsink.encodes_bool [of i] xmsource.decodes_bool [of i' i] length_be32]
    by (cases "i = 0") simp_all
  have same: "xdr_longlong_t xdrmem_ops = xdr_hyper xdrmem_ops"
    "xdr_u_longlong_t xdrmem_ops = xdr_u_hyper xdrmem_ops"
    "xdr_quad_t xdrmem_ops = xdr_int64_t xdrmem_ops"
    "xdr_u_quad_t xdrmem_ops = xdr_uint64_t xdrmem_ops"
    by (auto simp: fun_eq_iff xdr_longlong_t_def xdr_u_longlong_t_def xdr_quad_t_def xdr_u_quad_t_def)
  show ?thesis
    unfolding same
    by (intro conjI b xdr_long_transfer xdr_u_long_transfer xdrmem_transferI
        [OF xmsink.encodes_int xmsource.decodes_int length_be32]
        xdrmem_transferI [OF xmsink.encodes_u_int xmsource.decodes_u_int length_be32]
        xdrmem_transferI [OF xmsink.encodes_hyper xmsource.decodes_hyper length_enc_hyper]
        xdrmem_transferI [OF xmsink.encodes_u_hyper xmsource.decodes_u_hyper length_enc_hyper]
        xdrmem_transferI [OF xmsink.encodes_short xmsource.decodes_short length_be32]
        xdrmem_transferI [OF xmsink.encodes_u_short xmsource.decodes_u_short length_be32]
        xdrmem_transferI [OF xmsink.encodes_char xmsource.decodes_char length_be32]
        xdrmem_transferI [OF xmsink.encodes_u_char xmsource.decodes_u_char length_be32]
        xdrmem_transferI [OF xmsink.encodes_enum xmsource.decodes_enum length_be32]
        xdrmem_transferI [OF xmsink.encodes_int64_t xmsource.decodes_int64_t length_enc_hyper]
        xdrmem_transferI [OF xmsink.encodes_uint64_t xmsource.decodes_uint64_t length_enc_hyper]
        xdrmem_transferI [OF xmsink.encodes_int32_t xmsource.decodes_int32_t length_be32]
        xdrmem_transferI [OF xmsink.encodes_uint32_t xmsource.decodes_uint32_t length_be32]
        xdrmem_transferI [OF xmsink.encodes_int16_t xmsource.decodes_int16_t length_be32]
        xdrmem_transferI [OF xmsink.encodes_uint16_t xmsource.decodes_uint16_t length_be32]
        xdrmem_transferI [OF xmsink.encodes_int8_t xmsource.decodes_int8_t length_be32]
        xdrmem_transferI [OF xmsink.encodes_uint8_t xmsource.decodes_uint8_t length_be32])
qed

text \<open>
  C8.  A string round-trips through a memory stream: the buffer gets the length word, the
  characters and zero padding to a multiple of four, decoding allocates the storage and yields
  the string with its terminator.  The string has no embedded NUL and is within \<open>maxsize\<close> and
  the buffer, and \<open>mem_alloc\<close> returns a block of the size it was asked for.
\<close>

theorem xdr_string_roundtrip:
  assumes "0 \<notin> set s" and "Suc (length s) < 2 ^ 32" and "of_nat (length s) \<le> maxsize"
    and "4 + length s + xdr_pad (length s) \<le> unat sz"
    and "alloc (Suc (length s)) = Some blk" and "length blk = Suc (length s)"
  shows "\<exists>x y. xdr_string alloc xdrmem_ops (xdrmem_create m a sz XDR_ENCODE) (Some (s @ [0])) maxsize =
      Some (True, x, Some (s @ [0]))
    \<and> x_mem x = mem_write m a (be32 (of_nat (length s)) @ s @ replicate (xdr_pad (length s)) 0)
    \<and> xdr_string alloc xdrmem_ops (xdrmem_create (x_mem x) a sz XDR_DECODE) None maxsize =
      Some (True, y, Some (s @ [0]))
    \<and> x_private y = x_private x"
proof -
  have len: "length (enc_bytes s) \<le> unat sz"
    using assms(4) by (simp add: enc_bytes_def)
  have e: "xdr_encodes xdrmem_room xdrmem_emit (\<lambda>x cpp. xdr_string alloc xdrmem_ops x cpp maxsize)
      (Some (s @ [0])) (enc_bytes s)"
    using xmsink.encodes_string [of "s @ [0]" "length s" maxsize alloc] assms(1-3) by simp
  have d: "xdr_decodes xdrmem_avail xdrmem_adv (\<lambda>x cpp. xdr_string alloc xdrmem_ops x cpp maxsize)
      None (Some (s @ [0])) (enc_bytes s)"
    by (rule xmsource.decodes_string_alloc) (use assms in auto)
  show ?thesis
    using xdrmem_encode [OF e len, of m a] xdrmem_decode [OF d len, of m a]
    by (simp add: xdrmem_emit_def xdrmem_adv_def xdrmem_create_def enc_bytes_def enc_opaque_def)
qed

theorem xdr_string_roundtrip_witness:
  "\<exists>x y. xdr_string (\<lambda>n. Some (replicate n 7)) xdrmem_ops (xdrmem_create (\<lambda>i. 0) 100 64 XDR_ENCODE)
      (Some ([104, 105] @ [0])) 10 = Some (True, x, Some ([104, 105] @ [0]))
    \<and> x_mem x = mem_write (\<lambda>i. 0) 100 (be32 (of_nat (length [104, 105 :: u8])) @ [104, 105]
        @ replicate (xdr_pad (length [104, 105 :: u8])) 0)
    \<and> xdr_string (\<lambda>n. Some (replicate n 7)) xdrmem_ops (xdrmem_create (x_mem x) 100 64 XDR_DECODE)
      None 10 = Some (True, y, Some ([104, 105] @ [0]))
    \<and> x_private y = x_private x"
  by (rule xdr_string_roundtrip [where blk = "[7, 7, 7]"]) (simp_all add: xdr_pad_def)

text \<open>
  C3.  A counted array whose elements round-trip, round-trips: the buffer gets the element count
  and the elements' encodings one after the other, and decoding into freshly allocated storage
  yields the same elements (no storage at all for an empty array).
\<close>

theorem xdr_array_roundtrip:
  assumes enc: "\<And>v. v \<in> set vs \<Longrightarrow> xdr_encodes xdrmem_room xdrmem_emit elproc v (enc v)"
    and dec: "\<And>v w. v \<in> set vs \<Longrightarrow> xdr_decodes xdrmem_avail xdrmem_adv elproc w v (enc v)"
    and n: "length vs < 2 ^ 32" "of_nat (length vs) \<le> maxsize"
    and el: "elsize \<noteq> 0" "of_nat (length vs) \<le> - 1 div elsize"
    and fits: "4 + length (concat (map enc vs)) \<le> unat sz"
    and cal: "calloc (length vs) = Some ws" "length ws = length vs"
  shows "\<exists>x y. xdr_array calloc xdrmem_ops (xdrmem_create m a sz XDR_ENCODE)
        (Some vs, of_nat (length vs)) maxsize elsize elproc =
      Some (True, x, Some vs, of_nat (length vs))
    \<and> x_mem x = mem_write m a (be32 (of_nat (length vs)) @ concat (map enc vs))
    \<and> xdr_array calloc xdrmem_ops (xdrmem_create (x_mem x) a sz XDR_DECODE)
        (None, n0) maxsize elsize elproc =
      Some (True, y, if vs = [] then None else Some vs, of_nat (length vs))
    \<and> x_private y = x_private x"
proof -
  have len: "length (enc_array enc vs) \<le> unat sz"
    using fits by (simp add: enc_array_def)
  have e: "xdr_encodes xdrmem_room xdrmem_emit
      (\<lambda>x obj. xdr_array calloc xdrmem_ops x obj maxsize elsize elproc)
      (Some vs, of_nat (length vs)) (enc_array enc vs)"
    by (rule xmsink.encodes_array) (use enc n el in auto)
  have d: "xdr_decodes xdrmem_avail xdrmem_adv
      (\<lambda>x obj. xdr_array calloc xdrmem_ops x obj maxsize elsize elproc) (None, n0)
      (if vs = [] then None else Some vs, of_nat (length vs)) (enc_array enc vs)"
    by (rule xmsource.decodes_array_alloc [where ws = ws]) (use dec n el cal in auto)
  show ?thesis
    using xdrmem_encode [OF e len, of m a] xdrmem_decode [OF d len, of m a]
    by (simp add: xdrmem_emit_def xdrmem_adv_def xdrmem_create_def enc_array_def)
qed

theorem xdr_array_roundtrip_witness:
  "\<exists>x y. xdr_array (\<lambda>n. Some (replicate n 0)) xdrmem_ops (xdrmem_create (\<lambda>i. 0) 8 32 XDR_ENCODE)
        (Some [5, 1234567890123], of_nat (length [5, 1234567890123 :: u64])) 100 8
        (lift_xdr (xdr_hyper xdrmem_ops)) =
      Some (True, x, Some [5, 1234567890123], of_nat (length [5, 1234567890123 :: u64]))
    \<and> x_mem x = mem_write (\<lambda>i. 0) 8 (be32 (of_nat (length [5, 1234567890123 :: u64]))
        @ concat (map enc_hyper [5, 1234567890123]))
    \<and> xdr_array (\<lambda>n. Some (replicate n 0)) xdrmem_ops (xdrmem_create (x_mem x) 8 32 XDR_DECODE)
        (None, 0) 100 8 (lift_xdr (xdr_hyper xdrmem_ops)) =
      Some (True, y, if [5, 1234567890123 :: u64] = [] then None else Some [5, 1234567890123],
        of_nat (length [5, 1234567890123 :: u64]))
    \<and> x_private y = x_private x"
  by (rule xdr_array_roundtrip [where ws = "[0, 0]"])
    (simp_all add: xmsink.encodes_hyper xmsource.decodes_hyper)

text \<open>
  C11.  Decoding a string into storage the caller provides is memory-safe on every input: with a
  buffer of more than \<open>maxsize\<close> bytes no access is out of bounds, the bytes after the first
  \<open>maxsize + 1\<close> keep their values, and when the filter succeeds the buffer holds a terminator
  within these first \<open>maxsize + 1\<close> bytes.
\<close>

theorem xdr_string_decode_safe:
  assumes "x_op x = XDR_DECODE" and "unat maxsize < length sp"
  shows "\<exists>ok x' sp'. xdr_string alloc xdrmem_ops x (Some sp) maxsize = Some (ok, x', Some sp')
    \<and> length sp' = length sp
    \<and> drop (Suc (unat maxsize)) sp' = drop (Suc (unat maxsize)) sp
    \<and> (ok \<longrightarrow> (\<exists>n \<le> unat maxsize. sp' ! n = 0))"
  using assms by (rule xmsource.string_decode_into)

theorem xdr_string_decode_safe_witness:
  "\<exists>ok x' sp'. xdr_string (\<lambda>n. None) xdrmem_ops (xdrmem_create (\<lambda>i. 1) 0 16 XDR_DECODE)
      (Some [9, 9, 9, 9]) 3 = Some (ok, x', Some sp')
    \<and> length sp' = length [9, 9, 9, 9 :: u8]
    \<and> drop (Suc (unat (3 :: u32))) sp' = drop (Suc (unat (3 :: u32))) [9, 9, 9, 9]
    \<and> (ok \<longrightarrow> (\<exists>n \<le> unat (3 :: u32). sp' ! n = 0))"
  by (rule xdr_string_decode_safe) (simp_all add: xdrmem_create_def)

text \<open>
  C12.  Encoding counted bytes never writes outside the buffer: whatever the count, the limit and the room, the filter
  returns, and every memory cell outside \<open>[a, a + sz)\<close> keeps its value.  It succeeds exactly when the count
  is within \<open>maxsize\<close> and the length word, the bytes and the padding fit; a count above \<open>maxsize\<close> leaves at most
  the length word in the buffer.
\<close>

theorem xdr_bytes_encode_in_bounds:
  assumes "unat n \<le> length sp"
  shows "\<exists>ok x. xdr_bytes alloc xdrmem_ops (xdrmem_create m a sz XDR_ENCODE) (Some sp, n) maxsize =
      Some (ok, x, Some sp, n)
    \<and> (ok \<longleftrightarrow> n \<le> maxsize \<and> 4 + unat n + xdr_pad (unat n) \<le> unat sz)
    \<and> (\<forall>i. i < a \<or> a + unat sz \<le> i \<longrightarrow> x_mem x i = m i)
    \<and> (maxsize < n \<longrightarrow> x_mem x = (if 4 \<le> unat sz then mem_write m a (be32 n) else m))"
proof -
  let ?x = "xdrmem_create m a sz XDR_ENCODE" and ?bs = "enc_bytes (take (unat n) sp)"
  have l: "length ?bs = 4 + unat n + xdr_pad (unat n)"
    using assms(1) by (simp add: enc_bytes_def min_absorb2)
  have frame: "x_mem (xdrmem_emit ?x bs) i = m i" if "xdrmem_room ?x (length bs)" "i < a \<or> a + unat sz \<le> i" for bs i
    using that by (auto simp: xdrmem_emit_def xdrmem_create_def xdrmem_room_def mem_write_def)
  have e: "x_op ?x = XDR_ENCODE" by (simp add: xdrmem_create_def)
  consider "maxsize < n" | "n \<le> maxsize" "xdrmem_room ?x (length ?bs)" | "n \<le> maxsize" "\<not> xdrmem_room ?x (length ?bs)"
    by fastforce
  then show ?thesis
  proof cases
    case 1
    then show ?thesis using frame [of "be32 n"] xmsink.putlong [of ?x]
      by (auto simp: xdr_bytes_def xdr_u_int_def xdrmem_create_def xdrmem_room_def xdrmem_emit_def)
  next
    case 2
    then show ?thesis
      using xmsink.encodes_bytes [OF assms 2(1), of alloc] e frame [OF 2(2)]
      by (auto simp: xdr_encodes_def l xdrmem_room_def xdrmem_create_def)
  next
    case 3
    then obtain x' where x': "xdr_bytes alloc xdrmem_ops ?x (Some sp, n) maxsize = Some (False, x', Some sp, n)"
      and p: "xdr_prefix_out xdrmem_room xdrmem_emit ?x ?bs x'"
      using xmsink.encodes_bytes [OF assms 3(1), of alloc] e
      by (auto simp: xdr_encodes_def dest!: spec [of _ ?x])
    obtain k where "k \<le> length ?bs" "xdrmem_room ?x k" "x' = xdrmem_emit ?x (take k ?bs)"
      using p unfolding xdr_prefix_out_def by blast
    then have "\<forall>i. i < a \<or> a + unat sz \<le> i \<longrightarrow> x_mem x' i = m i"
      using frame [of "take k ?bs"] by (simp add: min_absorb2)
    with x' 3 show ?thesis
      by (auto simp: l xdrmem_room_def xdrmem_create_def)
  qed
qed

theorem xdr_bytes_encode_in_bounds_witness:
  "unat (3 :: u32) \<le> length [1, 2, 3 :: u8]
   \<and> (\<exists>ok x. xdr_bytes (\<lambda>n. None) xdrmem_ops (xdrmem_create (\<lambda>i. 3) 10 6 XDR_ENCODE) (Some [1, 2, 3], 3) 2 =
      Some (ok, x, Some [1, 2, 3], 3)
    \<and> \<not> ok \<and> x_mem x = mem_write (\<lambda>i. 3) 10 (be32 3)
    \<and> (\<forall>i. i < 10 \<or> 10 + unat (6 :: u32) \<le> i \<longrightarrow> x_mem x i = 3))"
  using xdr_bytes_encode_in_bounds [of 3 "[1, 2, 3]" "\<lambda>n. None" "\<lambda>i. 3" 10 6 2] by auto

text \<open>
  C13.  \<open>xdr_sizeof\<close> predicts the encoder: for an array of strings it returns the very number of
  bytes by which encoding the same object advances a memory stream with enough room.
\<close>

theorem xdr_sizeof_array_of_strings:
  assumes s: "\<And>s. s \<in> set vs \<Longrightarrow> \<exists>sp. s = Some (sp @ [0]) \<and> 0 \<notin> set sp \<and> Suc (length sp) < 2 ^ 32"
    and n: "length vs < 2 ^ 32" "of_nat (length vs) \<le> maxsize"
    and el: "elsize \<noteq> 0" "of_nat (length vs) \<le> - 1 div elsize"
    and fits: "length (enc_array (\<lambda>s. enc_bytes (butlast (the s))) vs) \<le> unat sz"
  shows "\<exists>x. xdr_array cal xdrmem_ops (xdrmem_create m a sz XDR_ENCODE) (Some vs, of_nat (length vs))
        maxsize elsize (xdr_wrapstring alloc xdrmem_ops) = Some (True, x, Some vs, of_nat (length vs))
    \<and> xdr_sizeof m' (\<lambda>x obj. xdr_array cal (xdr_sizeof_ops malloc) x obj maxsize elsize
          (xdr_wrapstring alloc (xdr_sizeof_ops malloc))) (Some vs, of_nat (length vs)) =
        Some (of_nat (x_private x - a))"
proof -
  let ?enc = "\<lambda>s. enc_bytes (butlast (the s))" and ?bs = "enc_array (\<lambda>s. enc_bytes (butlast (the s))) vs"
  have m: "xdr_encodes xdrmem_room xdrmem_emit (xdr_wrapstring alloc xdrmem_ops) v (?enc v)"
    and z: "xdr_encodes xdrsize_room xdrsize_emit (xdr_wrapstring alloc (xdr_sizeof_ops malloc)) v (?enc v)"
    if v: "v \<in> set vs" for v
  proof -
    obtain sp where "v = Some (sp @ [0])" "0 \<notin> set sp" "Suc (length sp) < 2 ^ 32"
      using s [OF v] by blast
    then show "xdr_encodes xdrmem_room xdrmem_emit (xdr_wrapstring alloc xdrmem_ops) v (?enc v)"
      and "xdr_encodes xdrsize_room xdrsize_emit (xdr_wrapstring alloc (xdr_sizeof_ops malloc)) v (?enc v)"
      using xmsink.encodes_wrapstring [of "sp @ [0]" "length sp" alloc]
        xssink.encodes_wrapstring [of "sp @ [0]" "length sp" alloc] by simp_all
  qed
  have u: "ucast (of_nat (length ?bs) :: u32) = (of_nat (length ?bs) :: u64)"
    using fits by (intro ucast_of_nat_le)
  show ?thesis
    using xdrmem_encode [OF xmsink.encodes_array [OF m n el], of sz cal m a] fits
      xdr_sizeof_encodes [OF xssink.encodes_array [OF z n el], of m'] u
    by (simp add: xdrmem_emit_def xdrmem_create_def)
qed

theorem xdr_sizeof_array_of_strings_witness:
  "\<exists>x. xdr_array (\<lambda>n. None) xdrmem_ops (xdrmem_create (\<lambda>i. 0) 0 100 XDR_ENCODE)
        (Some [Some ([65, 66] @ [0])], of_nat (length [Some ([65, 66] @ [0 :: u8])]))
        9 8 (xdr_wrapstring (\<lambda>n. None) xdrmem_ops) =
        Some (True, x, Some [Some ([65, 66] @ [0])], of_nat (length [Some ([65, 66] @ [0 :: u8])]))
    \<and> xdr_sizeof (\<lambda>i. 0) (\<lambda>x obj. xdr_array (\<lambda>n. None) (xdr_sizeof_ops (\<lambda>n. None)) x obj 9 8
          (xdr_wrapstring (\<lambda>n. None) (xdr_sizeof_ops (\<lambda>n. None))))
          (Some [Some ([65, 66] @ [0])], of_nat (length [Some ([65, 66] @ [0 :: u8])])) =
        Some (of_nat (x_private x - 0))"
  by (rule xdr_sizeof_array_of_strings)
    (auto simp: enc_array_def enc_bytes_def enc_opaque_def xdr_pad_def)

end
