(* ===== verification/Hsearch.thy ===== *)
theory Hsearch
  imports Glibc_Prelude
begin

text \<open>
  The hash table of \<open>misc/hsearch_r.c\<close>: open addressing with double hashing over a table of
  prime size, entries never removed.

  \<open>struct hsearch_data\<close> is a record; its \<open>table\<close> is the list of \<open>size + 1\<close> slots \<open>calloc\<close>
  returned, or \<open>None\<close> for the null pointer.  A key is the list of the bytes before its NUL.
  Hash values, the table size and the probe index are 32-bit words that wrap as \<open>unsigned int\<close>
  does; \<open>char\<close> is signed.  A pointer to an entry of the table is the entry's index.

  A division by zero, an access outside the table and a probe loop that does not end within the
  given fuel are \<open>None\<close>.
\<close>

record 'd ENTRY =
  key :: "u8 list"
  data :: 'd

record 'd slot =
  used :: u32
  entry :: "'d ENTRY"

record 'd hsearch_data =
  table :: "'d slot list option"
  hsize :: u32
  filled :: u32

datatype ACTION = FIND | ENTER

section \<open>Creating a table\<close>

function isprime_loop :: "nat \<Rightarrow> nat \<Rightarrow> bool" where
  "isprime_loop number d =
     (if d \<le> number div d
      then (if number mod d = 0 then False else isprime_loop number (d + 2))
      else True)"
  by pat_completeness auto
termination
proof (relation "measure (\<lambda>(number, d). Suc number - d)")
  fix number d :: nat
  assume "d \<le> number div d" "number mod d \<noteq> 0"
  then have "d \<le> number"
    using div_le_dividend [of number d] by linarith
  then show "((number, d + 2), number, d) \<in> measure (\<lambda>(number, d). Suc number - d)"
    by simp
qed simp

declare isprime_loop.simps [simp del]

definition isprime :: "nat \<Rightarrow> bool" where
  "isprime number = isprime_loop number 3"

definition UINT_MAX :: nat where
  "UINT_MAX = 2 ^ 32 - 1"

function hcreate_size :: "nat \<Rightarrow> nat option" where
  "hcreate_size nel =
     (if UINT_MAX - 2 < nel then None
      else if isprime nel then Some nel
      else hcreate_size (nel + 2))"
  by pat_completeness auto
termination
  by (relation "measure (\<lambda>nel. Suc UINT_MAX - nel)") auto

declare hcreate_size.simps [simp del]

text \<open>
  \<open>hcreate_r\<close> returns the stored \<open>errno\<close> if any, the result and the table descriptor;
  \<open>calloc n\<close> stands for the allocator: the block of \<open>n\<close> zeroed slots or \<open>None\<close>.
\<close>

definition hcreate_r ::
  "(nat \<Rightarrow> 'd slot list option) \<Rightarrow> u64 \<Rightarrow> 'd hsearch_data option
     \<Rightarrow> errno option \<times> bool \<times> 'd hsearch_data option" where
  "hcreate_r calloc nel htab =
     (case htab of
        None \<Rightarrow> (Some EINVAL, False, None)
      | Some h \<Rightarrow>
          if table h \<noteq> None then (None, False, Some h)
          else
            (case hcreate_size (unat ((if nel < 3 then 3 else nel) OR 1)) of
               None \<Rightarrow> (Some ENOMEM, False, Some h)
             | Some n \<Rightarrow>
                 (let h1 = h\<lparr>hsize := of_nat n, filled := 0, table := calloc (n + 1)\<rparr>
                  in (None, table h1 \<noteq> None, Some h1))))"

definition hdestroy_r :: "'d hsearch_data option \<Rightarrow> errno option \<times> 'd hsearch_data option" where
  "hdestroy_r htab =
     (case htab of
        None \<Rightarrow> (Some EINVAL, None)
      | Some h \<Rightarrow> (None, Some (h\<lparr>table := None\<rparr>)))"

section \<open>Searching and entering\<close>

fun hash_loop :: "u8 list \<Rightarrow> nat \<Rightarrow> u32 \<Rightarrow> u32" where
  "hash_loop k 0 hval = hval"
| "hash_loop k (Suc count) hval = hash_loop k count (push_bit 4 hval + scast (k ! count))"

definition hash_key :: "u8 list \<Rightarrow> u32" where
  "hash_key k =
     (let len = of_nat (length k) :: u32; hval = hash_loop k (unat len) len
      in if hval = 0 then hval + 1 else hval)"

text \<open>The outcome of the probe loop: the index of the entry, or the index it stopped at.\<close>

datatype probe = Found u32 | Stopped u32

definition probe_step :: "u32 \<Rightarrow> u32 \<Rightarrow> u32 \<Rightarrow> u32" where
  "probe_step sz hval2 idx = (if idx \<le> hval2 then sz + idx - hval2 else idx - hval2)"

fun probe_loop ::
  "nat \<Rightarrow> 'd slot list \<Rightarrow> u32 \<Rightarrow> u8 list \<Rightarrow> u32 \<Rightarrow> u32 \<Rightarrow> u32 \<Rightarrow> u32 \<Rightarrow> probe option" where
  "probe_loop 0 t sz k hval hval2 first_idx idx = None"
| "probe_loop (Suc fuel) t sz k hval hval2 first_idx idx =
     (let idx' = probe_step sz hval2 idx
      in if idx' = first_idx then Some (Stopped idx')
         else if length t \<le> unat idx' then None
         else if used (t ! unat idx') = hval \<and> k = key (entry (t ! unat idx'))
         then Some (Found idx')
         else if used (t ! unat idx') \<noteq> 0 then probe_loop fuel t sz k hval hval2 first_idx idx'
         else Some (Stopped idx'))"

definition hsearch_probe :: "'d slot list \<Rightarrow> u32 \<Rightarrow> u8 list \<Rightarrow> probe option" where
  "hsearch_probe t sz k =
     (let hval = hash_key k; idx = hval mod sz + 1
      in if sz = 0 \<or> length t \<le> unat idx then None
         else if used (t ! unat idx) \<noteq> 0
         then (if used (t ! unat idx) = hval \<and> k = key (entry (t ! unat idx)) then Some (Found idx)
               else if sz = 2 then None
               else (let hval2 = 1 + hval mod (sz - 2); first_idx = idx
                     in probe_loop (unat sz) t sz k hval hval2 first_idx idx))
         else Some (Stopped idx))"

record 'd hresult =
  res_errno :: "errno option"
  res_ok :: bool
  res_retval :: "u32 option"
  res_htab :: "'d hsearch_data"

definition hsearch_r :: "'d ENTRY \<Rightarrow> ACTION \<Rightarrow> 'd hsearch_data \<Rightarrow> 'd hresult option" where
  "hsearch_r item action htab =
     (case table htab of
        None \<Rightarrow> None
      | Some t \<Rightarrow>
          (case hsearch_probe t (hsize htab) (key item) of
             None \<Rightarrow> None
           | Some (Found idx) \<Rightarrow>
               Some \<lparr>res_errno = None, res_ok = True, res_retval = Some idx, res_htab = htab\<rparr>
           | Some (Stopped idx) \<Rightarrow>
               (if action = ENTER then
                  (if filled htab = hsize htab
                   then Some \<lparr>res_errno = Some ENOMEM, res_ok = False, res_retval = None, res_htab = htab\<rparr>
                   else Some \<lparr>res_errno = None, res_ok = True, res_retval = Some idx,
                          res_htab = htab\<lparr>table := Some (t[unat idx := \<lparr>used = hash_key (key item), entry = item\<rparr>]),
                                         filled := filled htab + 1\<rparr>\<rparr>)
                else Some \<lparr>res_errno = Some ESRCH, res_ok = False, res_retval = None, res_htab = htab\<rparr>)))"

text \<open>
  The functions of \<open>misc/hsearch.c\<close> work on one static descriptor, which they are given and return;
  \<open>hsearch\<close> returns the pointer that \<open>hsearch_r\<close> stored.
\<close>

definition hsearch ::
  "'d ENTRY \<Rightarrow> ACTION \<Rightarrow> 'd hsearch_data \<Rightarrow> (errno option \<times> u32 option \<times> 'd hsearch_data) option" where
  "hsearch item action htab =
     map_option (\<lambda>r. (res_errno r, res_retval r, res_htab r)) (hsearch_r item action htab)"

definition hcreate ::
  "(nat \<Rightarrow> 'd slot list option) \<Rightarrow> u64 \<Rightarrow> 'd hsearch_data
     \<Rightarrow> errno option \<times> bool \<times> 'd hsearch_data option" where
  "hcreate calloc nel htab = hcreate_r calloc nel (Some htab)"

definition hdestroy :: "'d hsearch_data \<Rightarrow> errno option \<times> 'd hsearch_data option" where
  "hdestroy htab = hdestroy_r (Some htab)"

section \<open>Primality\<close>

definition is_prime :: "nat \<Rightarrow> bool" where
  "is_prime p \<longleftrightarrow> 1 < p \<and> (\<forall>d. d dvd p \<longrightarrow> d = 1 \<or> d = p)"

lemma isprime_loop_iff:
  "odd d \<Longrightarrow> isprime_loop n d \<longleftrightarrow> \<not> (\<exists>e. d \<le> e \<and> odd e \<and> e * e \<le> n \<and> e dvd n)"
proof (induction n d rule: isprime_loop.induct)
  case (1 n d)
  have d0: "0 < d" using "1.prems" by (cases d) auto
  show ?case
  proof (cases "d \<le> n div d")
    case False
    then have "n < d * d" using d0 by (simp add: less_eq_div_iff_mult_less_eq)
    moreover have "d * d \<le> e * e" if "d \<le> e" for e using mult_le_mono [OF that that] .
    ultimately have "\<not> (\<exists>e. d \<le> e \<and> odd e \<and> e * e \<le> n \<and> e dvd n)"
      by (meson leD le_trans)
    then show ?thesis using False by (simp add: isprime_loop.simps [of n d])
  next
    case True
    then have dd: "d * d \<le> n" using d0 by (simp add: less_eq_div_iff_mult_less_eq)
    show ?thesis
    proof (cases "n mod d = 0")
      case T: True
      then show ?thesis
        using True dd "1.prems" by (auto simp: isprime_loop.simps [of n d] mod_eq_0_iff_dvd)
    next
      case F: False
      have "e = d \<or> d + 2 \<le> e" if "d \<le> e" "odd e" for e
        using that "1.prems" by presburger
      moreover have "\<not> d dvd n" using F by (simp add: mod_eq_0_iff_dvd)
      ultimately have "(\<exists>e. d + 2 \<le> e \<and> odd e \<and> e * e \<le> n \<and> e dvd n) \<longleftrightarrow>
          (\<exists>e. d \<le> e \<and> odd e \<and> e * e \<le> n \<and> e dvd n)"
        by (metis add_leD1)
      moreover have "isprime_loop n d = isprime_loop n (d + 2)"
        using True F by (simp add: isprime_loop.simps [of n d])
      ultimately show ?thesis using "1.IH" [OF True F] "1.prems" by simp
    qed
  qed
qed

lemma isprime_correct:
  assumes "odd n" and "3 \<le> n"
  shows "isprime n \<longleftrightarrow> is_prime n"
proof
  assume "isprime n"
  then have no: "\<not> (\<exists>e. 3 \<le> e \<and> odd e \<and> e * e \<le> n \<and> e dvd n)"
    by (simp add: isprime_def isprime_loop_iff)
  have "d = 1 \<or> d = n" if "d dvd n" for d
  proof (rule ccontr)
    assume d: "\<not> (d = 1 \<or> d = n)"
    from \<open>d dvd n\<close> obtain e where n: "n = d * e" by (elim dvdE)
    have "odd d" "odd e" using n assms(1) by simp_all
    then have "3 \<le> d" "3 \<le> e"
      using d n assms(2) by (cases "d = 1"; cases "e = 1"; auto elim!: oddE)+
    then show False
      using no n \<open>odd d\<close> \<open>odd e\<close> by (metis dvd_triv_left dvd_triv_right mult.commute mult_le_mono2 nle_le)
  qed
  then show "is_prime n" using assms(2) by (simp add: is_prime_def)
next
  assume "is_prime n"
  then have "\<not> (\<exists>e. 3 \<le> e \<and> odd e \<and> e * e \<le> n \<and> e dvd n)"
    by (auto simp: is_prime_def)
  then show "isprime n" by (simp add: isprime_def isprime_loop_iff)
qed

section \<open>The probe sequence\<close>

definition hval2_of :: "nat \<Rightarrow> nat \<Rightarrow> nat" where
  "hval2_of n h = 1 + h mod (n - 2)"

definition probe_pos :: "nat \<Rightarrow> nat \<Rightarrow> nat \<Rightarrow> nat" where
  "probe_pos n h k = 1 + (h mod n + k * (n - hval2_of n h)) mod n"

lemma hval2_of_bounds: "3 \<le> n \<Longrightarrow> 1 \<le> hval2_of n h \<and> hval2_of n h < n - 1"
  using mod_less_divisor [of "n - 2" h] unfolding hval2_of_def by linarith

lemma probe_pos_range: "0 < n \<Longrightarrow> 1 \<le> probe_pos n h k \<and> probe_pos n h k \<le> n"
  using mod_less_divisor [of n] by (simp add: probe_pos_def Suc_le_eq)

lemma probe_pos_0: "0 < n \<Longrightarrow> probe_pos n h 0 = 1 + h mod n"
  by (simp add: probe_pos_def)

lemma probe_pos_Suc:
  "probe_pos n h (Suc k) = 1 + (probe_pos n h k - 1 + (n - hval2_of n h)) mod n"
  by (simp add: probe_pos_def mod_simps add_ac)

lemma probe_pos_wraps: "probe_pos n h n = probe_pos n h 0"
  by (simp add: probe_pos_def)

lemma prime_coprime_less:
  assumes "is_prime n" "0 < c" "c < n"
  shows "coprime n c"
proof -
  have "gcd n c = 1 \<or> gcd n c = n"
    using assms(1) by (simp add: is_prime_def)
  moreover have "gcd n c \<le> c" using assms(2) by (simp add: gcd_le2_nat)
  ultimately show ?thesis using assms(3) by (auto simp: coprime_iff_gcd_eq_1)
qed

lemma probe_pos_inj:
  assumes "is_prime n" "3 \<le> n" "i < n" "j < n" "probe_pos n h i = probe_pos n h j"
  shows "i = j"
proof -
  let ?c = "n - hval2_of n h"
  have c: "coprime n ?c"
    using hval2_of_bounds [OF assms(2), of h] assms(2) by (intro prime_coprime_less [OF assms(1)]) auto
  have le: "b = a" if "b \<le> a" "a < n" "(h mod n + a * ?c) mod n = (h mod n + b * ?c) mod n" for a b
  proof -
    have "h mod n + b * ?c \<le> h mod n + a * ?c" using that(1) by simp
    then have "n dvd (h mod n + a * ?c) - (h mod n + b * ?c)"
      using that(3) by (simp add: mod_eq_dvd_iff_nat)
    then have "n dvd (a - b) * ?c" by (simp add: diff_mult_distrib)
    then have "n dvd a - b" using c by (simp add: coprime_dvd_mult_left_iff)
    moreover have "a - b < n" using that(2) by simp
    ultimately show ?thesis using that(1) by (auto dest: dvd_imp_le)
  qed
  have "(h mod n + i * ?c) mod n = (h mod n + j * ?c) mod n"
    using assms(5) by (simp add: probe_pos_def)
  then show ?thesis
    using le [of i j] le [of j i] assms(3,4) by (cases "i \<le> j") auto
qed

lemma probe_pos_surj:
  assumes "is_prime n" "3 \<le> n" "1 \<le> i" "i \<le> n"
  shows "\<exists>k < n. probe_pos n h k = i"
proof -
  have "inj_on (probe_pos n h) {..<n}"
    using probe_pos_inj [OF assms(1,2)] by (auto simp: inj_on_def)
  moreover have "probe_pos n h ` {..<n} \<subseteq> {1..n}"
    using probe_pos_range [of n h] assms(2) by auto
  ultimately have "probe_pos n h ` {..<n} = {1..n}"
    by (intro card_seteq) (simp_all add: card_image)
  then show ?thesis using assms(3,4) by (metis (no_types, lifting) atLeastAtMost_iff imageE lessThan_iff)
qed

lemma unat_probe_step:
  assumes "1 \<le> unat idx" "unat idx \<le> unat sz" "1 \<le> unat h2" "unat h2 < unat sz"
  shows "unat (probe_step sz h2 idx) = 1 + (unat idx - 1 + (unat sz - unat h2)) mod unat sz"
proof (cases "idx \<le> h2")
  case True
  then have le: "unat idx \<le> unat h2" by (simp add: word_le_nat_alt)
  have d: "unat (h2 - idx) = unat h2 - unat idx" using True by (rule unat_sub)
  have "h2 - idx \<le> sz" using d le assms(4) by (simp add: word_le_nat_alt)
  then have "unat (sz - (h2 - idx)) = unat sz - (unat h2 - unat idx)" by (simp add: unat_sub d)
  moreover have "probe_step sz h2 idx = sz - (h2 - idx)" using True by (simp add: probe_step_def)
  moreover have "(unat idx - 1 + (unat sz - unat h2)) mod unat sz = unat idx - 1 + (unat sz - unat h2)"
    using le assms by (intro mod_less) linarith
  ultimately show ?thesis using le assms by simp
next
  case False
  then have gt: "unat h2 < unat idx" by (simp add: word_le_nat_alt)
  have "unat (idx - h2) = unat idx - unat h2" using False by (intro unat_sub) simp
  moreover have "(unat idx - 1 + (unat sz - unat h2)) mod unat sz = unat idx - 1 - unat h2"
  proof -
    have "unat idx - 1 + (unat sz - unat h2) = unat sz + (unat idx - 1 - unat h2)"
      using gt assms by linarith
    moreover have "unat idx - 1 - unat h2 < unat sz" using assms by linarith
    ultimately show ?thesis by (metis mod_add_self1 mod_less)
  qed
  ultimately show ?thesis using False gt by (simp add: probe_step_def)
qed


text \<open>
  What the probe loop finds: from the \<open>k\<close>-th position on, the first position that holds the
  key or is free, or the starting point when there is none.
\<close>

definition slot_at :: "'d slot list \<Rightarrow> u8 list \<Rightarrow> nat \<Rightarrow> bool" where
  "slot_at t k i \<longleftrightarrow> used (t ! i) = hash_key k \<and> k = key (entry (t ! i))"

lemma probe_loop_result:
  assumes n: "is_prime (unat sz)" "3 \<le> unat sz" "length t = Suc (unat sz)"
    and h2: "unat h2 = hval2_of (unat sz) h"
    and first: "unat first_idx = probe_pos (unat sz) h 0"
    and idx: "unat idx = probe_pos (unat sz) h k" "k < unat sz" "unat sz \<le> k + fuel"
  shows "\<exists>m i. k < m \<and> m \<le> unat sz \<and> unat i = probe_pos (unat sz) h m
    \<and> (\<forall>j. k < j \<and> j < m \<longrightarrow> used (t ! probe_pos (unat sz) h j) \<noteq> 0 \<and> \<not> slot_at t kk (probe_pos (unat sz) h j))
    \<and> (if m = unat sz then probe_loop fuel t sz kk (hash_key kk) h2 first_idx idx = Some (Stopped i)
       else if slot_at t kk (unat i) then probe_loop fuel t sz kk (hash_key kk) h2 first_idx idx = Some (Found i)
       else used (t ! unat i) = 0 \<and> probe_loop fuel t sz kk (hash_key kk) h2 first_idx idx = Some (Stopped i))"
  using idx
proof (induction fuel arbitrary: k idx)
  case 0
  then show ?case by simp
next
  case (Suc fuel)
  let ?n = "unat sz" and ?i = "probe_step sz h2 idx"
  have i: "unat ?i = probe_pos ?n h (Suc k)"
    unfolding probe_pos_Suc Suc.prems(1) [symmetric] h2 [symmetric]
    using probe_pos_range [of ?n h k] hval2_of_bounds [OF n(2), of h] n(2) h2 Suc.prems(1)
    by (intro unat_probe_step) auto
  have len: "\<not> length t \<le> unat ?i"
    using i probe_pos_range [of ?n h "Suc k"] n by simp
  have eq: "?i = first_idx \<longleftrightarrow> Suc k = ?n"
  proof -
    have "?i = first_idx \<longleftrightarrow> probe_pos ?n h (Suc k) = probe_pos ?n h 0"
      using i first by (simp add: word_unat_eq_iff)
    also have "\<dots> \<longleftrightarrow> Suc k = ?n"
      using probe_pos_inj [OF n(1,2), of "Suc k" 0 h] Suc.prems(2) n(2) probe_pos_wraps [of ?n h]
      by (cases "Suc k < ?n") (auto dest: Suc_lessI)
    finally show ?thesis .
  qed
  consider "Suc k = ?n" | "Suc k < ?n" "slot_at t kk (unat ?i)"
    | "Suc k < ?n" "\<not> slot_at t kk (unat ?i)" "used (t ! unat ?i) = 0"
    | "Suc k < ?n" "\<not> slot_at t kk (unat ?i)" "used (t ! unat ?i) \<noteq> 0"
    using Suc.prems(2) by fastforce
  then show ?case
  proof cases
    case 1
    then show ?thesis
      using i eq len by (intro exI [of _ "Suc k"] exI [of _ ?i]) (auto simp: Let_def)
  next
    case 2
    then show ?thesis
      using i eq len by (intro exI [of _ "Suc k"] exI [of _ ?i]) (auto simp: Let_def slot_at_def)
  next
    case 3
    then show ?thesis
      using i eq len by (intro exI [of _ "Suc k"] exI [of _ ?i]) (auto simp: Let_def slot_at_def)
  next
    case 4
    then have rec: "probe_loop (Suc fuel) t sz kk (hash_key kk) h2 first_idx idx =
        probe_loop fuel t sz kk (hash_key kk) h2 first_idx ?i"
      using eq len by (auto simp: Let_def slot_at_def)
    have here: "used (t ! probe_pos ?n h (Suc k)) \<noteq> 0 \<and> \<not> slot_at t kk (probe_pos ?n h (Suc k))"
      using 4 i by simp
    have "?n \<le> Suc k + fuel" using Suc.prems(3) by simp
    from Suc.IH [OF i 4(1) this] obtain m i where m: "Suc k < m" "m \<le> ?n" "unat i = probe_pos ?n h m"
      "\<forall>j. Suc k < j \<and> j < m \<longrightarrow> used (t ! probe_pos ?n h j) \<noteq> 0 \<and> \<not> slot_at t kk (probe_pos ?n h j)"
      and r: "if m = unat sz then probe_loop fuel t sz kk (hash_key kk) h2 first_idx ?i = Some (Stopped i)
       else if slot_at t kk (unat i) then probe_loop fuel t sz kk (hash_key kk) h2 first_idx ?i = Some (Found i)
       else used (t ! unat i) = 0 \<and> probe_loop fuel t sz kk (hash_key kk) h2 first_idx ?i = Some (Stopped i)"
      by blast
    have "\<forall>j. k < j \<and> j < m \<longrightarrow> used (t ! probe_pos ?n h j) \<noteq> 0 \<and> \<not> slot_at t kk (probe_pos ?n h j)"
      using m(4) here by (metis Suc_lessI)
    with m(1-3) r show ?thesis unfolding rec by (intro exI [of _ m] exI [of _ i]) auto
  qed
qed


section \<open>The table invariant\<close>

text \<open>
  Every used slot holds the hash of its key and is reached from the key's first position over
  used slots only; slot 0 is never used; no key is stored twice; \<open>filled\<close> counts the used slots.
\<close>

definition reached :: "'d slot list \<Rightarrow> nat \<Rightarrow> nat \<Rightarrow> bool" where
  "reached t n i \<longleftrightarrow>
     (\<exists>k < n. probe_pos n (unat (used (t ! i))) k = i
        \<and> (\<forall>j < k. used (t ! probe_pos n (unat (used (t ! i))) j) \<noteq> 0))"

definition tab_inv :: "'d slot list \<Rightarrow> nat \<Rightarrow> bool" where
  "tab_inv t n \<longleftrightarrow>
     is_prime n \<and> 3 \<le> n \<and> length t = Suc n \<and> used (t ! 0) = 0
     \<and> (\<forall>i \<le> n. used (t ! i) \<noteq> 0 \<longrightarrow> used (t ! i) = hash_key (key (entry (t ! i))) \<and> reached t n i)
     \<and> (\<forall>i \<le> n. \<forall>j \<le> n. used (t ! i) \<noteq> 0 \<longrightarrow> used (t ! j) \<noteq> 0 \<longrightarrow>
          key (entry (t ! i)) = key (entry (t ! j)) \<longrightarrow> i = j)"

definition htab_inv :: "'d hsearch_data \<Rightarrow> bool" where
  "htab_inv h \<longleftrightarrow>
     (case table h of
        None \<Rightarrow> False
      | Some t \<Rightarrow> tab_inv t (unat (hsize h))
          \<and> unat (filled h) = length (filter (\<lambda>e. used e \<noteq> 0) t))"

text \<open>The map from keys to data a table stands for.\<close>

definition tab_map :: "'d slot list \<Rightarrow> u8 list \<Rightarrow> 'd option" where
  "tab_map t k = map_option (\<lambda>e. data (entry e)) (find (\<lambda>e. used e \<noteq> 0 \<and> key (entry e) = k) t)"

lemma hash_key_nonzero [simp]: "hash_key k \<noteq> 0"
  by (simp add: hash_key_def Let_def)

lemma tab_map_None: "tab_map t k = None \<longleftrightarrow> (\<forall>i < length t. used (t ! i) \<noteq> 0 \<longrightarrow> key (entry (t ! i)) \<noteq> k)"
  by (auto simp: tab_map_def find_None_iff in_set_conv_nth)

lemma tab_map_Some:
  assumes "tab_inv t n" and "i \<le> n" and "used (t ! i) \<noteq> 0" and "key (entry (t ! i)) = k"
  shows "tab_map t k = Some (data (entry (t ! i)))"
proof -
  have len: "length t = Suc n" using assms(1) by (simp add: tab_inv_def)
  then have mem: "t ! i \<in> set t" using assms(2) by simp
  obtain e where e: "find (\<lambda>e. used e \<noteq> 0 \<and> key (entry e) = k) t = Some e"
    using assms(3,4) mem
    by (cases "find (\<lambda>e. used e \<noteq> 0 \<and> key (entry e) = k) t") (auto simp: find_None_iff)
  then obtain j where "j < length t" "used (t ! j) \<noteq> 0" "key (entry (t ! j)) = k" "e = t ! j"
    by (auto simp: find_Some_iff)
  moreover have "i = j"
    using assms calculation len by (simp add: tab_inv_def)
  ultimately show ?thesis using e by (simp add: tab_map_def)
qed

lemma unat_word_mod: "unat ((a :: u32) mod b) = unat a mod unat b"
  by (simp add: unat_mod)

lemma unat_plus_1_less: "Suc (unat x) < 2 ^ 32 \<Longrightarrow> unat (x + 1 :: u32) = Suc (unat x)"
  using unat_of_nat_plus_1 [of "unat x", where ?'a = 32] by simp

lemma hsearch_probe_cases:
  assumes inv: "tab_inv t (unat sz)"
  obtains (found) i where "hsearch_probe t sz k = Some (Found i)" "unat i \<le> unat sz" "slot_at t k (unat i)"
  | (stopped) i m where "hsearch_probe t sz k = Some (Stopped i)" "m \<le> unat sz"
      "unat i = probe_pos (unat sz) (unat (hash_key k)) m"
      "\<forall>j < m. used (t ! probe_pos (unat sz) (unat (hash_key k)) j) \<noteq> 0
         \<and> \<not> slot_at t k (probe_pos (unat sz) (unat (hash_key k)) j)"
      "m < unat sz \<Longrightarrow> used (t ! unat i) = 0"
proof -
  let ?n = "unat sz" and ?h = "unat (hash_key k)"
  have n: "is_prime ?n" "3 \<le> ?n" "length t = Suc ?n"
    using inv by (simp_all add: tab_inv_def)
  define idx where "idx = hash_key k mod sz + 1"
  have mx: "?n < 2 ^ 32" using unsigned_less [of sz] by simp
  have "?h mod ?n < ?n" using n(2) by simp
  then have "Suc (unat (hash_key k mod sz)) < 2 ^ 32" unfolding unat_word_mod using mx by linarith
  from unat_plus_1_less [OF this] have idx: "unat idx = probe_pos ?n ?h 0"
    using n(2) by (simp add: idx_def probe_pos_0 unat_word_mod)
  have rng: "unat idx \<le> ?n" "\<not> length t \<le> unat idx"
    using idx probe_pos_range [of ?n ?h 0] n by simp_all
  have sz: "sz \<noteq> 0" "sz \<noteq> 2" using n(2) by auto
  show ?thesis
  proof (cases "used (t ! unat idx) = 0 \<or> slot_at t k (unat idx)")
    case True
    then show ?thesis
      using found [of idx] stopped [of idx 0] rng sz idx
      by (auto simp: hsearch_probe_def Let_def idx_def [symmetric] slot_at_def split: if_splits)
  next
    case False
    let ?h2 = "1 + hash_key k mod (sz - 2)"
    have s2: "unat (sz - 2) = ?n - 2" using n(2) by (simp add: unat_sub word_le_nat_alt)
    have "?h mod (?n - 2) < ?n - 2" using n(2) by simp
    then have "Suc (unat (hash_key k mod (sz - 2))) < 2 ^ 32" unfolding unat_word_mod s2 using mx by linarith
    from unat_plus_1_less [OF this] have h2: "unat ?h2 = hval2_of ?n ?h"
      by (simp add: hval2_of_def unat_word_mod s2 add.commute)
    have eq: "hsearch_probe t sz k = probe_loop ?n t sz k (hash_key k) ?h2 idx idx"
      using False rng sz by (auto simp: hsearch_probe_def Let_def idx_def [symmetric] slot_at_def)
    obtain m i where m: "0 < m" "m \<le> ?n" "unat i = probe_pos ?n ?h m"
      "\<forall>j. 0 < j \<and> j < m \<longrightarrow> used (t ! probe_pos ?n ?h j) \<noteq> 0 \<and> \<not> slot_at t k (probe_pos ?n ?h j)"
      and r: "if m = ?n then hsearch_probe t sz k = Some (Stopped i)
       else if slot_at t k (unat i) then hsearch_probe t sz k = Some (Found i)
       else used (t ! unat i) = 0 \<and> hsearch_probe t sz k = Some (Stopped i)"
      using probe_loop_result [OF n h2 idx idx, of ?n k] n(2) unfolding eq by auto
    have all: "\<forall>j < m. used (t ! probe_pos ?n ?h j) \<noteq> 0 \<and> \<not> slot_at t k (probe_pos ?n ?h j)"
      using m(4) False idx by (metis gr0I)
    have "unat i \<le> ?n" using m(3) probe_pos_range [of ?n ?h m] n(2) by simp
    then show ?thesis
      using found [of i] stopped [of i m] m all r by (auto split: if_splits)
  qed
qed

text \<open>Stopping the probe means that the key is not in the table.\<close>

lemma stopped_not_stored:
  assumes inv: "tab_inv t (unat sz)" and m: "m \<le> unat sz"
    and before: "\<forall>j < m. \<not> slot_at t k (probe_pos (unat sz) (unat (hash_key k)) j)"
    and free: "m < unat sz \<Longrightarrow> used (t ! probe_pos (unat sz) (unat (hash_key k)) m) = 0"
  shows "tab_map t k = None"
proof -
  let ?n = "unat sz" and ?h = "unat (hash_key k)"
  have len: "length t = Suc ?n" using inv by (simp add: tab_inv_def)
  have "key (entry (t ! i)) \<noteq> k" if i: "i \<le> ?n" "used (t ! i) \<noteq> 0" for i
  proof
    assume k: "key (entry (t ! i)) = k"
    then have u: "used (t ! i) = hash_key k" and "reached t ?n i"
      using inv i by (auto simp: tab_inv_def)
    then obtain q where q: "q < ?n" "probe_pos ?n ?h q = i" "\<forall>j < q. used (t ! probe_pos ?n ?h j) \<noteq> 0"
      by (auto simp: reached_def)
    show False
    proof (cases "q < m")
      case True
      then show False using before q(2) k u by (auto simp: slot_at_def)
    next
      case False
      then have "used (t ! probe_pos ?n ?h m) = 0" using free q(1) by simp
      then show False using False q(2,3) i(2) by (metis nat_neq_iff)
    qed
  qed
  then show ?thesis using len by (simp add: tab_map_None less_Suc_eq_le)
qed

lemma count_used:
  "length (filter (\<lambda>e. used e \<noteq> 0) t) = card {i. i < length t \<and> used (t ! i) \<noteq> 0}"
  by (rule length_filter_conv_card)

text \<open>When the probe came back to its start, every slot is used, so the table is full.\<close>

lemma full_circle:
  assumes inv: "tab_inv t (unat sz)"
    and all: "\<forall>j < unat sz. used (t ! probe_pos (unat sz) h j) \<noteq> 0"
  shows "length (filter (\<lambda>e. used e \<noteq> 0) t) = unat sz"
proof -
  let ?n = "unat sz"
  have n: "is_prime ?n" "3 \<le> ?n" "length t = Suc ?n" "used (t ! 0) = 0"
    using inv by (simp_all add: tab_inv_def)
  have "used (t ! i) \<noteq> 0" if "1 \<le> i" "i \<le> ?n" for i
    using probe_pos_surj [OF n(1,2) that, of h] all by auto
  then have "{i. i < length t \<and> used (t ! i) \<noteq> 0} = {1..?n}"
    using n(3,4) by (auto simp: less_Suc_eq_le Suc_le_eq intro: gr0I)
  then show ?thesis by (simp add: count_used)
qed

lemma filled_le:
  assumes "tab_inv t n" shows "length (filter (\<lambda>e. used e \<noteq> 0) t) \<le> n"
proof -
  have "{i. i < length t \<and> used (t ! i) \<noteq> 0} \<subseteq> {1..n}"
    using assms by (auto simp: tab_inv_def less_Suc_eq_le Suc_le_eq intro: gr0I)
  from card_mono [OF _ this] show ?thesis by (simp add: count_used)
qed

section \<open>Entering a key\<close>

lemma reached_update:
  assumes "reached t n i" and "used (t ! p) = 0" and "used (t ! i) \<noteq> 0"
    and len: "length t = Suc n" "0 < n" and u: "used e \<noteq> 0"
  shows "reached (t[p := e]) n i"
proof -
  have ne: "i \<noteq> p" using assms(2,3) by auto
  have keep: "used (t[p := e] ! q) \<noteq> 0" if "used (t ! q) \<noteq> 0" "q \<le> n" for q
    using that u len by (cases "q = p") auto
  from assms(1) show ?thesis
    using ne keep probe_pos_range [OF len(2)] unfolding reached_def by auto
qed

lemma tab_inv_enter:
  assumes inv: "tab_inv t n" and m: "m < n" "p = probe_pos n (unat (hash_key k)) m"
    and before: "\<forall>j < m. used (t ! probe_pos n (unat (hash_key k)) j) \<noteq> 0"
    and free: "used (t ! p) = 0" and new: "tab_map t k = None" and item: "key item = k"
  shows "tab_inv (t[p := \<lparr>used = hash_key k, entry = item\<rparr>]) n"
proof -
  let ?e = "\<lparr>used = hash_key k, entry = item\<rparr>" and ?t = "t[p := \<lparr>used = hash_key k, entry = item\<rparr>]"
  have n: "is_prime n" "3 \<le> n" "length t = Suc n" "used (t ! 0) = 0"
    using inv by (simp_all add: tab_inv_def)
  have p: "1 \<le> p" "p \<le> n" using probe_pos_range [of n] n(2) m(2) by auto
  have pos: "probe_pos n (unat (hash_key k)) j \<noteq> p" if "j < m" for j
    using that before free by auto
  have "used (?t ! probe_pos n (unat (hash_key k)) j) \<noteq> 0" if "j < m" for j
    using pos [OF that] before that by (metis nth_list_update_neq)
  then have "reached ?t n p"
    unfolding reached_def using m p n(3) by (metis less_Suc_eq_le nth_list_update_eq slot.select_convs(1))
  moreover have "reached ?t n i" if "i \<le> n" "used (t ! i) \<noteq> 0" for i
    using reached_update [OF _ free that(2) n(3), of ?e] inv that n(2) by (simp add: tab_inv_def)
  ultimately have r: "used (?t ! i) = hash_key (key (entry (?t ! i))) \<and> reached ?t n i"
    if "i \<le> n" "used (?t ! i) \<noteq> 0" for i
    using that p n(3) item inv by (cases "i = p") (auto simp: tab_inv_def)
  have nk: "key (entry (t ! i)) \<noteq> k" if "i \<le> n" "used (t ! i) \<noteq> 0" for i
    using new that n(3) by (auto simp: tab_map_None less_Suc_eq_le)
  have d: "i = j" if "i \<le> n" "j \<le> n" "used (?t ! i) \<noteq> 0" "used (?t ! j) \<noteq> 0"
      "key (entry (?t ! i)) = key (entry (?t ! j))" for i j
  proof (cases "i = p \<or> j = p")
    case True
    then show ?thesis using that nk [of i] nk [of j] p n(3) item by (cases "i = p"; cases "j = p") auto
  next
    case False
    then show ?thesis using that inv by (auto simp: tab_inv_def)
  qed
  have "length ?t = Suc n" "used (?t ! 0) = 0" using n(3,4) p(1) by simp_all
  then show ?thesis
    unfolding tab_inv_def using n(1,2) r d by blast
qed

lemma tab_map_enter:
  assumes inv: "tab_inv t n" and inv': "tab_inv (t[p := \<lparr>used = hash_key k, entry = item\<rparr>]) n"
    and p: "p \<le> n" "used (t ! p) = 0" and item: "key item = k"
  shows "tab_map (t[p := \<lparr>used = hash_key k, entry = item\<rparr>]) = (tab_map t)(k \<mapsto> data item)"
proof
  fix k'
  let ?t = "t[p := \<lparr>used = hash_key k, entry = item\<rparr>]"
  have len: "length t = Suc n" using inv by (simp add: tab_inv_def)
  show "tab_map ?t k' = ((tab_map t)(k \<mapsto> data item)) k'"
  proof (cases "k' = k")
    case True
    then show ?thesis
      using tab_map_Some [OF inv' p(1)] p(1) len item by simp
  next
    case F: False
    show ?thesis
    proof (cases "tab_map t k'")
      case None
      then have "tab_map ?t k' = None"
        unfolding tab_map_None using F len item p(1)
        by (metis length_list_update nth_list_update_eq nth_list_update_neq less_Suc_eq_le
              slot.select_convs(2))
      then show ?thesis using F None by simp
    next
      case (Some d)
      then obtain i where i: "i < length t" "used (t ! i) \<noteq> 0" "key (entry (t ! i)) = k'"
        by (auto simp: tab_map_def find_Some_iff)
      then have "i \<noteq> p" "i \<le> n" using p(2) len by auto
      then show ?thesis
        using tab_map_Some [OF inv \<open>i \<le> n\<close> i(2,3)] tab_map_Some [OF inv' \<open>i \<le> n\<close>, of k'] i F
        by simp
    qed
  qed
qed

lemma count_enter:
  assumes "p < length t" "used (t ! p) = 0" "used e \<noteq> 0"
  shows "length (filter (\<lambda>e. used e \<noteq> 0) (t[p := e])) = Suc (length (filter (\<lambda>e. used e \<noteq> 0) t))"
proof -
  have "{i. i < length (t[p := e]) \<and> used (t[p := e] ! i) \<noteq> 0} =
      insert p {i. i < length t \<and> used (t ! i) \<noteq> 0}"
    using assms by (auto simp: nth_list_update)
  then show ?thesis using assms(2) by (simp add: count_used)
qed

end
