(* ===== verification/Hsearch_Map.thy ===== *)
theory Hsearch_Map
  imports Hsearch
begin

text \<open>
  The hash table of \<open>misc/hsearch_r.c\<close> as a bounded map: what \<open>hcreate_r\<close> creates, what a call of
  \<open>hsearch_r\<close> does to the map a table stands for, and the contract a client that enters a sequence
  of keys relies on.
\<close>

section \<open>The map of a table\<close>

definition hmap :: "'d hsearch_data \<Rightarrow> u8 list \<Rightarrow> 'd option" where
  "hmap h = (case table h of None \<Rightarrow> Map.empty | Some t \<Rightarrow> tab_map t)"

text \<open>The entry a returned pointer refers to.\<close>

definition entry_at :: "'d hsearch_data \<Rightarrow> u32 \<Rightarrow> 'd ENTRY option" where
  "entry_at h i =
     (case table h of None \<Rightarrow> None
      | Some t \<Rightarrow> if unat i < length t \<and> used (t ! unat i) \<noteq> 0 then Some (entry (t ! unat i)) else None)"

lemma htab_invE:
  assumes "htab_inv h"
  obtains t where "table h = Some t" "tab_inv t (unat (hsize h))"
    "unat (filled h) = length (filter (\<lambda>e. used e \<noteq> 0) t)"
  using assms by (auto simp: htab_inv_def split: option.splits)

text \<open>
  The two outcomes of a call: the key is stored and its entry is returned, or it is not stored and
  the probe stopped at a free slot, where the chain of the key ends, unless the table is full.
\<close>

lemma hsearch_r_stored:
  assumes inv: "htab_inv h" and d: "hmap h (key item) = Some d"
  shows "\<exists>i. hsearch_r item action h =
      Some \<lparr>res_errno = None, res_ok = True, res_retval = Some i, res_htab = h\<rparr>
    \<and> entry_at h i = Some \<lparr>key = key item, data = d\<rparr>"
proof -
  obtain t where t: "table h = Some t" "tab_inv t (unat (hsize h))"
    using inv by (rule htab_invE)
  have m: "tab_map t (key item) = Some d" using d t by (simp add: hmap_def)
  have len: "length t = Suc (unat (hsize h))" using t(2) by (simp add: tab_inv_def)
  from t(2) show ?thesis
  proof (cases rule: hsearch_probe_cases [where k = "key item"])
    case (found i)
    then have "used (t ! unat i) \<noteq> 0" "key (entry (t ! unat i)) = key item"
      by (auto simp: slot_at_def)
    moreover from this have "data (entry (t ! unat i)) = d"
      using tab_map_Some [OF t(2) found(2)] m by simp
    ultimately show ?thesis
      using found t(1) len by (simp add: hsearch_r_def entry_at_def)
  next
    case (stopped i m)
    then have "tab_map t (key item) = None"
      using stopped_not_stored [OF t(2), of m "key item"] by simp
    then show ?thesis using m by simp
  qed
qed

lemma hsearch_r_absent:
  assumes inv: "htab_inv h" and d: "hmap h (key item) = None"
  obtains (full) t i where "table h = Some t"
      "hsearch_probe t (hsize h) (key item) = Some (Stopped i)" "filled h = hsize h"
  | (free) t i m where "table h = Some t"
      "hsearch_probe t (hsize h) (key item) = Some (Stopped i)" "filled h \<noteq> hsize h"
      "m < unat (hsize h)" "unat i = probe_pos (unat (hsize h)) (unat (hash_key (key item))) m"
      "\<forall>j < m. used (t ! probe_pos (unat (hsize h)) (unat (hash_key (key item))) j) \<noteq> 0"
      "used (t ! unat i) = 0"
proof -
  obtain t where t: "table h = Some t" "tab_inv t (unat (hsize h))"
    "unat (filled h) = length (filter (\<lambda>e. used e \<noteq> 0) t)"
    using inv by (rule htab_invE)
  from t(2) show ?thesis
  proof (cases rule: hsearch_probe_cases [where k = "key item"])
    case (found i)
    then have "tab_map t (key item) \<noteq> None"
      using tab_map_Some [OF t(2) found(2)] by (auto simp: slot_at_def)
    then show ?thesis using d t(1) by (simp add: hmap_def)
  next
    case (stopped i m)
    show ?thesis
    proof (cases "filled h = hsize h")
      case True
      then show ?thesis using full t(1) stopped(1) by blast
    next
      case False
      have "m < unat (hsize h)"
      proof (rule ccontr)
        assume "\<not> m < unat (hsize h)"
        then have "unat (filled h) = unat (hsize h)"
          using full_circle [OF t(2), of "unat (hash_key (key item))"] stopped(2,4) t(3) by simp
        then show False using False by (simp add: word_unat_eq_iff)
      qed
      then show ?thesis using free [of t i m] t(1) stopped False by auto
    qed
  qed
qed

lemma hsearch_r_enter_new:
  assumes inv: "htab_inv h" and d: "hmap h (key item) = None" and room: "filled h \<noteq> hsize h"
  shows "\<exists>i h'. hsearch_r item ENTER h =
        Some \<lparr>res_errno = None, res_ok = True, res_retval = Some i, res_htab = h'\<rparr>
    \<and> entry_at h' i = Some item \<and> htab_inv h' \<and> hmap h' = (hmap h)(key item \<mapsto> data item)
    \<and> hsize h' = hsize h \<and> unat (filled h') = Suc (unat (filled h))"
  using inv d
proof (cases rule: hsearch_r_absent)
  case full
  then show ?thesis using room by simp
next
  case (free t i m)
  have t: "tab_inv t (unat (hsize h))" and f: "unat (filled h) = length (filter (\<lambda>e. used e \<noteq> 0) t)"
    using inv free(1) by (auto simp: htab_inv_def)
  have len: "length t = Suc (unat (hsize h))" "3 \<le> unat (hsize h)" using t by (simp_all add: tab_inv_def)
  have i: "unat i \<le> unat (hsize h)" using free(5) probe_pos_range [of "unat (hsize h)"] len(2) by simp
  let ?e = "\<lparr>used = hash_key (key item), entry = item\<rparr>"
  let ?h = "h\<lparr>table := Some (t[unat i := ?e]), filled := filled h + 1\<rparr>"
  have inv': "tab_inv (t[unat i := ?e]) (unat (hsize h))"
    using tab_inv_enter [OF t free(4,5,6,7)] d free(1) by (simp add: hmap_def)
  have n: "unat (filled h) < unat (hsize h)"
    using filled_le [OF t] f room by (simp add: word_unat_eq_iff)
  then have f': "unat (filled h + 1) = Suc (unat (filled h))"
    using unsigned_less [of "hsize h", where ?'a = nat] by (intro unat_plus_1_less) simp
  have "htab_inv ?h"
    using inv' f f' count_enter [of "unat i" t ?e] i len(1) free(7) by (simp add: htab_inv_def)
  moreover have "hmap ?h = (hmap h)(key item \<mapsto> data item)"
    using tab_map_enter [OF t inv' i free(7)] free(1) by (simp add: hmap_def)
  ultimately show ?thesis
    using free(1,2,3) f' i len(1) by (intro exI [of _ i] exI [of _ ?h]) (simp add: hsearch_r_def entry_at_def)
qed

section \<open>A created table\<close>

lemma hcreate_size_Some:
  "hcreate_size nel = Some n \<Longrightarrow>
     nel \<le> n \<and> n \<le> UINT_MAX - 2 \<and> even (n - nel) \<and> isprime n
     \<and> (\<forall>q. nel \<le> q \<and> q < n \<and> even (q - nel) \<longrightarrow> \<not> isprime q)"
proof (induction nel rule: hcreate_size.induct)
  case (1 nel)
  show ?case
  proof (cases "isprime nel \<or> UINT_MAX - 2 < nel")
    case True
    then show ?thesis using "1.prems" by (auto simp: hcreate_size.simps [of nel] split: if_splits)
  next
    case False
    then have h: "hcreate_size (nel + 2) = Some n"
      using "1.prems" by (simp add: hcreate_size.simps [of nel])
    from "1.IH" [OF _ _ h] False
    have ih: "nel + 2 \<le> n" "n \<le> UINT_MAX - 2" "even (n - (nel + 2))" "isprime n"
      "\<And>q. nel + 2 \<le> q \<Longrightarrow> q < n \<Longrightarrow> even (q - (nel + 2)) \<Longrightarrow> \<not> isprime q"
      by auto
    have "\<not> isprime q" if "nel \<le> q" "q < n" "even (q - nel)" for q
    proof -
      have "q = nel \<or> nel + 2 \<le> q" using that(1,3) by presburger
      then show ?thesis using False ih(5) [of q] that by auto
    qed
    moreover have "even (n - nel)" using ih(1,3) by auto
    ultimately show ?thesis using ih by auto
  qed
qed

lemma hcreate_size_None:
  "hcreate_size nel = None \<Longrightarrow>
     \<not> (\<exists>q. nel \<le> q \<and> q \<le> UINT_MAX - 2 \<and> even (q - nel) \<and> isprime q)"
proof (induction nel rule: hcreate_size.induct)
  case (1 nel)
  show ?case
  proof (cases "UINT_MAX - 2 < nel")
    case True
    then show ?thesis by auto
  next
    case False
    then have np: "\<not> isprime nel" and h: "hcreate_size (nel + 2) = None"
      using "1.prems" by (auto simp: hcreate_size.simps [of nel] split: if_splits)
    have "q = nel \<or> nel + 2 \<le> q \<and> even (q - (nel + 2))" if "nel \<le> q" "even (q - nel)" for q
      using that by presburger
    then show ?thesis using "1.IH" [OF False np h] np by metis
  qed
qed

text \<open>What the code relies on from \<open>calloc\<close>: a block is as long as asked for, and zeroed.\<close>

definition calloc_ok :: "(nat \<Rightarrow> 'd slot list option) \<Rightarrow> bool" where
  "calloc_ok calloc \<longleftrightarrow> (\<forall>n t. calloc n = Some t \<longrightarrow> length t = n \<and> (\<forall>e \<in> set t. used e = 0))"

lemma or_1_bounds: "odd (unat (x OR 1 :: u64))" "unat x \<le> unat (x OR 1)"
proof -
  have "unat (x OR 1) = unat x OR 1" by (simp add: unsigned_or_eq)
  then have "unat (x OR 1) = unat x + of_bool (even (unat x))" by (simp only: or_one_eq)
  then show "odd (unat (x OR 1))" "unat x \<le> unat (x OR 1)" by simp_all
qed

lemma hcreate_nel_bounds:
  fixes nel :: u64
  defines "n \<equiv> unat ((if nel < 3 then 3 else nel) OR 1)"
  shows "odd n" "3 \<le> n" "unat nel \<le> n"
proof -
  let ?x = "if nel < 3 then 3 else nel"
  have x: "3 \<le> unat ?x" "unat nel \<le> unat ?x" by (auto simp: word_less_nat_alt)
  show "odd n" unfolding n_def by (rule or_1_bounds)
  show "3 \<le> n" "unat nel \<le> n" unfolding n_def using or_1_bounds(2) [of ?x] x by linarith+
qed

text \<open>
  The size found is the least prime that is at least the size asked for, made odd and at least 3;
  the descriptor is a table that holds nothing.
\<close>

lemma hcreate_r_Some:
  assumes cal: "calloc_ok calloc" and r: "hcreate_r calloc nel (Some h0) = (None, True, Some h)"
  shows "htab_inv h \<and> hmap h = Map.empty \<and> filled h = 0
    \<and> is_prime (unat (hsize h)) \<and> unat nel \<le> unat (hsize h)"
proof -
  let ?n = "unat ((if nel < 3 then 3 else nel) OR 1)"
  obtain n t where n: "hcreate_size ?n = Some n" and t: "calloc (n + 1) = Some t"
    and h: "h = h0\<lparr>hsize := of_nat n, filled := 0, table := Some t\<rparr>"
    using r by (auto simp: hcreate_r_def Let_def split: option.splits if_splits)
  from hcreate_size_Some [OF n] hcreate_nel_bounds [of nel]
  have b: "?n \<le> n" "n \<le> UINT_MAX - 2" "odd n" "isprime n" "3 \<le> n" "unat nel \<le> n"
    by (simp_all add: even_diff_nat) linarith+
  then have p: "is_prime n" using isprime_correct by blast
  have u: "unat (of_nat n :: u32) = n" using b(2) by (simp add: UINT_MAX_def unat_of_nat take_bit_nat_eq_self)
  have z: "length t = Suc n" "\<And>i. i \<le> n \<Longrightarrow> used (t ! i) = 0" "\<forall>e \<in> set t. used e = 0"
    using cal t by (auto simp: calloc_ok_def)
  have "tab_inv t n" using p b z by (simp add: tab_inv_def)
  moreover have "tab_map t = Map.empty" using z by (auto simp: tab_map_None fun_eq_iff less_Suc_eq_le)
  moreover have "filter (\<lambda>e. used e \<noteq> 0) t = []" using z(3) by (auto simp: filter_empty_conv)
  ultimately show ?thesis using h u p b by (simp add: htab_inv_def hmap_def)
qed

text \<open>The keys of a table are as many as its used slots.\<close>

lemma finite_dom_tab_map: "finite (dom (tab_map t))"
proof (rule finite_subset)
  show "dom (tab_map t) \<subseteq> (key \<circ> entry) ` set t"
    by (auto simp: tab_map_def find_Some_iff image_iff intro!: bexI [OF _ nth_mem])
qed simp

lemma card_dom_tab_map:
  assumes inv: "tab_inv t n"
  shows "card (dom (tab_map t)) = length (filter (\<lambda>e. used e \<noteq> 0) t)"
proof -
  let ?I = "{i. i < length t \<and> used (t ! i) \<noteq> 0}" and ?k = "\<lambda>i. key (entry (t ! i))"
  have len: "length t = Suc n" using inv by (simp add: tab_inv_def)
  have inj: "inj_on ?k ?I"
  proof (rule inj_onI)
    fix i j
    assume "i \<in> ?I" "j \<in> ?I" "?k i = ?k j"
    then have "i \<le> n" "j \<le> n" "used (t ! i) \<noteq> 0" "used (t ! j) \<noteq> 0" using len by auto
    then show "i = j" using inv \<open>?k i = ?k j\<close> unfolding tab_inv_def by blast
  qed
  have "k \<in> dom (tab_map t) \<longleftrightarrow> k \<in> ?k ` ?I" for k
    using tab_map_None [of t k] by (auto simp: domIff)
  then have "?k ` ?I = dom (tab_map t)" by blast
  then show ?thesis using card_image [OF inj] by (simp only: count_used)
qed

section \<open>A bounded map\<close>

text \<open>
  The contract of the table as its clients use it: a key that is stored stays with its first datum,
  a new key is refused only when as many keys are stored as the table has room for.
\<close>

locale bounded_map =
  fixes inv :: "'s \<Rightarrow> bool" and lookup :: "'s \<Rightarrow> 'k \<Rightarrow> 'v option"
    and capacity :: "'s \<Rightarrow> nat" and enter :: "'k \<Rightarrow> 'v \<Rightarrow> 's \<Rightarrow> 's option"
  assumes finite_keys: "inv s \<Longrightarrow> finite (dom (lookup s))"
    and enter_stored: "inv s \<Longrightarrow> lookup s k \<noteq> None \<Longrightarrow> enter k v s = Some s"
    and enter_new: "inv s \<Longrightarrow> lookup s k = None \<Longrightarrow> card (dom (lookup s)) < capacity s \<Longrightarrow>
      \<exists>s'. enter k v s = Some s' \<and> inv s' \<and> lookup s' = (lookup s)(k \<mapsto> v) \<and> capacity s' = capacity s"
    and enter_full: "inv s \<Longrightarrow> lookup s k = None \<Longrightarrow> capacity s \<le> card (dom (lookup s)) \<Longrightarrow> enter k v s = None"
begin

primrec enter_all :: "('k \<times> 'v) list \<Rightarrow> 's \<Rightarrow> 's option" where
  "enter_all [] s = Some s"
| "enter_all (kv # kvs) s = (case enter (fst kv) (snd kv) s of None \<Rightarrow> None | Some s' \<Rightarrow> enter_all kvs s')"

lemma enter_all_succeeds:
  "inv s \<Longrightarrow> card (fst ` set kvs \<union> dom (lookup s)) \<le> capacity s \<Longrightarrow>
     \<exists>s'. enter_all kvs s = Some s' \<and> inv s' \<and> lookup s' = map_of kvs ++ lookup s
       \<and> capacity s' = capacity s"
proof (induction kvs arbitrary: s)
  case (Cons kv kvs)
  obtain k v where kv: "kv = (k, v)" by (cases kv)
  show ?case
  proof (cases "lookup s k")
    case (Some w)
    then have "insert k (fst ` set kvs \<union> dom (lookup s)) = fst ` set kvs \<union> dom (lookup s)" by auto
    moreover have "map_of kvs ++ lookup s = map_of (kv # kvs) ++ lookup s"
      using Some kv by (auto simp: fun_eq_iff map_add_def split: option.splits)
    ultimately show ?thesis
      using Cons.IH [OF Cons.prems(1)] Cons.prems Some kv enter_stored [of s k v]
      by (simp add: fun_upd_def)
  next
    case None
    then have "k \<notin> dom (lookup s)" by auto
    then have "card (dom (lookup s)) < card (insert k (fst ` set kvs \<union> dom (lookup s)))"
      using finite_keys [OF Cons.prems(1)] by (intro psubset_card_mono) auto
    then obtain s' where s': "enter k v s = Some s'" "inv s'" "lookup s' = (lookup s)(k \<mapsto> v)"
      "capacity s' = capacity s"
      using enter_new [OF Cons.prems(1) None, of v] Cons.prems(2) kv by auto
    have "map_of kvs ++ lookup s' = map_of (kv # kvs) ++ lookup s"
      using None kv s'(3) by (auto simp: fun_eq_iff map_add_def split: option.splits)
    moreover have "fst ` set kvs \<union> dom (lookup s') = fst ` set (kv # kvs) \<union> dom (lookup s)"
      using kv s'(3) by auto
    ultimately show ?thesis
      using Cons.IH [OF s'(2)] Cons.prems(2) s' kv by (simp add: fun_upd_def)
  qed
qed (simp add: map_add_def fun_eq_iff split: option.splits)

end

text \<open>One call of \<open>hsearch_r\<close> to enter a key, seen as a partial step of the descriptor.\<close>

definition hsearch_enter :: "u8 list \<Rightarrow> 'd \<Rightarrow> 'd hsearch_data \<Rightarrow> 'd hsearch_data option" where
  "hsearch_enter k d h =
     (case hsearch_r \<lparr>key = k, data = d\<rparr> ENTER h of
        None \<Rightarrow> None
      | Some r \<Rightarrow> if res_ok r then Some (res_htab r) else None)"

lemma hsearch_r_enter_full:
  assumes "htab_inv h" "hmap h (key item) = None" "filled h = hsize h"
  shows "hsearch_r item ENTER h =
      Some \<lparr>res_errno = Some ENOMEM, res_ok = False, res_retval = None, res_htab = h\<rparr>"
  using assms(1,2)
  by (cases rule: hsearch_r_absent) (use assms(3) in \<open>simp_all add: hsearch_r_def\<close>)

lemma card_hmap:
  assumes "htab_inv h" shows "finite (dom (hmap h))" "card (dom (hmap h)) = unat (filled h)"
  using assms by (auto elim!: htab_invE simp: hmap_def finite_dom_tab_map card_dom_tab_map)

interpretation hs: bounded_map htab_inv hmap "\<lambda>h. unat (hsize h)" hsearch_enter
proof
  fix h :: "'a hsearch_data" and k v
  assume inv: "htab_inv h"
  show "finite (dom (hmap h))" using card_hmap [OF inv] by simp
  show "hsearch_enter k v h = Some h" if "hmap h k \<noteq> None"
    using hsearch_r_stored [OF inv, of "\<lparr>key = k, data = v\<rparr>" _ ENTER] that by (auto simp: hsearch_enter_def)
  assume new: "hmap h k = None"
  show "\<exists>h'. hsearch_enter k v h = Some h' \<and> htab_inv h' \<and> hmap h' = (hmap h)(k \<mapsto> v)
      \<and> unat (hsize h') = unat (hsize h)"
    if "card (dom (hmap h)) < unat (hsize h)"
  proof -
    have "filled h \<noteq> hsize h" using that card_hmap(2) [OF inv] by auto
    then show ?thesis
      using hsearch_r_enter_new [OF inv, of "\<lparr>key = k, data = v\<rparr>"] new by (auto simp: hsearch_enter_def)
  qed
  show "hsearch_enter k v h = None" if "unat (hsize h) \<le> card (dom (hmap h))"
  proof -
    have "unat (filled h) \<le> unat (hsize h)"
      using inv filled_le by (auto elim!: htab_invE)
    then have "filled h = hsize h"
      using that card_hmap(2) [OF inv] by (simp add: word_unat_eq_iff)
    then show ?thesis
      using hsearch_r_enter_full [OF inv, of "\<lparr>key = k, data = v\<rparr>"] new by (simp add: hsearch_enter_def)
  qed
qed

section \<open>The properties of the table\<close>

lemma hcreate_nel_le:
  fixes nel :: u64
  assumes "odd q" "3 \<le> q" "unat nel \<le> q"
  shows "unat ((if nel < 3 then 3 else nel) OR 1) \<le> q"
proof -
  let ?x = "if nel < 3 then 3 else nel"
  have x: "unat ?x \<le> q" using assms by auto
  have "unat (?x OR 1) = unat ?x OR 1" by (simp add: unsigned_or_eq)
  also have "\<dots> = unat ?x + of_bool (even (unat ?x))" by (simp only: or_one_eq)
  finally show ?thesis using x \<open>odd q\<close> by (cases "unat ?x = q") auto
qed

lemma hcreate_size_least:
  fixes nel :: u64
  assumes n: "hcreate_size (unat ((if nel < 3 then 3 else nel) OR 1)) = Some n"
  shows "is_prime n" "3 \<le> n" "unat nel \<le> n" "n \<le> UINT_MAX - 2"
    "\<And>q. is_prime q \<Longrightarrow> 3 \<le> q \<Longrightarrow> unat nel \<le> q \<Longrightarrow> n \<le> q"
proof -
  let ?n = "unat ((if nel < 3 then 3 else nel) OR 1)"
  from hcreate_size_Some [OF n] hcreate_nel_bounds [of nel]
  have b: "?n \<le> n" "n \<le> UINT_MAX - 2" "odd n" "isprime n"
    "\<And>q. ?n \<le> q \<Longrightarrow> q < n \<Longrightarrow> odd q \<Longrightarrow> \<not> isprime q"
    by (simp_all add: even_diff_nat) linarith
  show "3 \<le> n" "unat nel \<le> n" using b(1) hcreate_nel_bounds [of nel] by linarith+
  then show "is_prime n" using b isprime_correct by blast
  show "n \<le> UINT_MAX - 2" by (rule b)
  show "n \<le> q" if q: "is_prime q" "3 \<le> q" "unat nel \<le> q" for q
  proof (rule ccontr)
    assume "\<not> n \<le> q"
    have odd: "odd q" using q(1,2) by (auto simp: is_prime_def)
    then have "?n \<le> q" using q hcreate_nel_le by blast
    then show False using b(5) [of q] \<open>\<not> n \<le> q\<close> odd q isprime_correct [of q] by simp
  qed
qed

lemma hcreate_size_refused:
  fixes nel :: u64
  assumes n: "hcreate_size (unat ((if nel < 3 then 3 else nel) OR 1)) = None"
    and q: "is_prime q" "3 \<le> q" "unat nel \<le> q"
  shows "UINT_MAX - 2 < q"
proof (rule ccontr)
  assume le: "\<not> UINT_MAX - 2 < q"
  have odd: "odd q" using q(1,2) by (auto simp: is_prime_def)
  then have "unat ((if nel < 3 then 3 else nel) OR 1) \<le> q" using q hcreate_nel_le by blast
  then show False
    using hcreate_size_None [OF n] le odd hcreate_nel_bounds(1) [of nel] isprime_correct [of q] q
    by (auto simp: even_diff_nat not_less)
qed

text \<open>
  C14: \<open>hcreate_r\<close> on a fresh descriptor.  If no prime between the size asked for (at least 3) and
  \<open>UINT_MAX - 2\<close> exists, it fails with \<open>ENOMEM\<close>.  Otherwise it succeeds unless \<open>calloc\<close> fails, and
  then the descriptor is an empty table that satisfies the invariant, whose size is the least
  such prime.
\<close>

theorem hcreate_r_least_prime:
  assumes cal: "calloc_ok calloc" and fresh: "table h0 = None"
    and r: "hcreate_r calloc nel (Some h0) = (e, ok, Some h)"
  shows "if e = Some ENOMEM
    then \<not> ok \<and> h = h0
      \<and> \<not> (\<exists>q. is_prime q \<and> 3 \<le> q \<and> unat nel \<le> q \<and> q \<le> UINT_MAX - 2)
    else is_prime (unat (hsize h)) \<and> 3 \<le> unat (hsize h) \<and> unat nel \<le> unat (hsize h)
      \<and> (\<forall>q. is_prime q \<longrightarrow> 3 \<le> q \<longrightarrow> unat nel \<le> q \<longrightarrow> unat (hsize h) \<le> q)
      \<and> table h = calloc (unat (hsize h) + 1) \<and> ok = (table h \<noteq> None)
      \<and> (ok \<longrightarrow> htab_inv h \<and> hmap h = Map.empty)"
proof (cases "hcreate_size (unat ((if nel < 3 then 3 else nel) OR 1))")
  case None
  then show ?thesis
    using hcreate_size_refused [OF None] r fresh
    by (auto simp: hcreate_r_def Let_def) (meson leD)
next
  case (Some n)
  note least = hcreate_size_least [OF Some]
  have u: "unat (of_nat n :: u32) = n"
    using least(4) by (simp add: UINT_MAX_def unat_of_nat take_bit_nat_eq_self)
  have h: "e = None" "h = h0\<lparr>hsize := of_nat n, filled := 0, table := calloc (n + 1)\<rparr>"
    "ok = (table h \<noteq> None)"
    using r fresh Some by (auto simp: hcreate_r_def Let_def)
  have "ok \<longrightarrow> htab_inv h \<and> hmap h = Map.empty"
    using hcreate_r_Some [OF cal, of nel h0 h] r h(1) by auto
  then show ?thesis using least h u by simp
qed

definition calloc_zeroed :: "nat \<Rightarrow> nat slot list option" where
  "calloc_zeroed n = Some (replicate n \<lparr>used = 0, entry = \<lparr>key = [], data = 0\<rparr>\<rparr>)"

lemma calloc_zeroed_ok: "calloc_ok calloc_zeroed"
  by (simp add: calloc_ok_def calloc_zeroed_def)

definition fresh_htab :: "nat hsearch_data" where
  "fresh_htab = \<lparr>table = None, hsize = 0, filled = 0\<rparr>"

definition small_htab :: "nat hsearch_data" where
  "small_htab = \<lparr>table = calloc_zeroed 4, hsize = 3, filled = 0\<rparr>"

lemma hcreate_small: "hcreate_r calloc_zeroed 2 (Some fresh_htab) = (None, True, Some small_htab)"
  by (simp add: hcreate_r_def fresh_htab_def small_htab_def calloc_zeroed_def hcreate_size.simps
        UINT_MAX_def isprime_def isprime_loop.simps Let_def)

theorem hcreate_r_least_prime_witness:
  "calloc_ok calloc_zeroed \<and> table fresh_htab = None
   \<and> hcreate_r calloc_zeroed 2 (Some fresh_htab) = (None, True, Some small_htab)
   \<and> htab_inv small_htab \<and> hmap small_htab = Map.empty"
  using hcreate_r_least_prime [OF calloc_zeroed_ok _ hcreate_small] calloc_zeroed_ok hcreate_small
  by (simp add: fresh_htab_def)

lemma small_htab_inv: "htab_inv small_htab"
  using hcreate_r_Some [OF calloc_zeroed_ok hcreate_small] by simp

text \<open>
  C2: every call of \<open>hsearch_r\<close> on a valid table returns and keeps the table valid, and does to the
  map the table stands for what its contract says: a stored key is found whatever the action, and
  its entry is left alone; an absent key is \<open>ESRCH\<close> for \<open>FIND\<close>; for \<open>ENTER\<close> it is added, unless
  the table is full, which is \<open>ENOMEM\<close>.  The index returned is the index of the entry.
\<close>

theorem hsearch_r_refines_map:
  assumes "htab_inv h"
  shows "\<exists>r. hsearch_r item action h = Some r \<and> htab_inv (res_htab r)
    \<and> (case hmap h (key item) of
         Some d \<Rightarrow> res_ok r \<and> res_htab r = h
           \<and> (\<exists>i. res_retval r = Some i \<and> entry_at h i = Some \<lparr>key = key item, data = d\<rparr>)
       | None \<Rightarrow>
           (if action = FIND
            then r = \<lparr>res_errno = Some ESRCH, res_ok = False, res_retval = None, res_htab = h\<rparr>
            else if filled h = hsize h
            then r = \<lparr>res_errno = Some ENOMEM, res_ok = False, res_retval = None, res_htab = h\<rparr>
            else res_ok r \<and> hmap (res_htab r) = (hmap h)(key item \<mapsto> data item)
              \<and> hsize (res_htab r) = hsize h \<and> unat (filled (res_htab r)) = Suc (unat (filled h))
              \<and> (\<exists>i. res_retval r = Some i \<and> entry_at (res_htab r) i = Some item)))"
proof (cases "hmap h (key item)")
  case (Some d)
  then show ?thesis using hsearch_r_stored [OF assms Some, of action] assms by auto
next
  case None
  show ?thesis
  proof (cases action)
    case FIND
    have "hsearch_r item FIND h =
        Some \<lparr>res_errno = Some ESRCH, res_ok = False, res_retval = None, res_htab = h\<rparr>"
      using assms None by (cases rule: hsearch_r_absent) (simp_all add: hsearch_r_def)
    then show ?thesis using FIND None assms by simp
  next
    case ENTER
    show ?thesis
    proof (cases "filled h = hsize h")
      case True
      then show ?thesis using hsearch_r_enter_full [OF assms None] ENTER None assms by simp
    next
      case False
      then show ?thesis using hsearch_r_enter_new [OF assms None False] ENTER None by force
    qed
  qed
qed

theorem hsearch_r_refines_map_witness:
  "htab_inv small_htab \<and>
   (\<exists>r. hsearch_r \<lparr>key = [97], data = 5\<rparr> ENTER small_htab = Some r \<and> htab_inv (res_htab r)
      \<and> hmap (res_htab r) = [[97] \<mapsto> 5])"
proof -
  have "hmap small_htab = Map.empty" "filled small_htab \<noteq> hsize small_htab"
    using hcreate_r_Some [OF calloc_zeroed_ok hcreate_small] by (simp_all add: small_htab_def)
  then show ?thesis
    using hsearch_r_refines_map [OF small_htab_inv, of "\<lparr>key = [97], data = 5\<rparr>" ENTER] small_htab_inv
    by auto
qed

text \<open>The calls a client makes to enter a list of keys; it stops at the first failure.\<close>

primrec hsearch_enter_all :: "(u8 list \<times> 'd) list \<Rightarrow> 'd hsearch_data \<Rightarrow> 'd hsearch_data option" where
  "hsearch_enter_all [] h = Some h"
| "hsearch_enter_all (kd # kds) h =
     (case hsearch_enter (fst kd) (snd kd) h of None \<Rightarrow> None | Some h' \<Rightarrow> hsearch_enter_all kds h')"

lemma hsearch_enter_all_eq: "hsearch_enter_all kds h = hs.enter_all kds h"
  by (induction kds arbitrary: h) (auto split: option.splits)

text \<open>
  C9: a table created for \<open>nel\<close> elements takes every sequence of entries with at most \<open>nel\<close> distinct
  keys: no call fails, and the keys stored at the end are those entered, each with the datum it was
  entered with first.
\<close>

theorem hsearch_session:
  assumes "calloc_ok calloc" and "hcreate_r calloc nel (Some h0) = (None, True, Some h)"
    and "card (fst ` set kds) \<le> unat nel"
  shows "\<exists>h'. hsearch_enter_all kds h = Some h' \<and> htab_inv h' \<and> hmap h' = map_of kds"
  using hs.enter_all_succeeds [of h kds] hcreate_r_Some [OF assms(1,2)] assms(3)
  by (auto simp: hsearch_enter_all_eq)

theorem hsearch_session_witness:
  "\<exists>h'. hsearch_enter_all [([97], 5), ([98], 6), ([97], 7)] small_htab = Some h'
     \<and> htab_inv h' \<and> hmap h' [97] = Some 5 \<and> hmap h' [98] = Some 6"
proof -
  have "card (fst ` set [([97 :: u8], 5 :: nat), ([98], 6), ([97], 7)]) \<le> unat (2 :: u64)"
    by (simp add: card_insert_if)
  from hsearch_session [OF calloc_zeroed_ok hcreate_small this] show ?thesis by auto
qed

end
