(* ===== verification/Qsort.thy ===== *)
theory Qsort
  imports Glibc_Prelude
begin

text \<open>
  Sorting and searching arrays: \<open>stdlib/qsort.c\<close> with \<open>sysdeps/generic/memswap.h\<close>,
  \<open>bits/stdlib-bsearch.h\<close> and \<open>misc/lsearch.c\<close>.

  The functions work on the byte memory.  A pointer is an address, a natural number; a pointer
  stored in memory takes eight bytes, low byte first.  The comparison callback (with its closure
  argument applied) gets the memory and two addresses and returns an integer.  Index arithmetic is
  on natural numbers: an object has at most \<open>PTRDIFF_MAX\<close> bytes, so the indices of its elements do
  not wrap; the size of the auxiliary buffer, which is computed before the array is looked at, is
  a 64-bit word.  \<open>None\<close> is a swap that leaves its operands or a loop that does not end.
\<close>

type_synonym compar_d_fn = "mem \<Rightarrow> nat \<Rightarrow> nat \<Rightarrow> int"

section \<open>Swapping two blocks\<close>

text \<open>One load and store of \<open>w\<close> bytes in each direction.\<close>

definition swap_unit :: "nat \<Rightarrow> mem \<Rightarrow> nat \<Rightarrow> nat \<Rightarrow> mem" where
  "swap_unit w m a b = (let t = mem_read m a w in mem_write (memcpy m a b w) b t)"

function swap_words :: "nat \<Rightarrow> mem \<Rightarrow> nat \<Rightarrow> nat \<Rightarrow> nat \<Rightarrow> mem option" where
  "swap_words w m a b n =
     (if w = 0 \<or> n < w then None
      else (let n' = n - w; m' = swap_unit w m (a + n') (b + n')
            in if n' = 0 then Some m' else swap_words w m' a b n'))"
  by pat_completeness auto
termination
  by (relation "measure (\<lambda>(w, m, a, b, n). n)") auto

declare swap_words.simps [simp del]

definition swap_words_64 :: "mem \<Rightarrow> nat \<Rightarrow> nat \<Rightarrow> nat \<Rightarrow> mem option" where
  "swap_words_64 = swap_words 8"

definition swap_words_32 :: "mem \<Rightarrow> nat \<Rightarrow> nat \<Rightarrow> nat \<Rightarrow> mem option" where
  "swap_words_32 = swap_words 4"

primrec memswap_bytes :: "mem \<Rightarrow> nat \<Rightarrow> nat \<Rightarrow> nat \<Rightarrow> mem" where
  "memswap_bytes m p1 p2 0 = m"
| "memswap_bytes m p1 p2 (Suc n) = memswap_bytes (swap_unit 1 m (p1 + n) (p2 + n)) p1 p2 n"

function memswap :: "mem \<Rightarrow> nat \<Rightarrow> nat \<Rightarrow> nat \<Rightarrow> mem" where
  "memswap m p1 p2 n =
     (if 32 < n then memswap (swap_unit 32 m p1 p2) (p1 + 32) (p2 + 32) (n - 32)
      else memswap_bytes m p1 p2 n)"
  by pat_completeness auto
termination
  by (relation "measure (\<lambda>(m, p1, p2, n). n)") auto

declare memswap.simps [simp del]

datatype swap_type_t = SWAP_WORDS_64 | SWAP_WORDS_32 | SWAP_VOID_ARG | SWAP_BYTES

definition do_swap :: "mem \<Rightarrow> nat \<Rightarrow> nat \<Rightarrow> nat \<Rightarrow> swap_type_t \<Rightarrow> mem option" where
  "do_swap m a b sz swap_type =
     (if swap_type = SWAP_WORDS_64 then swap_words_64 m a b sz
      else if swap_type = SWAP_WORDS_32 then swap_words_32 m a b sz
      else Some (memswap m a b sz))"

definition get_swap_type :: "nat \<Rightarrow> nat \<Rightarrow> swap_type_t" where
  "get_swap_type pbase sz =
     (if sz mod 4 = 0 \<and> pbase mod 4 = 0
      then (if sz = 4 then SWAP_WORDS_32
            else if sz = 8 \<and> pbase mod 8 = 0 then SWAP_WORDS_64
            else SWAP_BYTES)
      else SWAP_BYTES)"

section \<open>Heapsort\<close>

function siftdown ::
  "mem \<Rightarrow> nat \<Rightarrow> nat \<Rightarrow> nat \<Rightarrow> nat \<Rightarrow> swap_type_t \<Rightarrow> compar_d_fn \<Rightarrow> mem option" where
  "siftdown m base sz k n swap_type cmp =
     (if 2 * k + 1 \<le> n
      then (let j0 = 2 * k + 1;
                j = (if j0 < n \<and> cmp m (base + j0 * sz) (base + (j0 + 1) * sz) < 0
                     then j0 + 1 else j0)
            in if j = k \<or> 0 \<le> cmp m (base + k * sz) (base + j * sz) then Some m
               else (case do_swap m (base + sz * j) (base + k * sz) sz swap_type of
                       None \<Rightarrow> None
                     | Some m' \<Rightarrow> siftdown m' base sz j n swap_type cmp))
      else Some m)"
  by pat_completeness auto
termination
  by (relation "measure (\<lambda>(m, base, sz, k, n, swap_type, cmp). n - k)") (auto split: if_splits)

declare siftdown.simps [simp del]

primrec heapify_loop ::
  "nat \<Rightarrow> mem \<Rightarrow> nat \<Rightarrow> nat \<Rightarrow> nat \<Rightarrow> swap_type_t \<Rightarrow> compar_d_fn \<Rightarrow> mem option" where
  "heapify_loop 0 m base sz n swap_type cmp = siftdown m base sz 0 n swap_type cmp"
| "heapify_loop (Suc k) m base sz n swap_type cmp =
     (case siftdown m base sz (Suc k) n swap_type cmp of
        None \<Rightarrow> None
      | Some m' \<Rightarrow> heapify_loop k m' base sz n swap_type cmp)"

definition heapify :: "mem \<Rightarrow> nat \<Rightarrow> nat \<Rightarrow> nat \<Rightarrow> swap_type_t \<Rightarrow> compar_d_fn \<Rightarrow> mem option" where
  "heapify m base sz n swap_type cmp = heapify_loop (n div 2) m base sz n swap_type cmp"

primrec heapsort_loop ::
  "nat \<Rightarrow> mem \<Rightarrow> nat \<Rightarrow> nat \<Rightarrow> swap_type_t \<Rightarrow> compar_d_fn \<Rightarrow> mem option" where
  "heapsort_loop 0 m base sz swap_type cmp = Some m"
| "heapsort_loop (Suc n) m base sz swap_type cmp =
     (case do_swap m base (base + Suc n * sz) sz swap_type of
        None \<Rightarrow> None
      | Some m' \<Rightarrow>
          if n = 0 then Some m'
          else (case siftdown m' base sz 0 n swap_type cmp of
                  None \<Rightarrow> None
                | Some m'' \<Rightarrow> heapsort_loop n m'' base sz swap_type cmp))"

definition heapsort_r :: "mem \<Rightarrow> nat \<Rightarrow> nat \<Rightarrow> nat \<Rightarrow> compar_d_fn \<Rightarrow> mem option" where
  "heapsort_r m base n sz cmp =
     (if n = 0 then Some m
      else (let swap_type = get_swap_type base sz
            in case heapify m base sz n swap_type cmp of
                 None \<Rightarrow> None
               | Some m' \<Rightarrow> heapsort_loop n m' base sz swap_type cmp))"

section \<open>Merge sort\<close>

text \<open>Pointers in memory.\<close>

definition store_ptr :: "mem \<Rightarrow> nat \<Rightarrow> nat \<Rightarrow> mem" where
  "store_ptr m a p = mem_write m a (le_bytes 8 p)"

definition load_ptr :: "mem \<Rightarrow> nat \<Rightarrow> nat" where
  "load_ptr m a = of_le_bytes (mem_read m a 8)"

record msort_param =
  mp_s :: nat
  mp_var :: swap_type_t
  mp_cmp :: compar_d_fn
  mp_t :: nat

text \<open>
  The merge loops of the four cases of the \<open>switch\<close> differ in the width of the copies and in the
  addresses the callback gets.
\<close>

fun merge_loop ::
  "compar_d_fn \<Rightarrow> nat \<Rightarrow> mem \<Rightarrow> nat \<Rightarrow> nat \<Rightarrow> nat \<Rightarrow> nat \<Rightarrow> nat \<Rightarrow> mem \<times> nat \<times> nat \<times> nat \<times> nat" where
  "merge_loop cmp w m tmp b1 (Suc n1) b2 (Suc n2) =
     (if cmp m b1 b2 \<le> 0
      then merge_loop cmp w (memcpy m tmp b1 w) (tmp + w) (b1 + w) n1 b2 (Suc n2)
      else merge_loop cmp w (memcpy m tmp b2 w) (tmp + w) b1 (Suc n1) (b2 + w) n2)"
| "merge_loop cmp w m tmp b1 n1 b2 n2 = (m, tmp, b1, n1, n2)"

definition msort_cmp :: "swap_type_t \<Rightarrow> compar_d_fn \<Rightarrow> compar_d_fn" where
  "msort_cmp var cmp =
     (case var of
        SWAP_VOID_ARG \<Rightarrow> (\<lambda>m b1 b2. cmp m (load_ptr m b1) (load_ptr m b2))
      | _ \<Rightarrow> cmp)"

definition msort_width :: "swap_type_t \<Rightarrow> nat \<Rightarrow> nat" where
  "msort_width var s =
     (case var of SWAP_WORDS_32 \<Rightarrow> 4 | SWAP_WORDS_64 \<Rightarrow> 8 | SWAP_VOID_ARG \<Rightarrow> 8 | SWAP_BYTES \<Rightarrow> s)"

function msort_with_tmp :: "msort_param \<Rightarrow> mem \<Rightarrow> nat \<Rightarrow> nat \<Rightarrow> mem" where
  "msort_with_tmp p m b n =
     (if n \<le> 1 then m
      else
        (let n1 = n div 2; n2 = n - n1; b1 = b; b2 = b + n1 * mp_s p;
             m1 = msort_with_tmp p m b1 n1;
             m2 = msort_with_tmp p m1 b2 n2;
             (m3, tmp, b1', n1', n2') =
               merge_loop (msort_cmp (mp_var p) (mp_cmp p)) (msort_width (mp_var p) (mp_s p))
                 m2 (mp_t p) b1 n1 b2 n2;
             m4 = (if 0 < n1' then memcpy m3 tmp b1' (n1' * mp_s p) else m3)
         in memcpy m4 b (mp_t p) ((n - n2') * mp_s p)))"
  by pat_completeness auto
termination
  by (relation "measure (\<lambda>(p, m, b, n). n)") auto

declare msort_with_tmp.simps [simp del]

section \<open>Indirect merge sort\<close>

function fill_ptrs :: "mem \<Rightarrow> nat \<Rightarrow> nat \<Rightarrow> nat \<Rightarrow> nat \<Rightarrow> mem" where
  "fill_ptrs m t tmp_storage ip s =
     (if t < tmp_storage then fill_ptrs (store_ptr m t ip) (t + 8) tmp_storage (ip + s) s else m)"
  by pat_completeness auto
termination
  by (relation "measure (\<lambda>(m, t, tmp_storage, ip, s). tmp_storage - t)") auto

declare fill_ptrs.simps [simp del]

text \<open>The \<open>do\<close> loop that moves the elements of one cycle; it has the memory, \<open>j\<close> and \<open>jp\<close> at its end.\<close>

primrec cycle_loop ::
  "nat \<Rightarrow> mem \<Rightarrow> nat \<Rightarrow> nat \<Rightarrow> nat \<Rightarrow> nat \<Rightarrow> nat \<Rightarrow> nat \<Rightarrow> nat \<Rightarrow> (mem \<times> nat \<times> nat) option" where
  "cycle_loop 0 m b s tp ip j jp kp = None"
| "cycle_loop (Suc fuel) m b s tp ip j jp kp =
     (let k = (kp - b) div s;
          m1 = store_ptr m (tp + 8 * j) jp;
          m2 = memcpy m1 jp kp s;
          kp' = load_ptr m2 (tp + 8 * k)
      in if kp' \<noteq> ip then cycle_loop fuel m2 b s tp ip k kp kp' else Some (m2, k, kp))"

text \<open>The \<open>for\<close> loop; \<open>r\<close> iterations are left.\<close>

primrec permute_loop ::
  "nat \<Rightarrow> mem \<Rightarrow> nat \<Rightarrow> nat \<Rightarrow> nat \<Rightarrow> nat \<Rightarrow> nat \<Rightarrow> nat \<Rightarrow> nat \<Rightarrow> mem option" where
  "permute_loop 0 m b s n tp tmp_storage i ip = Some m"
| "permute_loop (Suc r) m b s n tp tmp_storage i ip =
     (let kp = load_ptr m (tp + 8 * i)
      in if kp \<noteq> ip
         then (case cycle_loop n (memcpy m tmp_storage ip s) b s tp ip i ip kp of
                 None \<Rightarrow> None
               | Some (m1, j, jp) \<Rightarrow>
                   (let m2 = store_ptr m1 (tp + 8 * j) jp;
                        m3 = memcpy m2 jp tmp_storage s
                    in permute_loop r m3 b s n tp tmp_storage (i + 1) (ip + s)))
         else permute_loop r m b s n tp tmp_storage (i + 1) (ip + s))"

definition indirect_msort_with_tmp :: "msort_param \<Rightarrow> mem \<Rightarrow> nat \<Rightarrow> nat \<Rightarrow> nat \<Rightarrow> mem option" where
  "indirect_msort_with_tmp p m b n s =
     (let tp = mp_t p + n * 8; tmp_storage = tp + n * 8;
          m1 = fill_ptrs m tp tmp_storage b s;
          m2 = msort_with_tmp p m1 (mp_t p + n * 8) n
      in permute_loop n m2 b s n tp tmp_storage 0 b)"

section \<open>The entry points\<close>

definition QSORT_STACK_SIZE :: nat where
  "QSORT_STACK_SIZE = 1024"

definition INDIRECT_SORT_SIZE_THRES :: nat where
  "INDIRECT_SORT_SIZE_THRES = 32"

definition qsort_r_mergesort :: "mem \<Rightarrow> nat \<Rightarrow> nat \<Rightarrow> nat \<Rightarrow> compar_d_fn \<Rightarrow> nat \<Rightarrow> mem option" where
  "qsort_r_mergesort m pbase total_elems sz cmp buf =
     (if INDIRECT_SORT_SIZE_THRES < sz
      then indirect_msort_with_tmp
             \<lparr>mp_s = 8, mp_var = SWAP_VOID_ARG, mp_cmp = cmp, mp_t = buf\<rparr> m pbase total_elems sz
      else Some (msort_with_tmp
             \<lparr>mp_s = sz, mp_var = get_swap_type pbase sz, mp_cmp = cmp, mp_t = buf\<rparr>
             m pbase total_elems))"

text \<open>
  \<open>malloc\<close> is the allocator: the address of a block of at least as many bytes, or \<open>None\<close>.  The
  outer option of the result is the model's, the inner one is \<open>None\<close> for the return value false.
\<close>

definition qsort_r_malloc ::
  "(u64 \<Rightarrow> nat option) \<Rightarrow> mem \<Rightarrow> nat \<Rightarrow> nat \<Rightarrow> nat \<Rightarrow> compar_d_fn \<Rightarrow> u64 \<Rightarrow> mem option option" where
  "qsort_r_malloc malloc m pbase total_elems sz cmp total_size =
     (case malloc total_size of
        None \<Rightarrow> Some None
      | Some buf \<Rightarrow> map_option Some (qsort_r_mergesort m pbase total_elems sz cmp buf))"

definition qsort_total_size :: "u64 \<Rightarrow> u64 \<Rightarrow> u64" where
  "qsort_total_size total_elems sz =
     (if of_nat INDIRECT_SORT_SIZE_THRES < sz then 2 * total_elems * 8 + sz
      else total_elems * sz)"

text \<open>\<open>stack\<close> is the address of the automatic array \<open>tmp\<close>.\<close>

definition qsort_r ::
  "(u64 \<Rightarrow> nat option) \<Rightarrow> nat \<Rightarrow> mem \<Rightarrow> nat \<Rightarrow> u64 \<Rightarrow> u64 \<Rightarrow> compar_d_fn \<Rightarrow> mem option" where
  "qsort_r malloc stack m pbase total_elems sz cmp =
     (if total_elems \<le> 1 then Some m
      else
        (let total_size = qsort_total_size total_elems sz
         in if total_size \<le> of_nat QSORT_STACK_SIZE
            then qsort_r_mergesort m pbase (unat total_elems) (unat sz) cmp stack
            else (case qsort_r_malloc malloc m pbase (unat total_elems) (unat sz) cmp total_size of
                    None \<Rightarrow> None
                  | Some (Some m') \<Rightarrow> Some m'
                  | Some None \<Rightarrow> heapsort_r m pbase (unat (total_elems - 1)) (unat sz) cmp)))"

definition qsort ::
  "(u64 \<Rightarrow> nat option) \<Rightarrow> nat \<Rightarrow> mem \<Rightarrow> nat \<Rightarrow> u64 \<Rightarrow> u64 \<Rightarrow> compar_d_fn \<Rightarrow> mem option" where
  "qsort malloc stack m b n s cmp = qsort_r malloc stack m b n s cmp"

section \<open>Searching\<close>

function bsearch :: "mem \<Rightarrow> nat \<Rightarrow> nat \<Rightarrow> nat \<Rightarrow> nat \<Rightarrow> compar_d_fn \<Rightarrow> nat option" where
  "bsearch m key base nmemb sz compar =
     (if nmemb = 0 then None
      else
        (let p = base + (nmemb div 2) * sz; comparison = compar m key p
         in if comparison = 0 then Some p
            else if 0 < comparison then bsearch m key (p + sz) ((nmemb - 1) div 2) sz compar
            else bsearch m key base (nmemb div 2) sz compar))"
  by pat_completeness auto
termination
  by (relation "measure (\<lambda>(m, key, base, nmemb, sz, compar). nmemb)") auto

declare bsearch.simps [simp del]

function lfind_loop :: "mem \<Rightarrow> nat \<Rightarrow> nat \<Rightarrow> nat \<Rightarrow> nat \<Rightarrow> nat \<Rightarrow> compar_d_fn \<Rightarrow> nat \<times> nat" where
  "lfind_loop m key result cnt nmemb sz compar =
     (if cnt < nmemb \<and> compar m key result \<noteq> 0
      then lfind_loop m key (result + sz) (cnt + 1) nmemb sz compar
      else (result, cnt))"
  by pat_completeness auto
termination
  by (relation "measure (\<lambda>(m, key, result, cnt, nmemb, sz, compar). nmemb - cnt)") auto

declare lfind_loop.simps [simp del]

definition lfind :: "mem \<Rightarrow> nat \<Rightarrow> nat \<Rightarrow> nat \<Rightarrow> nat \<Rightarrow> compar_d_fn \<Rightarrow> nat option" where
  "lfind m key base nmemb sz compar =
     (let (result, cnt) = lfind_loop m key base 0 nmemb sz compar
      in if cnt < nmemb then Some result else None)"

text \<open>\<open>lsearch\<close> returns the memory, the new \<open>*nmemb\<close> and the pointer.\<close>

definition lsearch :: "mem \<Rightarrow> nat \<Rightarrow> nat \<Rightarrow> nat \<Rightarrow> nat \<Rightarrow> compar_d_fn \<Rightarrow> mem \<times> nat \<times> nat" where
  "lsearch m key base nmemb sz compar =
     (case lfind m key base nmemb sz compar of
        Some result \<Rightarrow> (m, nmemb, result)
      | None \<Rightarrow>
          (let result = base + nmemb * sz
           in (memcpy m result key sz, nmemb + 1, result)))"

end
