(* ===== verification/Qsort_Blocks.thy ===== *)
theory Qsort_Blocks
  imports Qsort "HOL-Library.Multiset"
begin

text \<open>
  An array in memory as a list of blocks, and the effect of copies and swaps on that list.  Every
  way \<open>do_swap\<close> swaps two elements exchanges two blocks.
\<close>

section \<open>Arrays of blocks\<close>

definition elems :: "mem \<Rightarrow> nat \<Rightarrow> nat \<Rightarrow> nat \<Rightarrow> u8 list list" where
  "elems m b s n = map (\<lambda>i. mem_read m (b + i * s) s) [0..<n]"

lemma length_elems [simp]: "length (elems m b s n) = n"
  by (simp add: elems_def)

lemma elems_0 [simp]: "elems m b s 0 = []"
  by (simp add: elems_def)

lemma elems_nth [simp]: "i < n \<Longrightarrow> elems m b s n ! i = mem_read m (b + i * s) s"
  by (simp add: elems_def)

lemma index_bound: "i < n \<Longrightarrow> i * s + s \<le> n * (s :: nat)"
  using mult_le_mono1 [of "Suc i" n s] by simp

lemma index_apart: "i < j \<Longrightarrow> (b :: nat) + i * s + s \<le> b + j * s"
  using index_bound [of i j s] by simp

text \<open>Two blocks of \<open>n\<close> bytes that do not overlap.\<close>

abbreviation apart :: "nat \<Rightarrow> nat \<Rightarrow> nat \<Rightarrow> bool" where
  "apart a b n \<equiv> a + n \<le> b \<or> b + n \<le> a"

lemma index_apart_neq: "i \<noteq> j \<Longrightarrow> apart (b + i * s) (b + j * s) s"
  using index_apart [of i j b s] index_apart [of j i b s] by (cases "i < j") auto

lemma elems_cong:
  assumes "\<And>a. b \<le> a \<Longrightarrow> a < b + n * s \<Longrightarrow> m a = m' a"
  shows "elems m b s n = elems m' b s n"
proof (rule nth_equalityI)
  fix i assume "i < length (elems m b s n)"
  then have i: "i < n" by simp
  have "mem_read m (b + i * s) s = mem_read m' (b + i * s) s"
    using index_bound [OF i, of s] by (intro mem_read_cong assms) auto
  then show "elems m b s n ! i = elems m' b s n ! i" using i by simp
qed simp

lemma elems_append: "elems m b s (i + j) = elems m b s i @ elems m (b + i * s) s j"
  by (rule nth_equalityI) (auto simp: nth_append algebra_simps)

lemma elems_Suc: "elems m b s (Suc n) = mem_read m b s # elems m (b + s) s n"
  using elems_append [of m b s 1 n] by (simp add: elems_def)

lemma elems_take: "i \<le> n \<Longrightarrow> elems m b s i = take i (elems m b s n)"
  by (rule nth_equalityI) auto

lemma elems_shift:
  "(\<And>k. k < n * s \<Longrightarrow> m' (b' + k) = m (b + k)) \<Longrightarrow> elems m' b' s n = elems m b s n"
proof (rule nth_equalityI)
  fix i
  assume eq: "\<And>k. k < n * s \<Longrightarrow> m' (b' + k) = m (b + k)" and "i < length (elems m' b' s n)"
  then have i: "i < n" by simp
  have "mem_read m' (b' + i * s) s = mem_read m (b + i * s) s"
    using eq index_bound [OF i, of s] by (intro nth_equalityI) (simp_all add: add.assoc)
  then show "elems m' b' s n ! i = elems m b s n ! i" using i by simp
qed simp

lemma elems_write_outside:
  "a + length bs \<le> b \<or> b + n * s \<le> a \<Longrightarrow> elems (mem_write m a bs) b s n = elems m b s n"
  by (rule elems_cong) (auto simp: mem_write_def)

lemma elems_write_nth:
  assumes "length blk = s" and i: "i < n"
  shows "elems (mem_write m (b + i * s) blk) b s n = (elems m b s n)[i := blk]"
proof (rule nth_equalityI)
  fix j assume "j < length (elems (mem_write m (b + i * s) blk) b s n)"
  then have j: "j < n" by simp
  show "elems (mem_write m (b + i * s) blk) b s n ! j = (elems m b s n)[i := blk] ! j"
  proof (cases "j = i")
    case True
    then show ?thesis using assms by (simp add: mem_read_write_same)
  next
    case False
    have "mem_read (mem_write m (b + i * s) blk) (b + j * s) s = mem_read m (b + j * s) s"
      using index_apart_neq [OF False, of b s] assms(1)
      by (intro mem_read_cong) (auto simp: mem_write_def)
    then show ?thesis using False j by simp
  qed
qed simp

lemma elems_memcpy: "elems (memcpy m dst src (n * s)) dst s n = elems m src s n"
  by (rule elems_shift) (simp add: memcpy_apply)

section \<open>Swapping\<close>

definition swapped :: "mem \<Rightarrow> nat \<Rightarrow> nat \<Rightarrow> nat \<Rightarrow> mem" where
  "swapped m a b n = (\<lambda>i. if a \<le> i \<and> i < a + n then m (b + (i - a))
     else if b \<le> i \<and> i < b + n then m (a + (i - b)) else m i)"

lemma swapped_left: "a \<le> i \<Longrightarrow> i < a + n \<Longrightarrow> swapped m a b n i = m (b + (i - a))"
  by (simp add: swapped_def)

lemma swapped_right: "apart a b n \<Longrightarrow> b \<le> i \<Longrightarrow> i < b + n \<Longrightarrow> swapped m a b n i = m (a + (i - b))"
  by (auto simp: swapped_def)

lemma swapped_other:
  "i < a \<or> a + n \<le> i \<Longrightarrow> i < b \<or> b + n \<le> i \<Longrightarrow> swapped m a b n i = m i"
  by (auto simp: swapped_def)

lemma swap_unit_swapped: "apart a b w \<Longrightarrow> swap_unit w m a b = swapped m a b w"
proof (rule ext)
  fix i
  assume "apart a b w"
  then have "a \<le> i \<and> i < a + w \<Longrightarrow> \<not> (b \<le> i \<and> i < b + w)" by linarith
  then show "swap_unit w m a b i = swapped m a b w i"
    by (simp add: swap_unit_def swapped_def mem_write_def [of _ b] memcpy_apply Let_def) auto
qed

lemma swapped_join:
  assumes ap: "apart a b (k + l)"
  shows "swapped (swapped m (a + k) (b + k) l) a b k = swapped m a b (k + l)"
    and "swapped (swapped m a b k) (a + k) (b + k) l = swapped m a b (k + l)"
proof -
  have e: "swapped (swapped m (a + k) (b + k) l) a b k i = swapped m a b (k + l) i
      \<and> swapped (swapped m a b k) (a + k) (b + k) l i = swapped m a b (k + l) i" for i
  proof -
    consider (a1) d where "i = a + d" "d < k" | (a2) d where "i = a + k + d" "d < l"
      | (b1) d where "i = b + d" "d < k" | (b2) d where "i = b + k + d" "d < l"
      | (out) "i < a \<or> a + (k + l) \<le> i" "i < b \<or> b + (k + l) \<le> i"
      by (metis add.assoc add_less_cancel_left le_add_diff_inverse not_le)
    then show ?thesis
    proof cases
      case a1
      from ap show ?thesis by (elim disjE) (use a1 in \<open>simp_all add: swapped_left swapped_other add.assoc\<close>)
    next
      case a2
      from ap show ?thesis by (elim disjE) (use a2 in \<open>simp_all add: swapped_left swapped_other add.assoc\<close>)
    next
      case b1
      from ap show ?thesis by (elim disjE) (use b1 in \<open>simp_all add: swapped_right swapped_other add.assoc\<close>)
    next
      case b2
      from ap show ?thesis by (elim disjE) (use b2 in \<open>simp_all add: swapped_right swapped_other add.assoc\<close>)
    next
      case out
      then show ?thesis by (elim disjE) (simp_all add: swapped_other)
    qed
  qed
  show "swapped (swapped m (a + k) (b + k) l) a b k = swapped m a b (k + l)"
    and "swapped (swapped m a b k) (a + k) (b + k) l = swapped m a b (k + l)"
    using e by blast+
qed

lemma swapped_0 [simp]: "swapped m a b 0 = m"
  by (rule ext) (auto simp: swapped_def)

lemma swap_words_swapped:
  "0 < w \<Longrightarrow> 0 < k \<Longrightarrow> apart a b (k * w) \<Longrightarrow> swap_words w m a b (k * w) = Some (swapped m a b (k * w))"
proof (induction k arbitrary: m)
  case (Suc k)
  have u: "swap_unit w m (a + k * w) (b + k * w) = swapped m (a + k * w) (b + k * w) w"
    using Suc.prems(3) by (intro swap_unit_swapped) auto
  show ?case
  proof (cases "k = 0")
    case True
    then show ?thesis using Suc.prems u by (subst swap_words.simps) simp
  next
    case False
    have "apart a b (k * w)" "apart a b (k * w + w)" using Suc.prems(3) by auto
    then show ?thesis
      using Suc.IH [OF Suc.prems(1), of "swapped m (a + k * w) (b + k * w) w"] False u Suc.prems(1)
        swapped_join(1) [where a = a and b = b and k = "k * w" and l = w and m = m]
      by (subst swap_words.simps) (simp add: Let_def add.commute)
  qed
qed simp

lemma memswap_bytes_swapped: "apart p1 p2 n \<Longrightarrow> memswap_bytes m p1 p2 n = swapped m p1 p2 n"
proof (induction n arbitrary: m)
  case (Suc n)
  then show ?case
    using swapped_join(1) [where a = p1 and b = p2 and k = n and l = 1 and m = m] by (auto simp: swap_unit_swapped)
qed simp

lemma memswap_swapped: "apart p1 p2 n \<Longrightarrow> memswap m p1 p2 n = swapped m p1 p2 n"
proof (induction m p1 p2 n rule: memswap.induct)
  case (1 m p1 p2 n)
  show ?case
  proof (cases "32 < n")
    case True
    then have "swap_unit 32 m p1 p2 = swapped m p1 p2 32"
      using "1.prems" by (intro swap_unit_swapped) auto
    moreover have "apart (p1 + 32) (p2 + 32) (n - 32)" using "1.prems" True by auto
    ultimately show ?thesis
      using "1.IH" [OF True] swapped_join(2) [where a = p1 and b = p2 and k = 32 and l = "n - 32" and m = m] "1.prems" True
      by (subst memswap.simps) auto
  next
    case False
    then show ?thesis using "1.prems" by (subst memswap.simps) (simp add: memswap_bytes_swapped)
  qed
qed

text \<open>Whatever the swap type chosen for a base address and an element size, it swaps.\<close>

definition fits :: "swap_type_t \<Rightarrow> nat \<Rightarrow> bool" where
  "fits swap_type s \<longleftrightarrow> (swap_type = SWAP_WORDS_64 \<longrightarrow> s = 8) \<and> (swap_type = SWAP_WORDS_32 \<longrightarrow> s = 4)"

lemma get_swap_type_fits [simp]: "fits (get_swap_type base s) s"
  by (simp add: fits_def get_swap_type_def)

lemma do_swap_swapped:
  assumes "fits swap_type s" "apart a b s"
  shows "do_swap m a b s swap_type = Some (swapped m a b s)"
  using assms swap_words_swapped [of s 1 a b m]
  by (auto simp: fits_def do_swap_def swap_words_64_def swap_words_32_def memswap_swapped)

lemma swapped_commute: "apart a b n \<Longrightarrow> swapped m a b n = swapped m b a n"
  by (rule ext) (auto simp: swapped_def)

lemma elems_swapped:
  assumes "i < j" and "j < n"
  shows "elems (swapped m (b + i * s) (b + j * s) s) b s n =
     (elems m b s n)[i := elems m b s n ! j, j := elems m b s n ! i]"
proof (rule nth_equalityI)
  let ?m = "swapped m (b + i * s) (b + j * s) s"
  fix k assume "k < length (elems ?m b s n)"
  then have k: "k < n" by simp
  note ap = index_apart [OF assms(1), of b s]
  consider "k = i" | "k = j" | "k \<noteq> i" "k \<noteq> j" by blast
  then show "elems ?m b s n ! k = (elems m b s n)[i := elems m b s n ! j, j := elems m b s n ! i] ! k"
  proof cases
    case 1
    have "mem_read ?m (b + i * s) s = mem_read m (b + j * s) s"
      by (rule nth_equalityI) (auto simp: swapped_def)
    then show ?thesis using 1 assms by simp
  next
    case 2
    have "mem_read ?m (b + j * s) s = mem_read m (b + i * s) s"
      using ap by (intro nth_equalityI) (auto simp: swapped_def)
    then show ?thesis using 2 assms by simp
  next
    case 3
    have "mem_read ?m (b + k * s) s = mem_read m (b + k * s) s"
      using index_apart_neq [OF 3(1), of b s] index_apart_neq [OF 3(2), of b s]
      by (intro mem_read_cong) (auto simp: swapped_def)
    then show ?thesis using 3 k by simp
  qed
qed simp

section \<open>Framing of arrays\<close>

lemma only_changes_swapped: "only_changes ({a..<a + n} \<union> {b..<b + n}) m (swapped m a b n)"
  by (auto simp: only_changes_def swapped_def)

lemma only_changes_elems: "only_changes A m m' \<Longrightarrow> A \<inter> {b..<b + n * s} = {} \<Longrightarrow> elems m' b s n = elems m b s n"
  by (intro elems_cong) (auto simp: only_changes_def)

end
