(* ===== verification/Qsort_Merge.thy ===== *)
theory Qsort_Merge
  imports Qsort_Blocks
begin

text \<open>
  The merge sort of \<open>stdlib/qsort.c\<close> in memory refines a merge sort of lists, which is stable.
\<close>

section \<open>Merging lists\<close>

fun merge_l :: "('a \<Rightarrow> 'a \<Rightarrow> bool) \<Rightarrow> 'a list \<Rightarrow> 'a list \<Rightarrow> 'a list" where
  "merge_l le (x # xs) (y # ys) =
     (if le x y then x # merge_l le xs (y # ys) else y # merge_l le (x # xs) ys)"
| "merge_l le xs [] = xs"
| "merge_l le [] ys = ys"

function msort_l :: "('a \<Rightarrow> 'a \<Rightarrow> bool) \<Rightarrow> 'a list \<Rightarrow> 'a list" where
  "msort_l le xs =
     (if length xs \<le> 1 then xs
      else merge_l le (msort_l le (take (length xs div 2) xs)) (msort_l le (drop (length xs div 2) xs)))"
  by pat_completeness auto
termination
  by (relation "measure (\<lambda>(le, xs). length xs)") auto

declare msort_l.simps [simp del]

definition total_preorder_on :: "'a set \<Rightarrow> ('a \<Rightarrow> 'a \<Rightarrow> bool) \<Rightarrow> bool" where
  "total_preorder_on A le \<longleftrightarrow>
     (\<forall>x \<in> A. \<forall>y \<in> A. le x y \<or> le y x)
     \<and> (\<forall>x \<in> A. \<forall>y \<in> A. \<forall>z \<in> A. le x y \<longrightarrow> le y z \<longrightarrow> le x z)"

definition stable_sorted_of :: "('a \<Rightarrow> 'a \<Rightarrow> bool) \<Rightarrow> 'a list \<Rightarrow> 'a list \<Rightarrow> bool" where
  "stable_sorted_of le xs ys \<longleftrightarrow>
     sorted_wrt le ys \<and> mset ys = mset xs
     \<and> (\<forall>z \<in> set xs. filter (\<lambda>y. le y z \<and> le z y) ys = filter (\<lambda>y. le y z \<and> le z y) xs)"

lemma preorder_total: "total_preorder_on A le \<Longrightarrow> x \<in> A \<Longrightarrow> y \<in> A \<Longrightarrow> \<not> le x y \<Longrightarrow> le y x"
  unfolding total_preorder_on_def by blast

lemma preorder_trans:
  "total_preorder_on A le \<Longrightarrow> x \<in> A \<Longrightarrow> y \<in> A \<Longrightarrow> z \<in> A \<Longrightarrow> le x y \<Longrightarrow> le y z \<Longrightarrow> le x z"
  unfolding total_preorder_on_def by blast

lemma preorder_mono: "total_preorder_on A le \<Longrightarrow> B \<subseteq> A \<Longrightarrow> total_preorder_on B le"
  unfolding total_preorder_on_def by blast

lemma mset_merge_l: "mset (merge_l le xs ys) = mset xs + mset ys"
  by (induction le xs ys rule: merge_l.induct) (simp_all add: ac_simps)

lemma set_merge_l: "set (merge_l le xs ys) = set xs \<union> set ys"
  using mset_merge_l [of le xs ys] by (metis set_mset_mset set_mset_union)

lemma length_merge_l: "length (merge_l le xs ys) = length xs + length ys"
  using mset_merge_l [of le xs ys] by (metis size_mset size_union)

lemma sorted_merge_l:
  "total_preorder_on (set xs \<union> set ys) le \<Longrightarrow> sorted_wrt le xs \<Longrightarrow> sorted_wrt le ys \<Longrightarrow>
     sorted_wrt le (merge_l le xs ys)"
proof (induction le xs ys rule: merge_l.induct)
  case (1 le x xs y ys)
  let ?A = "set (x # xs) \<union> set (y # ys)"
  note P = "1.prems"(1)
  have sub: "total_preorder_on (set xs \<union> set (y # ys)) le" "total_preorder_on (set (x # xs) \<union> set ys) le"
    by (rule preorder_mono [OF P]; auto)+
  show ?case
  proof (cases "le x y")
    case True
    have "le x z" if "z \<in> set xs \<union> set (y # ys)" for z
      using that True "1.prems" preorder_trans [OF P, of x y z] by auto
    then show ?thesis using True "1.IH"(1) [OF True sub(1)] "1.prems" by (simp add: set_merge_l)
  next
    case False
    then have yx: "le y x" using preorder_total [OF P, of x y] by simp
    have "le y z" if "z \<in> set (x # xs) \<union> set ys" for z
      using that yx "1.prems" preorder_trans [OF P, of y x z] by auto
    then show ?thesis using False "1.IH"(2) [OF False sub(2)] "1.prems" by (simp add: set_merge_l)
  qed
qed auto

lemma filter_merge_l:
  "total_preorder_on (insert z (set xs \<union> set ys)) le \<Longrightarrow> sorted_wrt le xs \<Longrightarrow>
     filter (\<lambda>y. le y z \<and> le z y) (merge_l le xs ys) =
     filter (\<lambda>y. le y z \<and> le z y) xs @ filter (\<lambda>y. le y z \<and> le z y) ys"
proof (induction le xs ys rule: merge_l.induct)
  case (1 le x xs y ys)
  note P = "1.prems"(1)
  have sub: "total_preorder_on (insert z (set xs \<union> set (y # ys))) le"
    "total_preorder_on (insert z (set (x # xs) \<union> set ys)) le"
    by (rule preorder_mono [OF P]; auto)+
  show ?case
  proof (cases "le x y")
    case True
    then show ?thesis using "1.IH"(1) [OF True sub(1)] "1.prems" by simp
  next
    case False
    have "filter (\<lambda>y. le y z \<and> le z y) (x # xs) = []" if zy: "le y z" "le z y"
    proof -
      have "\<not> le u z" if u: "u \<in> set (x # xs)" for u
      proof
        assume "le u z"
        then have "le u y" using preorder_trans [OF P, of u z y] zy u by auto
        moreover have "u = x \<or> le x u" using "1.prems"(2) u by auto
        ultimately show False using False preorder_trans [OF P, of x u y] u by auto
      qed
      then show ?thesis by (auto simp: filter_empty_conv)
    qed
    then show ?thesis using "1.IH"(2) [OF False sub(2)] "1.prems" False by auto
  qed
qed auto

lemma mset_msort_l: "mset (msort_l le xs) = mset xs"
proof (induction le xs rule: msort_l.induct)
  case (1 le xs)
  show ?case
  proof (cases "length xs \<le> 1")
    case False
    have "mset (take (length xs div 2) xs) + mset (drop (length xs div 2) xs) = mset xs"
      by (metis append_take_drop_id mset_append)
    then show ?thesis using "1.IH" [OF False] False by (subst msort_l.simps) (simp add: mset_merge_l)
  qed (simp add: msort_l.simps [of le xs])
qed

lemma set_msort_l: "set (msort_l le xs) = set xs"
  using mset_msort_l [of le xs] by (metis set_mset_mset)

lemma length_msort_l [simp]: "length (msort_l le xs) = length xs"
  using mset_msort_l [of le xs] by (metis size_mset)

lemma sorted_msort_l: "total_preorder_on (set xs) le \<Longrightarrow> sorted_wrt le (msort_l le xs)"
proof (induction le xs rule: msort_l.induct)
  case (1 le xs)
  show ?case
  proof (cases "length xs \<le> 1")
    case True
    then have "sorted_wrt le xs" by (cases xs) auto
    then show ?thesis using True by (simp add: msort_l.simps [of le xs])
  next
    case False
    have t: "set (take (length xs div 2) xs) \<subseteq> set xs" "set (drop (length xs div 2) xs) \<subseteq> set xs"
      by (auto dest: in_set_takeD in_set_dropD)
    then have "total_preorder_on (set (take (length xs div 2) xs) \<union> set (drop (length xs div 2) xs)) le"
      using preorder_mono [OF "1.prems"] by simp
    then show ?thesis
      using "1.IH" [OF False] False t preorder_mono [OF "1.prems"]
      by (subst msort_l.simps) (simp add: sorted_merge_l set_msort_l)
  qed
qed

lemma filter_msort_l:
  "total_preorder_on (insert z (set xs)) le \<Longrightarrow>
     filter (\<lambda>y. le y z \<and> le z y) (msort_l le xs) = filter (\<lambda>y. le y z \<and> le z y) xs"
proof (induction le xs rule: msort_l.induct)
  case (1 le xs)
  show ?case
  proof (cases "length xs \<le> 1")
    case False
    let ?a = "take (length xs div 2) xs" and ?b = "drop (length xs div 2) xs"
    have t: "set ?a \<subseteq> set xs" "set ?b \<subseteq> set xs"
      by (auto dest: in_set_takeD in_set_dropD)
    have p: "total_preorder_on (insert z (set ?a)) le" "total_preorder_on (insert z (set ?b)) le"
      "total_preorder_on (insert z (set ?a \<union> set ?b)) le" "total_preorder_on (set ?a) le"
      using t by (auto intro: preorder_mono [OF "1.prems"])
    have "filter (\<lambda>y. le y z \<and> le z y) (msort_l le xs) =
        filter (\<lambda>y. le y z \<and> le z y) ?a @ filter (\<lambda>y. le y z \<and> le z y) ?b"
      using "1.IH"(1) [OF False p(1)] "1.IH"(2) [OF False p(2)] False p
      by (subst msort_l.simps) (simp add: filter_merge_l sorted_msort_l set_msort_l)
    also have "\<dots> = filter (\<lambda>y. le y z \<and> le z y) xs"
      by (metis append_take_drop_id filter_append)
    finally show ?thesis .
  qed (simp add: msort_l.simps [of le xs])
qed

lemma msort_l_stable_sorted: "total_preorder_on (set xs) le \<Longrightarrow> stable_sorted_of le xs (msort_l le xs)"
  by (auto simp: stable_sorted_of_def sorted_msort_l mset_msort_l filter_msort_l insert_absorb)

section \<open>Merging in memory\<close>

text \<open>
  The callback compares what it is given the addresses of: in every memory that differs from \<open>m0\<close>
  only in \<open>A\<close>, its result on two blocks of \<open>V\<close> says how \<open>le\<close> relates the blocks.
\<close>

definition cmp_ok ::
  "compar_d_fn \<Rightarrow> nat \<Rightarrow> (u8 list \<Rightarrow> u8 list \<Rightarrow> bool) \<Rightarrow> u8 list set \<Rightarrow> nat set \<Rightarrow> mem \<Rightarrow> bool" where
  "cmp_ok cmp w le V A m0 \<longleftrightarrow>
     (\<forall>m x y. only_changes A m0 m \<longrightarrow> mem_read m x w \<in> V \<longrightarrow> mem_read m y w \<in> V \<longrightarrow>
        (cmp m x y \<le> 0 \<longleftrightarrow> le (mem_read m x w) (mem_read m y w)))"

lemma merge_l_Nil [simp]: "merge_l le [] ys = ys"
  by (cases ys) simp_all

lemma only_changes_memcpy_elems:
  "{dst..<dst + l} \<inter> {b..<b + n * s} = {} \<Longrightarrow> elems (memcpy m dst src l) b s n = elems m b s n"
  by (rule only_changes_elems [OF only_changes_memcpy])

lemma merge_step:
  assumes "only_changes {tmp + w..<tmp + w + k * w} (memcpy m tmp src w) m'"
  shows "elems m' tmp w (Suc k) = mem_read m src w # elems m' (tmp + w) w k"
    and "only_changes {tmp..<tmp + Suc k * w} m m'"
proof -
  have "mem_read m' tmp w = mem_read m src w"
    using only_changes_read [OF assms, of tmp w] by (simp add: mem_read_memcpy)
  then show "elems m' tmp w (Suc k) = mem_read m src w # elems m' (tmp + w) w k"
    by (simp add: elems_Suc)
  show "only_changes {tmp..<tmp + Suc k * w} m m'"
    using only_changes_trans [OF only_changes_memcpy assms] by (rule only_changes_mono) auto
qed

lemma sub_region: "i + j \<le> n \<Longrightarrow> {b + i * s..<b + i * s + j * s} \<subseteq> {b..<b + n * (s :: nat)}"
  using mult_le_mono1 [of "i + j" n s] by (auto simp: algebra_simps)

lemma sub_region0: "j \<le> n \<Longrightarrow> {b..<b + j * s} \<subseteq> {b..<b + n * (s :: nat)}"
  using mult_le_mono1 [of j n s] by auto

definition merge_result ::
  "(u8 list \<Rightarrow> u8 list \<Rightarrow> bool) \<Rightarrow> nat \<Rightarrow> mem \<Rightarrow> nat \<Rightarrow> nat \<Rightarrow> nat \<Rightarrow> nat \<Rightarrow> nat
     \<Rightarrow> mem \<times> nat \<times> nat \<times> nat \<times> nat \<Rightarrow> bool" where
  "merge_result le w m tmp b1 n1 b2 n2 r \<longleftrightarrow>
     (\<exists>m' k n1' n2'. r = (m', tmp + k * w, b1 + (n1 - n1') * w, n1', n2')
      \<and> k + n1' + n2' = n1 + n2 \<and> n1' \<le> n1 \<and> n2' \<le> n2
      \<and> only_changes {tmp..<tmp + k * w} m m'
      \<and> elems m' tmp w k @ elems m (b1 + (n1 - n1') * w) w n1' @ elems m (b2 + (n2 - n2') * w) w n2'
         = merge_l le (elems m b1 w n1) (elems m b2 w n2))"

lemma merge_result_left:
  assumes r: "merge_result le w (memcpy m tmp b1 w) (tmp + w) (b1 + w) n1 b2 (Suc n2) r"
    and d: "{tmp..<tmp + w} \<inter> {b1..<b1 + Suc n1 * w} = {}" "{tmp..<tmp + w} \<inter> {b2..<b2 + Suc n2 * w} = {}"
    and le: "le (mem_read m b1 w) (mem_read m b2 w)"
  shows "merge_result le w m tmp b1 (Suc n1) b2 (Suc n2) r"
proof -
  let ?m = "memcpy m tmp b1 w"
  obtain m' k n1' n2' where
    r': "r = (m', tmp + w + k * w, b1 + w + (n1 - n1') * w, n1', n2')" "k + n1' + n2' = n1 + Suc n2"
      "n1' \<le> n1" "n2' \<le> Suc n2" and oc: "only_changes {tmp + w..<tmp + w + k * w} ?m m'"
    and e: "elems m' (tmp + w) w k @ elems ?m (b1 + w + (n1 - n1') * w) w n1' @
        elems ?m (b2 + (Suc n2 - n2') * w) w n2' = merge_l le (elems ?m (b1 + w) w n1) (elems ?m b2 w (Suc n2))"
    using r unfolding merge_result_def by blast
  have same: "elems ?m (b1 + i * w) w j = elems m (b1 + i * w) w j" if "i + j \<le> Suc n1" for i j
    using sub_region [OF that, of b1 w] d(1) by (intro only_changes_memcpy_elems) blast
  have same2: "elems ?m (b2 + i * w) w j = elems m (b2 + i * w) w j" if "i + j \<le> Suc n2" for i j
    using sub_region [OF that, of b2 w] d(2) by (intro only_changes_memcpy_elems) blast
  have b1: "b1 + w + (n1 - n1') * w = b1 + (Suc n1 - n1') * w" using r'(3) by (simp add: Suc_diff_le)
  have "elems ?m (b1 + w) w n1 = elems m (b1 + w) w n1" using same [of 1 n1] by simp
  moreover have "elems ?m b2 w (Suc n2) = elems m b2 w (Suc n2)" using same2 [of 0 "Suc n2"] by simp
  moreover have "elems ?m (b1 + (Suc n1 - n1') * w) w n1' = elems m (b1 + (Suc n1 - n1') * w) w n1'"
    using r'(3) by (intro same) simp
  moreover have "elems ?m (b2 + (Suc n2 - n2') * w) w n2' = elems m (b2 + (Suc n2 - n2') * w) w n2'"
    using r'(4) by (intro same2) simp
  ultimately have "elems m' tmp w (Suc k) @ elems m (b1 + (Suc n1 - n1') * w) w n1' @
      elems m (b2 + (Suc n2 - n2') * w) w n2' = merge_l le (elems m b1 w (Suc n1)) (elems m b2 w (Suc n2))"
    using e le unfolding b1 merge_step(1) [OF oc] elems_Suc [of m b1] elems_Suc [of m b2] by simp
  then show ?thesis
    unfolding merge_result_def using r' merge_step(2) [OF oc] b1
    by (intro exI [of _ m'] exI [of _ "Suc k"] exI [of _ n1'] exI [of _ n2']) (simp add: add.assoc)
qed

lemma merge_result_right:
  assumes r: "merge_result le w (memcpy m tmp b2 w) (tmp + w) b1 (Suc n1) (b2 + w) n2 r"
    and d: "{tmp..<tmp + w} \<inter> {b1..<b1 + Suc n1 * w} = {}" "{tmp..<tmp + w} \<inter> {b2..<b2 + Suc n2 * w} = {}"
    and le: "\<not> le (mem_read m b1 w) (mem_read m b2 w)"
  shows "merge_result le w m tmp b1 (Suc n1) b2 (Suc n2) r"
proof -
  let ?m = "memcpy m tmp b2 w"
  obtain m' k n1' n2' where
    r': "r = (m', tmp + w + k * w, b1 + (Suc n1 - n1') * w, n1', n2')" "k + n1' + n2' = Suc n1 + n2"
      "n1' \<le> Suc n1" "n2' \<le> n2" and oc: "only_changes {tmp + w..<tmp + w + k * w} ?m m'"
    and e: "elems m' (tmp + w) w k @ elems ?m (b1 + (Suc n1 - n1') * w) w n1' @
        elems ?m (b2 + w + (n2 - n2') * w) w n2' = merge_l le (elems ?m b1 w (Suc n1)) (elems ?m (b2 + w) w n2)"
    using r unfolding merge_result_def by blast
  have same: "elems ?m (b1 + i * w) w j = elems m (b1 + i * w) w j" if "i + j \<le> Suc n1" for i j
    using sub_region [OF that, of b1 w] d(1) by (intro only_changes_memcpy_elems) blast
  have same2: "elems ?m (b2 + i * w) w j = elems m (b2 + i * w) w j" if "i + j \<le> Suc n2" for i j
    using sub_region [OF that, of b2 w] d(2) by (intro only_changes_memcpy_elems) blast
  have b2: "b2 + w + (n2 - n2') * w = b2 + (Suc n2 - n2') * w" using r'(4) by (simp add: Suc_diff_le)
  have "elems ?m (b2 + w) w n2 = elems m (b2 + w) w n2" using same2 [of 1 n2] by simp
  moreover have "elems ?m b1 w (Suc n1) = elems m b1 w (Suc n1)" using same [of 0 "Suc n1"] by simp
  moreover have "elems ?m (b1 + (Suc n1 - n1') * w) w n1' = elems m (b1 + (Suc n1 - n1') * w) w n1'"
    using r'(3) by (intro same) simp
  moreover have "elems ?m (b2 + (Suc n2 - n2') * w) w n2' = elems m (b2 + (Suc n2 - n2') * w) w n2'"
    using r'(4) by (intro same2) simp
  ultimately have "elems m' tmp w (Suc k) @ elems m (b1 + (Suc n1 - n1') * w) w n1' @
      elems m (b2 + (Suc n2 - n2') * w) w n2' = merge_l le (elems m b1 w (Suc n1)) (elems m b2 w (Suc n2))"
    using e le unfolding b2 merge_step(1) [OF oc] elems_Suc [of m b1] elems_Suc [of m b2] by simp
  then show ?thesis
    unfolding merge_result_def using r' merge_step(2) [OF oc]
    by (intro exI [of _ m'] exI [of _ "Suc k"] exI [of _ n1'] exI [of _ n2']) (simp add: add.assoc)
qed

lemma merge_loop_refines:
  "cmp_ok cmp w le V A m0 \<Longrightarrow> only_changes A m0 m \<Longrightarrow> {tmp..<tmp + (n1 + n2) * w} \<subseteq> A \<Longrightarrow>
    {tmp..<tmp + (n1 + n2) * w} \<inter> {b1..<b1 + n1 * w} = {} \<Longrightarrow>
    {tmp..<tmp + (n1 + n2) * w} \<inter> {b2..<b2 + n2 * w} = {} \<Longrightarrow>
    set (elems m b1 w n1) \<subseteq> V \<Longrightarrow> set (elems m b2 w n2) \<subseteq> V \<Longrightarrow>
    merge_result le w m tmp b1 n1 b2 n2 (merge_loop cmp w m tmp b1 n1 b2 n2)"
proof (induction cmp w m tmp b1 n1 b2 n2 rule: merge_loop.induct)
  case (1 cmp w m tmp b1 n1 b2 n2)
  note cmp = "1.prems"(1) and oc = "1.prems"(2) and A = "1.prems"(3)
  have here: "{tmp..<tmp + w} \<subseteq> {tmp..<tmp + (Suc n1 + Suc n2) * w}"
    and rest: "{tmp + w..<tmp + w + (n1 + Suc n2) * w} \<subseteq> {tmp..<tmp + (Suc n1 + Suc n2) * w}"
      "{tmp + w..<tmp + w + (Suc n1 + n2) * w} \<subseteq> {tmp..<tmp + (Suc n1 + Suc n2) * w}" by auto
  have d: "{tmp..<tmp + w} \<inter> {b1..<b1 + Suc n1 * w} = {}" "{tmp..<tmp + w} \<inter> {b2..<b2 + Suc n2 * w} = {}"
    using here "1.prems"(4,5) by blast+
  have tl: "{b1 + w..<b1 + w + n1 * w} \<subseteq> {b1..<b1 + Suc n1 * w}" "{b2 + w..<b2 + w + n2 * w} \<subseteq> {b2..<b2 + Suc n2 * w}"
    by auto
  have oc': "only_changes A m0 (memcpy m tmp src w)" for src
  proof (rule only_changes_mono [OF only_changes_trans [OF oc only_changes_memcpy [of tmp w m src]]])
    show "A \<union> {tmp..<tmp + w} \<subseteq> A" using here A by blast
  qed
  have V: "set (elems (memcpy m tmp src w) (b1 + w) w n1) \<subseteq> V" "set (elems (memcpy m tmp src w) b1 w (Suc n1)) \<subseteq> V"
    "set (elems (memcpy m tmp src w) (b2 + w) w n2) \<subseteq> V" "set (elems (memcpy m tmp src w) b2 w (Suc n2)) \<subseteq> V" for src
    using "1.prems"(6,7) d tl
    by (subst only_changes_memcpy_elems; (blast | simp add: elems_Suc))+
  have le: "cmp m b1 b2 \<le> 0 \<longleftrightarrow> le (mem_read m b1 w) (mem_read m b2 w)"
    using cmp oc "1.prems"(6,7) unfolding cmp_ok_def by (simp add: elems_Suc)
  show ?case
  proof (cases "cmp m b1 b2 \<le> 0")
    case True
    have "merge_result le w (memcpy m tmp b1 w) (tmp + w) (b1 + w) n1 b2 (Suc n2)
        (merge_loop cmp w (memcpy m tmp b1 w) (tmp + w) (b1 + w) n1 b2 (Suc n2))"
      by (rule "1.IH"(1) [OF True cmp oc']) (use A rest tl "1.prems"(4,5) V in blast)+
    then show ?thesis using True le merge_result_left [OF _ d] by simp
  next
    case False
    have "merge_result le w (memcpy m tmp b2 w) (tmp + w) b1 (Suc n1) (b2 + w) n2
        (merge_loop cmp w (memcpy m tmp b2 w) (tmp + w) b1 (Suc n1) (b2 + w) n2)"
      by (rule "1.IH"(2) [OF False cmp oc']) (use A rest tl "1.prems"(4,5) V in blast)+
    then show ?thesis using False le merge_result_right [OF _ d] by simp
  qed
qed (auto simp: merge_result_def elems_Suc intro!: exI [of _ 0])

text \<open>What the two final copies do with the result of the merge loop.\<close>

lemma merge_finish:
  assumes r: "merge_result le s m t b n1 (b + n1 * s) n2 (m3, tmp, b1', n1', n2')"
    and d: "{t..<t + (n1 + n2) * s} \<inter> {b..<b + (n1 + n2) * s} = {}"
    and m4: "m4 = (if 0 < n1' then memcpy m3 tmp b1' (n1' * s) else m3)"
    and m5: "m5 = memcpy m4 b t ((n1 + n2 - n2') * s)"
  shows "elems m5 b s (n1 + n2) = merge_l le (elems m b s n1) (elems m (b + n1 * s) s n2)"
    and "only_changes ({t..<t + (n1 + n2) * s} \<union> {b..<b + (n1 + n2) * s}) m m5"
proof -
  obtain k where r': "tmp = t + k * s" "b1' = b + (n1 - n1') * s" "k + n1' + n2' = n1 + n2"
      "n1' \<le> n1" "n2' \<le> n2" and oc: "only_changes {t..<t + k * s} m m3"
    and e: "elems m3 t s k @ elems m (b + (n1 - n1') * s) s n1' @ elems m (b + n1 * s + (n2 - n2') * s) s n2'
         = merge_l le (elems m b s n1) (elems m (b + n1 * s) s n2)"
    using r unfolding merge_result_def by auto
  have dis: "{t + i * s..<t + i * s + j * s} \<inter> {b + i' * s..<b + i' * s + j' * s} = {}"
    if "i + j \<le> n1 + n2" "i' + j' \<le> n1 + n2" for i j i' j'
    using sub_region [OF that(1), of t s] sub_region [OF that(2), of b s] d by blast
  have m4': "m4 = memcpy m3 tmp b1' (n1' * s)"
    using m4 by (cases "n1' = 0") (auto simp: memcpy_def)
  have oc4: "only_changes {tmp..<tmp + n1' * s} m3 m4" unfolding m4' by (rule only_changes_memcpy)
  have s3: "elems m3 (b + i * s) s j = elems m (b + i * s) s j" if "i + j \<le> n1 + n2" for i j
    using dis [of 0 k i j] r'(3) that by (intro only_changes_elems [OF oc]) simp
  have s4: "elems m4 (b + i * s) s j = elems m3 (b + i * s) s j" if "i + j \<le> n1 + n2" for i j
    using dis [of k n1' i j] r'(1,3) that by (intro only_changes_elems [OF oc4]) simp
  have t4: "elems m4 t s (k + n1') = elems m3 t s k @ elems m (b + (n1 - n1') * s) s n1'"
  proof -
    have "elems m4 t s k = elems m3 t s k" using r'(1) by (intro only_changes_elems [OF oc4]) auto
    moreover have "elems m4 (t + k * s) s n1' = elems m3 b1' s n1'"
      unfolding m4' r'(1) by (rule elems_memcpy)
    ultimately show ?thesis using s3 [of "n1 - n1'" n1'] r'(2,4) by (simp add: elems_append)
  qed
  have kn: "n1 + n2 - n2' = k + n1'" "b + n1 * s + (n2 - n2') * s = b + (k + n1') * s"
  proof -
    show "n1 + n2 - n2' = k + n1'" using r'(3) by simp
    then have "k + n1' = n1 + (n2 - n2')" using r'(5) by simp
    then show "b + n1 * s + (n2 - n2') * s = b + (k + n1') * s" by (simp add: algebra_simps)
  qed
  have oc5: "only_changes {b..<b + (k + n1') * s} m4 m5" unfolding m5 kn by (rule only_changes_memcpy)
  have "elems m5 b s (k + n1') = elems m4 t s (k + n1')"
    unfolding m5 kn by (rule elems_memcpy)
  moreover have "elems m5 (b + (k + n1') * s) s n2' = elems m4 (b + (k + n1') * s) s n2'"
    by (intro only_changes_elems [OF oc5]) auto
  moreover have "\<dots> = elems m (b + (k + n1') * s) s n2'"
    using s4 [of "k + n1'" n2'] s3 [of "k + n1'" n2'] r'(3) by simp
  moreover have "elems m5 b s (n1 + n2) = elems m5 b s (k + n1') @ elems m5 (b + (k + n1') * s) s n2'"
    using elems_append [of m5 b s "k + n1'" n2'] r'(3) by simp
  ultimately show "elems m5 b s (n1 + n2) = merge_l le (elems m b s n1) (elems m (b + n1 * s) s n2)"
    using e t4 unfolding kn(2) by simp
  have k: "k \<le> n1 + n2" "k + n1' \<le> n1 + n2" using r'(3) by simp_all
  have "{t..<t + k * s} \<union> {tmp..<tmp + n1' * s} \<union> {b..<b + (k + n1') * s} \<subseteq>
      {t..<t + (n1 + n2) * s} \<union> {b..<b + (n1 + n2) * s}"
    using sub_region0 [OF k(1), of t s] sub_region [OF k(2), of t s] sub_region0 [OF k(2), of b s]
    unfolding r'(1) by blast
  then show "only_changes ({t..<t + (n1 + n2) * s} \<union> {b..<b + (n1 + n2) * s}) m m5"
    using only_changes_trans [OF only_changes_trans [OF oc oc4] oc5] only_changes_mono by blast
qed

lemma msort_with_tmp_refines:
  assumes s: "mp_s p = s" "msort_width (mp_var p) s = s"
    and cmp: "cmp_ok (msort_cmp (mp_var p) (mp_cmp p)) s le V A m0"
  shows "only_changes A m0 m \<Longrightarrow> {mp_t p..<mp_t p + n * s} \<subseteq> A \<Longrightarrow> {b..<b + n * s} \<subseteq> A \<Longrightarrow>
   {mp_t p..<mp_t p + n * s} \<inter> {b..<b + n * s} = {} \<Longrightarrow> set (elems m b s n) \<subseteq> V \<Longrightarrow>
   elems (msort_with_tmp p m b n) b s n = msort_l le (elems m b s n)
   \<and> only_changes ({mp_t p..<mp_t p + n * s} \<union> {b..<b + n * s}) m (msort_with_tmp p m b n)"
proof (induction n arbitrary: m b rule: less_induct)
  case (less n)
  note oc = less.prems(1) and tA = less.prems(2) and bA = less.prems(3) and d = less.prems(4)
  let ?t = "mp_t p" and ?n1 = "n div 2" and ?n2 = "n - n div 2" and ?b2 = "b + n div 2 * s"
  show ?case
  proof (cases "n \<le> 1")
    case True
    then show ?thesis by (simp add: msort_with_tmp.simps [of p m b n] msort_l.simps [of le "elems m b s n"])
  next
    case False
    then have n: "?n1 \<le> n" "?n2 \<le> n" "?n1 + ?n2 = n" "?n1 + ?n2 \<le> n" "?n1 < n" "?n2 < n" by auto
    define m1 where "m1 = msort_with_tmp p m b ?n1"
    define m2 where "m2 = msort_with_tmp p m1 ?b2 ?n2"
    note reg = sub_region0 [OF n(1), of b s] sub_region [OF n(4), of b s]
      sub_region0 [OF n(1), of ?t s] sub_region0 [OF n(2), of ?t s]
    have apart: "{b..<b + ?n1 * s} \<inter> {?b2..<?b2 + ?n2 * s} = {}" by auto
    have el: "elems m b s n = elems m b s ?n1 @ elems m ?b2 s ?n2"
      using elems_append [of m b s ?n1 ?n2] n(3) by simp
    have V: "set (elems m b s ?n1) \<subseteq> V" "set (elems m ?b2 s ?n2) \<subseteq> V"
      using less.prems(5) unfolding el by simp_all
    have "elems m1 b s ?n1 = msort_l le (elems m b s ?n1)
        \<and> only_changes ({?t..<?t + ?n1 * s} \<union> {b..<b + ?n1 * s}) m m1"
      unfolding m1_def by (rule less.IH [OF n(5) oc]) (use tA bA d reg V in blast)+
    note i1 = conjunct1 [OF this] conjunct2 [OF this]
    have oc1: "only_changes A m0 m1"
      by (rule only_changes_mono [OF only_changes_trans [OF oc i1(2)]]) (use reg tA bA in blast)
    have e1: "elems m1 ?b2 s ?n2 = elems m ?b2 s ?n2"
      by (rule only_changes_elems [OF i1(2)]) (use reg apart d in blast)
    then have V1: "set (elems m1 ?b2 s ?n2) \<subseteq> V" using V by simp
    have "elems m2 ?b2 s ?n2 = msort_l le (elems m1 ?b2 s ?n2)
        \<and> only_changes ({?t..<?t + ?n2 * s} \<union> {?b2..<?b2 + ?n2 * s}) m1 m2"
      unfolding m2_def by (rule less.IH [OF n(6) oc1]) (use tA bA d reg V1 in blast)+
    note i2 = conjunct1 [OF this] conjunct2 [OF this]
    have oc2: "only_changes A m0 m2"
      by (rule only_changes_mono [OF only_changes_trans [OF oc1 i2(2)]]) (use reg tA bA in blast)
    have e2: "elems m2 b s ?n1 = elems m1 b s ?n1"
      by (rule only_changes_elems [OF i2(2)]) (use reg apart d in blast)
    obtain m3 tmp b1' n1' n2' where
      mr: "merge_loop (msort_cmp (mp_var p) (mp_cmp p)) s m2 ?t b ?n1 ?b2 ?n2 = (m3, tmp, b1', n1', n2')"
      by (metis surj_pair)
    have r: "merge_result le s m2 ?t b ?n1 ?b2 ?n2 (m3, tmp, b1', n1', n2')"
      unfolding mr [symmetric]
    proof (rule merge_loop_refines [OF cmp oc2])
      show "set (elems m2 b s ?n1) \<subseteq> V" "set (elems m2 ?b2 s ?n2) \<subseteq> V"
        using V i1(1) i2(1) e1 e2 by (simp_all add: set_msort_l)
    qed (use tA d reg in \<open>simp only: n(3); blast\<close>)+
    define m4 where "m4 = (if 0 < n1' then memcpy m3 tmp b1' (n1' * s) else m3)"
    have m5: "msort_with_tmp p m b n = memcpy m4 b ?t ((?n1 + ?n2 - n2') * s)"
      using False s mr n(3) by (subst msort_with_tmp.simps) (simp add: Let_def m1_def m2_def m4_def)
    note fin = merge_finish [OF r _ m4_def m5, unfolded n(3), OF d]
    have "elems (msort_with_tmp p m b n) b s n = msort_l le (elems m b s n)"
      using fin(1) False n(1) unfolding e2 i2(1) e1 i1(1)
      by (subst msort_l.simps) (simp add: el)
    moreover have "only_changes ({?t..<?t + n * s} \<union> {b..<b + n * s}) m (msort_with_tmp p m b n)"
      by (rule only_changes_mono [OF only_changes_trans [OF only_changes_trans [OF i1(2) i2(2)] fin(2)]])
        (use reg in blast)
    ultimately show ?thesis by blast
  qed
qed
end
