(* ===== verification/Qsort_Heap.thy ===== *)
theory Qsort_Heap
  imports Qsort_Merge
begin

text \<open>
  The heapsort that \<open>qsort_r\<close> falls back to when it gets no buffer: in memory it refines a heapsort
  of lists, which sorts.
\<close>

section \<open>Comparison results\<close>

text \<open>What C asks of a comparison function: it orders the values of \<open>V\<close>.\<close>

definition compar_ok :: "'a set \<Rightarrow> ('a \<Rightarrow> 'a \<Rightarrow> int) \<Rightarrow> bool" where
  "compar_ok V c \<longleftrightarrow>
     (\<forall>x \<in> V. \<forall>y \<in> V. c x y \<le> 0 \<longleftrightarrow> 0 \<le> c y x)
     \<and> (\<forall>x \<in> V. \<forall>y \<in> V. \<forall>z \<in> V. c x y \<le> 0 \<longrightarrow> c y z \<le> 0 \<longrightarrow> c x z \<le> 0)"

abbreviation le_of :: "('a \<Rightarrow> 'a \<Rightarrow> int) \<Rightarrow> 'a \<Rightarrow> 'a \<Rightarrow> bool" where
  "le_of c x y \<equiv> c x y \<le> 0"

lemma compar_ok_sym: "compar_ok V c \<Longrightarrow> x \<in> V \<Longrightarrow> y \<in> V \<Longrightarrow> c x y \<le> 0 \<longleftrightarrow> 0 \<le> c y x"
  unfolding compar_ok_def by blast

lemma compar_ok_trans:
  "compar_ok V c \<Longrightarrow> x \<in> V \<Longrightarrow> y \<in> V \<Longrightarrow> z \<in> V \<Longrightarrow> c x y \<le> 0 \<Longrightarrow> c y z \<le> 0 \<Longrightarrow> c x z \<le> 0"
  unfolding compar_ok_def by blast

lemma compar_ok_preorder: "compar_ok V c \<Longrightarrow> total_preorder_on V (le_of c)"
  unfolding compar_ok_def total_preorder_on_def by (meson linorder_linear)

section \<open>Heaps in lists\<close>

definition swap_l :: "'a list \<Rightarrow> nat \<Rightarrow> nat \<Rightarrow> 'a list" where
  "swap_l xs i j = xs[i := xs ! j, j := xs ! i]"

lemma length_swap_l [simp]: "length (swap_l xs i j) = length xs"
  by (simp add: swap_l_def)

lemma nth_swap_l:
  "i < length xs \<Longrightarrow> j < length xs \<Longrightarrow>
     swap_l xs i j ! k = (if k = i then xs ! j else if k = j then xs ! i else xs ! k)"
  by (auto simp: swap_l_def nth_list_update)

lemma mset_swap_l: "i < length xs \<Longrightarrow> j < length xs \<Longrightarrow> mset (swap_l xs i j) = mset xs"
  by (simp add: swap_l_def mset_swap)

definition sift_child :: "('a \<Rightarrow> 'a \<Rightarrow> int) \<Rightarrow> 'a list \<Rightarrow> nat \<Rightarrow> nat \<Rightarrow> nat" where
  "sift_child c xs k n =
     (if 2 * k + 1 < n \<and> c (xs ! (2 * k + 1)) (xs ! (2 * k + 2)) < 0 then 2 * k + 2 else 2 * k + 1)"

lemma sift_child_bounds: "2 * k + 1 \<le> n \<Longrightarrow> k < sift_child c xs k n \<and> sift_child c xs k n \<le> n"
  by (simp add: sift_child_def)

function siftdown_l :: "('a \<Rightarrow> 'a \<Rightarrow> int) \<Rightarrow> 'a list \<Rightarrow> nat \<Rightarrow> nat \<Rightarrow> 'a list" where
  "siftdown_l c xs k n =
     (if 2 * k + 1 \<le> n \<and> c (xs ! k) (xs ! sift_child c xs k n) < 0
      then siftdown_l c (swap_l xs k (sift_child c xs k n)) (sift_child c xs k n) n
      else xs)"
  by pat_completeness auto
termination
  by (relation "measure (\<lambda>(c, xs, k, n). n - k)") (auto simp: sift_child_def)

declare siftdown_l.simps [simp del]

lemma siftdown_l_stop:
  "\<not> (2 * k + 1 \<le> n \<and> c (xs ! k) (xs ! sift_child c xs k n) < 0) \<Longrightarrow> siftdown_l c xs k n = xs"
  by (subst siftdown_l.simps) auto

text \<open>Parent \<open>i\<close> is not less than its children among the indices up to \<open>n\<close>.\<close>

definition heap_at :: "('a \<Rightarrow> 'a \<Rightarrow> int) \<Rightarrow> 'a list \<Rightarrow> nat \<Rightarrow> nat \<Rightarrow> bool" where
  "heap_at c xs n i \<longleftrightarrow> (\<forall>j \<in> {2 * i + 1, 2 * i + 2}. j \<le> n \<longrightarrow> c (xs ! j) (xs ! i) \<le> 0)"

lemma siftdown_l_basic:
  "n < length xs \<Longrightarrow> mset (siftdown_l c xs k n) = mset xs
     \<and> (\<forall>i. n < i \<or> i < k \<longrightarrow> siftdown_l c xs k n ! i = xs ! i)"
proof (induction c xs k n rule: siftdown_l.induct)
  case (1 c xs k n)
  let ?j = "sift_child c xs k n"
  show ?case
  proof (cases "2 * k + 1 \<le> n \<and> c (xs ! k) (xs ! ?j) < 0")
    case True
    then have j: "k < ?j" "?j \<le> n" using sift_child_bounds [of k n c xs] by auto
    then show ?thesis
      using "1.IH" [OF True] "1.prems" True
      by (subst (1 2) siftdown_l.simps) (simp add: mset_swap_l nth_swap_l)
  qed (simp add: siftdown_l_stop)
qed

lemma length_siftdown_l [simp]: "n < length xs \<Longrightarrow> length (siftdown_l c xs k n) = length xs"
  using siftdown_l_basic [of n xs c k] by (metis size_mset)

lemma sift_child_best:
  assumes ok: "compar_ok (set xs) c" and len: "n < length xs" and k: "2 * k + 1 \<le> n"
    and i: "i \<in> {2 * k + 1, 2 * k + 2}" "i \<le> n"
  shows "c (xs ! i) (xs ! sift_child c xs k n) \<le> 0"
proof -
  let ?j = "sift_child c xs k n"
  have el: "i \<le> n \<Longrightarrow> xs ! i \<in> set xs" for i using len by simp
  have j: "?j \<le> n" using sift_child_bounds [OF k] by blast
  show ?thesis
  proof (cases "i = ?j")
    case True
    then show ?thesis
      using compar_ok_sym [OF ok el el, of ?j ?j] j by (cases "c (xs ! ?j) (xs ! ?j) \<le> 0") auto
  next
    case False
    then show ?thesis
      using i j compar_ok_sym [OF ok el el, of i ?j]
      by (auto simp: sift_child_def split: if_splits)
  qed
qed

text \<open>One iteration moves the only violation from \<open>k\<close> to the child it swaps with.\<close>

lemma sift_step:
  assumes ok: "compar_ok (set xs) c" and len: "n < length xs"
    and k: "2 * k + 1 \<le> n" and j: "j = sift_child c xs k n" and lt: "c (xs ! k) (xs ! j) < 0"
    and heap: "\<And>i. k0 \<le> i \<Longrightarrow> i \<noteq> k \<Longrightarrow> heap_at c xs n i"
    and up: "\<And>p i. k0 \<le> p \<Longrightarrow> k \<in> {2 * p + 1, 2 * p + 2} \<Longrightarrow> i \<in> {2 * k + 1, 2 * k + 2} \<Longrightarrow> i \<le> n \<Longrightarrow>
      c (xs ! i) (xs ! p) \<le> 0"
    and k0: "k0 \<le> k"
  shows "\<And>i. k0 \<le> i \<Longrightarrow> i \<noteq> j \<Longrightarrow> heap_at c (swap_l xs k j) n i"
    and "\<And>p i. k0 \<le> p \<Longrightarrow> j \<in> {2 * p + 1, 2 * p + 2} \<Longrightarrow> i \<in> {2 * j + 1, 2 * j + 2} \<Longrightarrow> i \<le> n \<Longrightarrow>
      c (swap_l xs k j ! i) (swap_l xs k j ! p) \<le> 0"
proof -
  have jb: "k < j" "j \<le> n" "j = 2 * k + 1 \<or> j = 2 * k + 2"
    using sift_child_bounds [OF k, of c xs] j by (auto simp: sift_child_def)
  have el: "i \<le> n \<Longrightarrow> xs ! i \<in> set xs" for i using len by simp
  have sw: "swap_l xs k j ! i = (if i = k then xs ! j else if i = j then xs ! k else xs ! i)" for i
    using jb len by (simp add: nth_swap_l)
  note best = sift_child_best [OF ok len k, folded j]
  show "heap_at c (swap_l xs k j) n i" if i: "k0 \<le> i" "i \<noteq> j" for i
  proof (cases "i = k")
    case True
    then show ?thesis
      using best lt jb by (auto simp: heap_at_def sw)
  next
    case False
    have "c (swap_l xs k j ! l) (xs ! i) \<le> 0" if l: "l \<in> {2 * i + 1, 2 * i + 2}" "l \<le> n" for l
    proof (cases "l = k")
      case True
      then show ?thesis using up [of i j] i l jb by (auto simp: sw)
    next
      case F: False
      then have "l \<noteq> j" using l jb(3) False by auto
      then show ?thesis using heap [OF i(1) False] l F by (auto simp: heap_at_def sw)
    qed
    then show ?thesis using False i by (auto simp: heap_at_def sw [of i])
  qed
  show "c (swap_l xs k j ! i) (swap_l xs k j ! p) \<le> 0"
    if "k0 \<le> p" "j \<in> {2 * p + 1, 2 * p + 2}" "i \<in> {2 * j + 1, 2 * j + 2}" "i \<le> n" for p i
  proof -
    have "p = k" using that(2) jb(3) by auto
    moreover have "i \<noteq> k" "i \<noteq> j" using that(3) jb(1) by auto
    ultimately show ?thesis using heap [of j] that k0 jb(1) by (auto simp: heap_at_def sw)
  qed
qed

lemma siftdown_l_heap:
  "compar_ok (set xs) c \<Longrightarrow> n < length xs \<Longrightarrow> k0 \<le> k \<Longrightarrow>
   (\<And>i. k0 \<le> i \<Longrightarrow> i \<noteq> k \<Longrightarrow> heap_at c xs n i) \<Longrightarrow>
   (\<And>p i. k0 \<le> p \<Longrightarrow> k \<in> {2 * p + 1, 2 * p + 2} \<Longrightarrow> i \<in> {2 * k + 1, 2 * k + 2} \<Longrightarrow> i \<le> n \<Longrightarrow>
      c (xs ! i) (xs ! p) \<le> 0) \<Longrightarrow> k0 \<le> l \<Longrightarrow> heap_at c (siftdown_l c xs k n) n l"
proof (induction c xs k n arbitrary: l rule: siftdown_l.induct)
  case (1 c xs k n)
  let ?j = "sift_child c xs k n"
  show ?case
  proof (cases "2 * k + 1 \<le> n \<and> c (xs ! k) (xs ! ?j) < 0")
    case True
    have jb: "k < ?j" "?j \<le> n" using sift_child_bounds [of k n c xs] True by auto
    have ms: "mset (swap_l xs k ?j) = mset xs" using jb "1.prems"(2) by (intro mset_swap_l) auto
    then have "set (swap_l xs k ?j) = set xs" by (metis set_mset_mset)
    moreover note st = sift_step [OF "1.prems"(1,2) _ refl _ "1.prems"(4,5,3)]
    ultimately have "heap_at c (siftdown_l c (swap_l xs k ?j) ?j n) n l"
      using "1.prems" True jb by (intro "1.IH") (auto intro!: st)
    then show ?thesis using True by (subst siftdown_l.simps) simp
  next
    case False
    have "heap_at c xs n k"
    proof (cases "2 * k + 1 \<le> n")
      case True
      note jb = sift_child_bounds [OF True, of c xs]
      have el: "i \<le> n \<Longrightarrow> xs ! i \<in> set xs" for i using "1.prems"(2) by simp
      have "c (xs ! ?j) (xs ! k) \<le> 0"
        using False True compar_ok_sym [OF "1.prems"(1) el el, of ?j k] jb by simp
      then show ?thesis
        using sift_child_best [OF "1.prems"(1,2) True] compar_ok_trans [OF "1.prems"(1) el el el, of _ ?j k] jb
        unfolding heap_at_def by (meson le_trans less_imp_le_nat)
    qed (simp add: heap_at_def)
    then show ?thesis using siftdown_l_stop [of k n c xs] False "1.prems"(4) [of l] "1.prems"(6) by (cases "l = k") simp_all
  qed
qed
lemma heap_root:
  assumes ok: "compar_ok (set xs) c" and len: "n < length xs" and heap: "\<And>i. heap_at c xs n i"
  shows "i \<le> n \<Longrightarrow> c (xs ! i) (xs ! 0) \<le> 0"
proof (induction i rule: less_induct)
  case (less i)
  have el: "i \<le> n \<Longrightarrow> xs ! i \<in> set xs" for i using len by simp
  show ?case
  proof (cases "i = 0")
    case True
    then show ?thesis
      using compar_ok_sym [OF ok el el, of 0 0] by (cases "c (xs ! 0) (xs ! 0) \<le> 0") auto
  next
    case False
    define p where "p = (i - 1) div 2"
    have p: "i \<in> {2 * p + 1, 2 * p + 2}" "p < i" using False by (auto simp: p_def)
    then have "c (xs ! i) (xs ! p) \<le> 0" using heap [of p] less.prems by (auto simp: heap_at_def)
    moreover have "c (xs ! p) (xs ! 0) \<le> 0" using less.IH [OF p(2)] p(2) less.prems by simp
    ultimately show ?thesis
      using compar_ok_trans [OF ok el el el, of i p 0] p(2) less.prems by simp
  qed
qed

section \<open>Heaps in memory\<close>

text \<open>
  The callback reads the two elements, of \<open>s\<close> bytes each, and nothing else.
\<close>

definition cmp_reads :: "compar_d_fn \<Rightarrow> nat \<Rightarrow> (u8 list \<Rightarrow> u8 list \<Rightarrow> int) \<Rightarrow> bool" where
  "cmp_reads cmp s c \<longleftrightarrow> (\<forall>m x y. cmp m x y = c (mem_read m x s) (mem_read m y s))"

lemma do_swap_elems:
  assumes "fits swap_type s" and "i < N" "j < N" "i \<noteq> j"
  shows "\<exists>m'. do_swap m (b + i * s) (b + j * s) s swap_type = Some m'
    \<and> elems m' b s N = swap_l (elems m b s N) i j \<and> only_changes {b..<b + N * s} m m'"
proof -
  let ?m = "swapped m (b + i * s) (b + j * s) s"
  have ap: "apart (b + i * s) (b + j * s) s" by (rule index_apart_neq [OF assms(4)])
  have "elems ?m b s N = swap_l (elems m b s N) i j"
  proof (cases "i < j")
    case True
    then show ?thesis using elems_swapped [OF True assms(3)] by (simp add: swap_l_def)
  next
    case False
    then have "j < i" using assms(4) by simp
    moreover have "?m = swapped m (b + j * s) (b + i * s) s" by (rule swapped_commute [OF ap])
    ultimately show ?thesis
      using elems_swapped [of j i N m b s] assms(2,4) by (simp add: swap_l_def list_update_swap)
  qed
  moreover have "{b + i * s..<b + i * s + s} \<union> {b + j * s..<b + j * s + s} \<subseteq> {b..<b + N * s}"
    using index_bound [OF assms(2), of s] index_bound [OF assms(3), of s] by auto
  then have "only_changes {b..<b + N * s} m ?m"
    using only_changes_swapped only_changes_mono by blast
  ultimately show ?thesis using do_swap_swapped [OF assms(1) ap] by blast
qed

lemma siftdown_refines:
  assumes c: "cmp_reads cmp s c" and fit: "fits swap_type s"
  shows "n < N \<Longrightarrow> \<exists>m'. siftdown m b s k n swap_type cmp = Some m'
    \<and> elems m' b s N = siftdown_l c (elems m b s N) k n \<and> only_changes {b..<b + N * s} m m'"
proof (induction "n - k" arbitrary: m k rule: less_induct)
  case less
  let ?xs = "elems m b s N" and ?j = "sift_child c (elems m b s N) k n"
  show ?case
  proof (cases "2 * k + 1 \<le> n")
    case True
    note jb = sift_child_bounds [OF True, of c ?xs]
    have j: "(if 2 * k + 1 < n \<and> cmp m (b + (2 * k + 1) * s) (b + (2 * k + 1 + 1) * s) < 0
        then 2 * k + 1 + 1 else 2 * k + 1) = ?j"
      using less.prems c by (auto simp: sift_child_def cmp_reads_def)
    have cj: "cmp m (b + k * s) (b + ?j * s) = c (?xs ! k) (?xs ! ?j)"
      using c jb less.prems by (simp add: cmp_reads_def)
    show ?thesis
    proof (cases "c (?xs ! k) (?xs ! ?j) < 0")
      case lt: True
      obtain m1 where m1: "do_swap m (b + ?j * s) (b + k * s) s swap_type = Some m1"
        "elems m1 b s N = swap_l ?xs ?j k" "only_changes {b..<b + N * s} m m1"
        using do_swap_elems [OF fit, of ?j N k m b] jb less.prems by auto
      have sw: "swap_l ?xs ?j k = swap_l ?xs k ?j" using jb by (simp add: swap_l_def list_update_swap)
      have dec: "n - ?j < n - k" using jb by linarith
      obtain m2 where m2: "siftdown m1 b s ?j n swap_type cmp = Some m2"
        "elems m2 b s N = siftdown_l c (elems m1 b s N) ?j n" "only_changes {b..<b + N * s} m1 m2"
        using less.hyps [OF dec less.prems] by blast
      have "siftdown m b s k n swap_type cmp = Some m2"
        using cj lt jb m1(1) m2(1)
        by (subst siftdown.simps) (simp only: Let_def True j if_True, simp add: mult.commute [of s])
      moreover have "elems m2 b s N = siftdown_l c ?xs k n"
        using m2(2) m1(2) sw True lt by (subst siftdown_l.simps) simp
      ultimately show ?thesis using only_changes_trans1 [OF m1(3) m2(3)] by auto
    next
      case ge: False
      then have "siftdown m b s k n swap_type cmp = Some m"
        using cj by (subst siftdown.simps) (simp only: Let_def True j if_True, simp)
      then show ?thesis using siftdown_l_stop [of k n c ?xs] ge by auto
    qed
  next
    case False
    then show ?thesis
      using siftdown_l_stop [of k n c ?xs] by (subst siftdown.simps) auto
  qed
qed

lemma siftdown_heap:
  assumes c: "cmp_reads cmp s c" and fit: "fits swap_type s" and n: "n < N"
    and ok: "compar_ok (set (elems m b s N)) c"
    and heap: "\<And>i. k < i \<Longrightarrow> heap_at c (elems m b s N) n i"
  shows "\<exists>m'. siftdown m b s k n swap_type cmp = Some m' \<and> only_changes {b..<b + N * s} m m'
    \<and> mset (elems m' b s N) = mset (elems m b s N)
    \<and> (\<forall>i. n < i \<longrightarrow> elems m' b s N ! i = elems m b s N ! i)
    \<and> (\<forall>i. k \<le> i \<longrightarrow> heap_at c (elems m' b s N) n i)"
proof -
  let ?xs = "elems m b s N"
  obtain m' where m': "siftdown m b s k n swap_type cmp = Some m'"
    "elems m' b s N = siftdown_l c ?xs k n" "only_changes {b..<b + N * s} m m'"
    using siftdown_refines [OF c fit n] by blast
  have "heap_at c (siftdown_l c ?xs k n) n i" if "k \<le> i" for i
    using ok n heap that by (intro siftdown_l_heap [where ?k0.0 = k]) auto
  then show ?thesis using m' siftdown_l_basic [of n ?xs c k] n by simp
qed

lemma mset_eq_set: "mset xs = mset ys \<Longrightarrow> set xs = set ys"
  by (metis set_mset_mset)

lemma heapify_loop_heap:
  assumes c: "cmp_reads cmp s c" and fit: "fits swap_type s" and n: "n < N"
  shows "compar_ok (set (elems m b s N)) c \<Longrightarrow> (\<And>i. k < i \<Longrightarrow> heap_at c (elems m b s N) n i) \<Longrightarrow>
    \<exists>m'. heapify_loop k m b s n swap_type cmp = Some m' \<and> only_changes {b..<b + N * s} m m'
    \<and> mset (elems m' b s N) = mset (elems m b s N)
    \<and> (\<forall>i. heap_at c (elems m' b s N) n i)"
proof (induction k arbitrary: m)
  case 0
  then show ?case using siftdown_heap [OF c fit n 0(1), of 0] by auto
next
  case (Suc k)
  obtain m1 where m1: "siftdown m b s (Suc k) n swap_type cmp = Some m1" "only_changes {b..<b + N * s} m m1"
    "mset (elems m1 b s N) = mset (elems m b s N)" "\<And>i. Suc k \<le> i \<Longrightarrow> heap_at c (elems m1 b s N) n i"
    using siftdown_heap [OF c fit n Suc.prems(1), of "Suc k"] Suc.prems(2) by blast
  have "compar_ok (set (elems m1 b s N)) c"
    using Suc.prems(1) mset_eq_set [OF m1(3)] by simp
  then obtain m2 where "heapify_loop k m1 b s n swap_type cmp = Some m2" "only_changes {b..<b + N * s} m1 m2"
    "mset (elems m2 b s N) = mset (elems m1 b s N)" "\<forall>i. heap_at c (elems m2 b s N) n i"
    using Suc.IH [of m1] m1(4) by (metis Suc_le_eq)
  then show ?case using m1 only_changes_trans1 [OF m1(2)] by auto
qed


text \<open>
  The state of the extraction loop: a heap up to \<open>n\<close>, followed by the sorted rest, which is not less.
\<close>

definition heap_state :: "('a \<Rightarrow> 'a \<Rightarrow> int) \<Rightarrow> 'a list \<Rightarrow> nat \<Rightarrow> bool" where
  "heap_state c xs n \<longleftrightarrow>
     (\<forall>i. heap_at c xs n i) \<and> sorted_wrt (le_of c) (drop (Suc n) xs)
     \<and> (\<forall>x \<in> set (take (Suc n) xs). \<forall>y \<in> set (drop (Suc n) xs). c x y \<le> 0)"

lemma nth_swap_root:
  "Suc n < length xs \<Longrightarrow>
     swap_l xs 0 (Suc n) ! k = (if k = 0 then xs ! Suc n else if k = Suc n then xs ! 0 else xs ! k)"
  by (rule nth_swap_l) auto

lemma nth_in_take: "k < n \<Longrightarrow> k < length xs \<Longrightarrow> x = xs ! k \<Longrightarrow> x \<in> set (take n xs)"
  by (auto simp: in_set_conv_nth)

lemma heap_at_prefix:
  "heap_at c xs (Suc n) i \<Longrightarrow> 0 < i \<Longrightarrow> i \<noteq> Suc n \<Longrightarrow> Suc n < length xs \<Longrightarrow> heap_at c (swap_l xs 0 (Suc n)) n i"
  by (auto simp: heap_at_def nth_swap_root)

lemma extract_state:
  assumes ok: "compar_ok (set xs) c" and len: "Suc n < length xs" and st: "heap_state c xs (Suc n)"
  defines "ys \<equiv> swap_l xs 0 (Suc n)"
  shows "sorted_wrt (le_of c) (drop (Suc n) ys)"
    and "\<forall>x \<in> set (take (Suc n) ys). \<forall>y \<in> set (drop (Suc n) ys). c x y \<le> 0"
    and "\<And>i. 0 < i \<Longrightarrow> heap_at c ys n i"
proof -
  have heap: "heap_at c xs (Suc n) i" for i using st by (simp add: heap_state_def)
  note root = heap_root [OF ok len heap]
  have d: "drop (Suc n) ys = xs ! 0 # drop (Suc (Suc n)) xs"
    using len by (intro nth_equalityI) (auto simp: ys_def nth_swap_root nth_Cons split: nat.splits)
  have tk: "set (take (Suc n) ys) \<subseteq> set (take (Suc (Suc n)) xs)"
  proof
    fix x assume "x \<in> set (take (Suc n) ys)"
    then obtain i where i: "i < Suc n" "x = ys ! i" by (auto simp: in_set_conv_nth)
    then have "x = xs ! (if i = 0 then Suc n else i)" using len by (simp add: ys_def nth_swap_root)
    then show "x \<in> set (take (Suc (Suc n)) xs)"
      using i(1) len by (intro nth_in_take [where k = "if i = 0 then Suc n else i"]) auto
  qed
  have x0: "xs ! 0 \<in> set (take (Suc (Suc n)) xs)"
    using len by (intro nth_in_take [where k = 0]) auto
  show "sorted_wrt (le_of c) (drop (Suc n) ys)"
    using st x0 unfolding d heap_state_def by simp
  have "c x (xs ! 0) \<le> 0" if "x \<in> set (take (Suc (Suc n)) xs)" for x
    using that root len by (auto simp: in_set_conv_nth less_Suc_eq_le)
  then show "\<forall>x \<in> set (take (Suc n) ys). \<forall>y \<in> set (drop (Suc n) ys). c x y \<le> 0"
    using st tk unfolding d heap_state_def by auto
  show "heap_at c ys n i" if "0 < i" for i
    using heap_at_prefix [OF heap that _ len] by (cases "i = Suc n") (auto simp: ys_def heap_at_def)
qed

lemma mset_take_eq:
  assumes "mset xs = mset ys" "drop n xs = drop n ys"
  shows "mset (take n xs) = mset (take n ys)"
proof -
  have "mset (take n xs) + mset (drop n xs) = mset (take n ys) + mset (drop n ys)"
    using assms(1) by (metis append_take_drop_id mset_append)
  then show ?thesis using assms(2) by simp
qed

lemma sorted_wrt_1: "sorted_wrt r (drop (Suc 0) xs) \<Longrightarrow> (\<forall>x \<in> set (take (Suc 0) xs). \<forall>y \<in> set (drop (Suc 0) xs). r x y) \<Longrightarrow> sorted_wrt r xs"
  by (cases xs) auto

lemma heapsort_loop_sorts:
  assumes c: "cmp_reads cmp s c" and fit: "fits swap_type s"
  shows "n < N \<Longrightarrow> 0 < n \<Longrightarrow> compar_ok (set (elems m b s N)) c \<Longrightarrow> heap_state c (elems m b s N) n \<Longrightarrow>
    \<exists>m'. heapsort_loop n m b s swap_type cmp = Some m' \<and> only_changes {b..<b + N * s} m m'
    \<and> mset (elems m' b s N) = mset (elems m b s N) \<and> sorted_wrt (le_of c) (elems m' b s N)"
proof (induction n arbitrary: m)
  case (Suc n)
  let ?xs = "elems m b s N"
  obtain m1 where m1: "do_swap m b (b + Suc n * s) s swap_type = Some m1"
    "elems m1 b s N = swap_l ?xs 0 (Suc n)" "only_changes {b..<b + N * s} m m1"
    using do_swap_elems [OF fit, of 0 N "Suc n" m b] Suc.prems(1) by auto
  have len: "Suc n < length ?xs" using Suc.prems(1) by simp
  note ex = extract_state [OF Suc.prems(3) len Suc.prems(4), folded m1(2)]
  have ms1: "mset (elems m1 b s N) = mset ?xs" using m1(2) len by (simp add: mset_swap_l)
  have ok1: "compar_ok (set (elems m1 b s N)) c" using Suc.prems(3) mset_eq_set [OF ms1] by simp
  show ?case
  proof (cases "n = 0")
    case True
    have "sorted_wrt (le_of c) (elems m1 b s N)"
      by (rule sorted_wrt_1 [OF ex(1,2) [unfolded True]])
    then show ?thesis using True m1 ms1 by auto
  next
    case False
    obtain m2 where m2: "siftdown m1 b s 0 n swap_type cmp = Some m2" "only_changes {b..<b + N * s} m1 m2"
      "mset (elems m2 b s N) = mset (elems m1 b s N)"
      "\<And>i. n < i \<Longrightarrow> elems m2 b s N ! i = elems m1 b s N ! i" "\<And>i. heap_at c (elems m2 b s N) n i"
      using siftdown_heap [OF c fit _ ok1 ex(3)] Suc.prems(1) by (metis Suc_lessD le0)
    have d: "drop (Suc n) (elems m2 b s N) = drop (Suc n) (elems m1 b s N)"
      by (rule nth_equalityI) (use m2(4) in \<open>simp_all del: elems_nth\<close>)
    then have "heap_state c (elems m2 b s N) n"
      using ex(1,2) m2(5) mset_eq_set [OF mset_take_eq [OF m2(3) d]] by (simp add: heap_state_def)
    moreover have "compar_ok (set (elems m2 b s N)) c" using ok1 mset_eq_set [OF m2(3)] by simp
    ultimately obtain m3 where "heapsort_loop n m2 b s swap_type cmp = Some m3"
      "only_changes {b..<b + N * s} m2 m3" "mset (elems m3 b s N) = mset (elems m2 b s N)"
      "sorted_wrt (le_of c) (elems m3 b s N)"
      using Suc.IH [of m2] Suc.prems(1) False by auto
    then show ?thesis
      using m1(1) m2(1,3) ms1 False only_changes_trans1 [OF only_changes_trans1 [OF m1(3) m2(2)]] by simp
  qed
qed simp

lemma heapsort_r_sorts:
  assumes c: "cmp_reads cmp s c" and ok: "compar_ok (set (elems m b s (Suc n))) c"
  shows "\<exists>m'. heapsort_r m b n s cmp = Some m' \<and> only_changes {b..<b + Suc n * s} m m'
    \<and> mset (elems m' b s (Suc n)) = mset (elems m b s (Suc n)) \<and> sorted_wrt (le_of c) (elems m' b s (Suc n))"
proof (cases "n = 0")
  case True
  then show ?thesis by (auto simp: heapsort_r_def elems_Suc)
next
  case False
  let ?t = "get_swap_type b s"
  have "heap_at c (elems m b s (Suc n)) n i" if "n div 2 < i" for i
    using that by (auto simp: heap_at_def)
  then obtain m1 where m1: "heapify m b s n ?t cmp = Some m1" "only_changes {b..<b + Suc n * s} m m1"
    "mset (elems m1 b s (Suc n)) = mset (elems m b s (Suc n))" "\<And>i. heap_at c (elems m1 b s (Suc n)) n i"
    using heapify_loop_heap [OF c get_swap_type_fits, of n "Suc n" m b "n div 2" b] ok by (auto simp: heapify_def)
  have "compar_ok (set (elems m1 b s (Suc n))) c" using ok mset_eq_set [OF m1(3)] by simp
  moreover have "heap_state c (elems m1 b s (Suc n)) n" using m1(4) by (simp add: heap_state_def)
  ultimately show ?thesis
    using heapsort_loop_sorts [OF c get_swap_type_fits, of n "Suc n" m1 b b] False m1
    by (auto simp: heapsort_r_def Let_def intro: only_changes_trans1)
qed
end
