(* ===== verification/Qsort_Indirect.thy ===== *)
theory Qsort_Indirect
  imports Qsort_Heap
begin

text \<open>
  Indirect sorting: the array of pointers is sorted, then the elements are moved along the cycles
  of the permutation it describes.
\<close>

section \<open>Pointers in memory\<close>

lemma load_store_same: "p < 2 ^ 64 \<Longrightarrow> load_ptr (store_ptr m a p) a = p"
  by (simp add: load_ptr_def store_ptr_def mem_read_write_same of_le_bytes_le_bytes)

lemma only_changes_store: "only_changes {a..<a + 8} m (store_ptr m a p)"
  using only_changes_write [of a "le_bytes 8 p" m] by (simp add: store_ptr_def)

lemma only_changes_load: "only_changes A m m' \<Longrightarrow> A \<inter> {a..<a + 8} = {} \<Longrightarrow> load_ptr m' a = load_ptr m a"
  by (simp add: load_ptr_def only_changes_read)

section \<open>Moving the elements\<close>

text \<open>
  The state of the second phase: pointer \<open>x\<close> of the array at \<open>tp\<close> still says where element \<open>x\<close> comes
  from, or the element is in place (\<open>x\<close> is in \<open>D\<close>) and the pointer says so.
\<close>

definition perm_state ::
  "nat \<Rightarrow> nat \<Rightarrow> nat \<Rightarrow> nat \<Rightarrow> (nat \<Rightarrow> nat) \<Rightarrow> (nat \<Rightarrow> u8 list) \<Rightarrow> mem \<Rightarrow> nat set \<Rightarrow> bool" where
  "perm_state b s n tp p blk m D \<longleftrightarrow>
     (\<forall>x < n. load_ptr m (tp + 8 * x) = b + (if x \<in> D then x else p x) * s)
     \<and> (\<forall>x < n. mem_read m (b + x * s) s = blk (if x \<in> D then p x else x))"

text \<open>The array, the pointers and the storage for one element are where the code puts them.\<close>

definition layout :: "nat \<Rightarrow> nat \<Rightarrow> nat \<Rightarrow> nat \<Rightarrow> bool" where
  "layout b s n tp \<longleftrightarrow> 0 < s \<and> b + n * s \<le> 2 ^ 64
     \<and> {b..<b + n * s} \<inter> {tp..<tp + n * 8 + s} = {}"

lemma elem_region: "x < n \<Longrightarrow> {b + x * s..<b + x * s + s} \<subseteq> {b..<b + n * (s :: nat)}"
  using index_bound [of x n s] by auto

lemma ptr_region: "x < n \<Longrightarrow> {tp + 8 * x..<tp + 8 * x + 8} \<subseteq> {tp..<tp + n * 8 + (s :: nat)}"
  by auto

lemma elem_addr: "layout b s n tp \<Longrightarrow> x < n \<Longrightarrow> b + x * s < 2 ^ 64"
  using index_bound [of x n s] by (simp add: layout_def)

lemma perm_state_store:
  assumes l: "layout b s n tp" and st: "perm_state b s n tp p blk m D" and j: "j < n"
  shows "\<forall>x < n. load_ptr (store_ptr m (tp + 8 * j) (b + j * s)) (tp + 8 * x) =
      b + (if x \<in> insert j D then x else p x) * s"
    and "\<forall>x < n. mem_read (store_ptr m (tp + 8 * j) (b + j * s)) (b + x * s) s =
      blk (if x \<in> D then p x else x)"
proof -
  let ?m = "store_ptr m (tp + 8 * j) (b + j * s)"
  note oc = only_changes_store [of "tp + 8 * j" m "b + j * s"]
  have "load_ptr ?m (tp + 8 * x) = load_ptr m (tp + 8 * x)" if "x \<noteq> j" for x
    using that by (intro only_changes_load [OF oc]) auto
  then have "load_ptr ?m (tp + 8 * x) = b + (if x \<in> insert j D then x else p x) * s" if "x < n" for x
    using st load_store_same [OF elem_addr [OF l j]] that by (cases "x = j") (simp_all add: perm_state_def)
  then show "\<forall>x < n. load_ptr ?m (tp + 8 * x) = b + (if x \<in> insert j D then x else p x) * s" by blast
  have "mem_read ?m (b + x * s) s = mem_read m (b + x * s) s" if "x < n" for x
    using ptr_region [OF j, of tp s] elem_region [OF that, of b s] l
    by (intro only_changes_read [OF oc]) (auto simp: layout_def)
  then show "\<forall>x < n. mem_read ?m (b + x * s) s = blk (if x \<in> D then p x else x)"
    using st by (auto simp: perm_state_def)
qed

text \<open>Putting block \<open>blk (p j)\<close> into place \<open>j\<close>, from wherever it is.\<close>

lemma perm_state_place:
  assumes l: "layout b s n tp" and st: "perm_state b s n tp p blk m D" and j: "j < n"
    and src: "mem_read (store_ptr m (tp + 8 * j) (b + j * s)) src s = blk (p j)"
  shows "perm_state b s n tp p blk (memcpy (store_ptr m (tp + 8 * j) (b + j * s)) (b + j * s) src s) (insert j D)"
proof -
  let ?m1 = "store_ptr m (tp + 8 * j) (b + j * s)"
  let ?m2 = "memcpy ?m1 (b + j * s) src s"
  note st1 = perm_state_store [OF l st j]
  note oc = only_changes_memcpy [of "b + j * s" s ?m1 src]
  have "load_ptr ?m2 (tp + 8 * x) = load_ptr ?m1 (tp + 8 * x)" if "x < n" for x
    using ptr_region [OF that, of tp s] elem_region [OF j, of b s] l
    by (intro only_changes_load [OF oc]) (auto simp: layout_def)
  moreover have "mem_read ?m2 (b + x * s) s = mem_read ?m1 (b + x * s) s" if "x \<noteq> j" for x
    using index_apart_neq [OF that, of b s] by (intro only_changes_read [OF oc]) auto
  moreover have "mem_read ?m2 (b + j * s) s = blk (p j)" by (simp add: mem_read_memcpy src)
  ultimately have "mem_read ?m2 (b + x * s) s = blk (if x \<in> insert j D then p x else x)"
    "load_ptr ?m2 (tp + 8 * x) = b + (if x \<in> insert j D then x else p x) * s" if "x < n" for x
    using st1 that by (cases "x = j"; simp)+
  then show ?thesis by (simp add: perm_state_def)
qed

text \<open>
  The invariant of the inner loop for a cycle that starts at \<open>i\<close>: \<open>D\<close> is what is in place, \<open>j\<close> is
  the place to fill next.
\<close>

definition cycle_inv :: "nat \<Rightarrow> (nat \<Rightarrow> nat) \<Rightarrow> nat \<Rightarrow> nat set \<Rightarrow> nat \<Rightarrow> bool" where
  "cycle_inv n p i D j \<longleftrightarrow>
     D \<subseteq> {..<n} \<and> j < n \<and> j \<notin> D \<and> i \<in> insert j D
     \<and> (\<forall>x < n. x \<notin> D \<longrightarrow> p x \<notin> D \<or> p x = i)
     \<and> (j = i \<or> (\<exists>y \<in> D. p y = j)) \<and> (\<forall>x \<in> D. p x \<in> insert j D)"

definition closed_under :: "nat \<Rightarrow> (nat \<Rightarrow> nat) \<Rightarrow> nat set \<Rightarrow> bool" where
  "closed_under n p D \<longleftrightarrow> D \<subseteq> {..<n} \<and> (\<forall>x < n. p x \<in> D \<longleftrightarrow> x \<in> D)"

lemma cycle_inv_start: "closed_under n p D \<Longrightarrow> i < n \<Longrightarrow> i \<notin> D \<Longrightarrow> cycle_inv n p i D i"
  by (auto simp: cycle_inv_def closed_under_def)

lemma cycle_inv_next:
  assumes inv: "cycle_inv n p i D j" and p: "bij_betw p {..<n} {..<n}" and ne: "p j \<noteq> i"
  shows "cycle_inv n p i (insert j D) (p j)" and "p j \<notin> insert j D"
proof -
  have D: "D \<subseteq> {..<n}" and j: "j < n" "j \<notin> D" "i \<in> insert j D"
    and bk: "\<And>x. x < n \<Longrightarrow> x \<notin> D \<Longrightarrow> p x \<notin> D \<or> p x = i"
    and prev: "j = i \<or> (\<exists>y \<in> D. p y = j)" and fwd: "\<And>x. x \<in> D \<Longrightarrow> p x \<in> insert j D"
    using inv by (auto simp: cycle_inv_def)
  have inj: "p x = p y \<Longrightarrow> x < n \<Longrightarrow> y < n \<Longrightarrow> x = y" for x y
    using p by (auto simp: bij_betw_def inj_on_def)
  have lt: "p j < n" using p j(1) by (auto simp: bij_betw_def)
  have "p j \<noteq> j" using prev ne inj j(1,2) D by (metis lessThan_iff subsetD)
  then show nd: "p j \<notin> insert j D" using bk [OF j(1,2)] ne by simp
  have "p x \<noteq> j \<or> p x = i" if "x < n" "x \<notin> insert j D" for x
    using prev inj [of x] that D by (metis insertCI lessThan_iff subsetD)
  then show "cycle_inv n p i (insert j D) (p j)"
    using D j bk fwd lt nd by (auto simp: cycle_inv_def)
qed

lemma cycle_inv_close:
  assumes inv: "cycle_inv n p i D j" and p: "bij_betw p {..<n} {..<n}" and ne: "p j = i"
  shows "closed_under n p (insert j D)"
proof -
  have inj: "p x = p y \<Longrightarrow> x < n \<Longrightarrow> y < n \<Longrightarrow> x = y" for x y
    using p by (auto simp: bij_betw_def inj_on_def)
  have "x \<in> insert j D" if "x < n" "p x \<in> insert j D" for x
  proof (rule ccontr)
    assume x: "x \<notin> insert j D"
    then have pi: "p x \<noteq> i" using inj [of x j] ne inv that(1) by (auto simp: cycle_inv_def)
    then have "p x = j" using inv x that by (auto simp: cycle_inv_def)
    then obtain y where "y \<in> D" "p y = p x" using inv pi by (auto simp: cycle_inv_def)
    moreover have "y < n" using inv \<open>y \<in> D\<close> by (auto simp: cycle_inv_def)
    ultimately show False using inj [of x y] that(1) x by auto
  qed
  moreover have "p x \<in> insert j D" if "x \<in> insert j D" for x
    using inv that ne by (auto simp: cycle_inv_def)
  ultimately show ?thesis using inv by (auto simp: closed_under_def cycle_inv_def)
qed

lemma ptr_index: "0 < s \<Longrightarrow> (b + k * s - b) div s = (k :: nat)"
  by simp

lemma ptr_eq: "layout b s n tp \<Longrightarrow> b + x * s = b + y * s \<longleftrightarrow> x = y"
  by (simp add: layout_def)

lemma only_changes_step:
  assumes "layout b s n tp" "j < n"
  shows "only_changes ({b..<b + n * s} \<union> {tp..<tp + n * 8}) m
    (memcpy (store_ptr m (tp + 8 * j) (b + j * s)) (b + j * s) src s)"
  by (rule only_changes_mono [OF only_changes_trans [OF only_changes_store only_changes_memcpy]])
    (use ptr_region [OF assms(2), of tp 0] elem_region [OF assms(2), of b s] in auto)

lemma cycle_loop_moves:
  assumes l: "layout b s n tp" and p: "bij_betw p {..<n} {..<n}"
  shows "perm_state b s n tp p blk m D \<Longrightarrow> cycle_inv n p i D j \<Longrightarrow> p j \<noteq> i \<Longrightarrow> n - card D \<le> fuel \<Longrightarrow>
    \<exists>m' D' j'. cycle_loop fuel m b s tp (b + i * s) j (b + j * s) (b + p j * s) = Some (m', j', b + j' * s)
      \<and> perm_state b s n tp p blk m' D' \<and> cycle_inv n p i D' j' \<and> p j' = i \<and> D \<subseteq> D'
      \<and> only_changes ({b..<b + n * s} \<union> {tp..<tp + n * 8}) m m'"
proof (induction fuel arbitrary: m D j)
  case 0
  have "D \<subseteq> {..<n}" "j < n" "j \<notin> D" using 0(2) by (auto simp: cycle_inv_def)
  then have "card D < card {..<n}" by (intro psubset_card_mono) auto
  then show ?case using 0(4) by simp
next
  case (Suc fuel)
  note st = Suc.prems(1) and inv = Suc.prems(2) and ne = Suc.prems(3)
  note nxt = cycle_inv_next [OF inv p ne]
  have j: "j < n" "p j < n" "j \<notin> D" "D \<subseteq> {..<n}" using inv nxt(1) by (auto simp: cycle_inv_def)
  let ?m1 = "store_ptr m (tp + 8 * j) (b + j * s)"
  let ?m2 = "memcpy ?m1 (b + j * s) (b + p j * s) s"
  have src: "mem_read ?m1 (b + p j * s) s = blk (p j)"
    using perm_state_store(2) [OF l st j(1)] j(2) nxt(2) by simp
  note st2 = perm_state_place [OF l st j(1) src]
  have kp: "load_ptr ?m2 (tp + 8 * p j) = b + p (p j) * s"
    using st2 j(2) nxt(2) by (simp add: perm_state_def)
  have k: "(b + p j * s - b) div s = p j" using l by (simp add: layout_def)
  show ?case
  proof (cases "p (p j) = i")
    case True
    then have "cycle_loop (Suc fuel) m b s tp (b + i * s) j (b + j * s) (b + p j * s) =
        Some (?m2, p j, b + p j * s)"
      by (simp only: cycle_loop.simps Let_def k kp) simp
    then show ?thesis using st2 nxt(1) True only_changes_step [OF l j(1)] by blast
  next
    case False
    then have "b + p (p j) * s \<noteq> b + i * s" using ptr_eq [OF l] by blast
    then have eq: "cycle_loop (Suc fuel) m b s tp (b + i * s) j (b + j * s) (b + p j * s) =
        cycle_loop fuel ?m2 b s tp (b + i * s) (p j) (b + p j * s) (b + p (p j) * s)"
      by (simp only: cycle_loop.simps Let_def k kp) simp
    have "finite D" using j(4) finite_subset by blast
    then have "n - card (insert j D) \<le> fuel" using Suc.prems(4) j(3) by simp
    from Suc.IH [OF st2 nxt(1) False this] obtain m' D' j' where
      "cycle_loop (Suc fuel) m b s tp (b + i * s) j (b + j * s) (b + p j * s) = Some (m', j', b + j' * s)"
      "perm_state b s n tp p blk m' D'" "cycle_inv n p i D' j'" "p j' = i" "insert j D \<subseteq> D'"
      and oc: "only_changes ({b..<b + n * s} \<union> {tp..<tp + n * 8}) ?m2 m'"
      unfolding eq by blast
    then show ?thesis using only_changes_trans1 [OF only_changes_step [OF l j(1)] oc] by blast
  qed
qed

lemma perm_state_frame:
  assumes l: "layout b s n tp" and st: "perm_state b s n tp p blk m D"
    and oc: "only_changes {tp + n * 8..<tp + n * 8 + s} m m'"
  shows "perm_state b s n tp p blk m' D"
proof -
  have "load_ptr m' (tp + 8 * x) = load_ptr m (tp + 8 * x)" if "x < n" for x
    using that by (intro only_changes_load [OF oc]) auto
  moreover have "mem_read m' (b + x * s) s = mem_read m (b + x * s) s" if "x < n" for x
    using elem_region [OF that, of b s] l by (intro only_changes_read [OF oc]) (auto simp: layout_def)
  ultimately show ?thesis using st by (simp add: perm_state_def)
qed

text \<open>The changes of the second phase stay within the array, the pointers and the storage.\<close>

abbreviation perm_area :: "nat \<Rightarrow> nat \<Rightarrow> nat \<Rightarrow> nat \<Rightarrow> nat set" where
  "perm_area b s n tp \<equiv> {b..<b + n * s} \<union> {tp..<tp + n * 8 + s}"

lemma permute_step:
  assumes l: "layout b s n tp" and p: "bij_betw p {..<n} {..<n}"
    and st: "perm_state b s n tp p blk m D" and cl: "closed_under n p D" and i: "i < n" and ne: "i \<notin> D" "p i \<noteq> i"
  shows "\<exists>m1 j D'. cycle_loop n (memcpy m (tp + n * 8) (b + i * s) s) b s tp (b + i * s) i (b + i * s) (b + p i * s)
        = Some (m1, j, b + j * s)
      \<and> perm_state b s n tp p blk (memcpy (store_ptr m1 (tp + 8 * j) (b + j * s)) (b + j * s) (tp + n * 8) s) D'
      \<and> closed_under n p D' \<and> insert i D \<subseteq> D'
      \<and> only_changes (perm_area b s n tp) m
          (memcpy (store_ptr m1 (tp + 8 * j) (b + j * s)) (b + j * s) (tp + n * 8) s)"
proof -
  let ?ts = "tp + n * 8"
  let ?m0 = "memcpy m ?ts (b + i * s) s"
  note oc0 = only_changes_memcpy [of ?ts s m "b + i * s"]
  have st0: "perm_state b s n tp p blk ?m0 D" by (rule perm_state_frame [OF l st oc0])
  have t0: "mem_read ?m0 ?ts s = blk i"
    using st i ne(1) by (simp add: mem_read_memcpy perm_state_def)
  obtain m1 D1 j where m1: "cycle_loop n ?m0 b s tp (b + i * s) i (b + i * s) (b + p i * s) = Some (m1, j, b + j * s)"
    "perm_state b s n tp p blk m1 D1" "cycle_inv n p i D1 j" "p j = i" "D \<subseteq> D1"
    "only_changes ({b..<b + n * s} \<union> {tp..<tp + n * 8}) ?m0 m1"
    using cycle_loop_moves [OF l p st0 cycle_inv_start [OF cl i ne(1)] ne(2), of n] by auto
  have j: "j < n" "i \<in> insert j D1" using m1(3) by (auto simp: cycle_inv_def)
  have ts: "({b..<b + n * s} \<union> {tp..<tp + n * 8}) \<inter> {?ts..<?ts + s} = {}"
    using l by (auto simp: layout_def)
  have "mem_read m1 ?ts s = blk i" using only_changes_read [OF m1(6) ts] t0 by simp
  moreover have "mem_read (store_ptr m1 (tp + 8 * j) (b + j * s)) ?ts s = mem_read m1 ?ts s"
    using j(1) by (intro only_changes_read [OF only_changes_store]) auto
  ultimately have src: "mem_read (store_ptr m1 (tp + 8 * j) (b + j * s)) ?ts s = blk (p j)" using m1(4) by simp
  have oc: "only_changes (perm_area b s n tp) m
      (memcpy (store_ptr m1 (tp + 8 * j) (b + j * s)) (b + j * s) ?ts s)"
    by (rule only_changes_mono [OF only_changes_trans [OF only_changes_trans [OF oc0 m1(6)] only_changes_step [OF l j(1)]]]) auto
  show ?thesis
    using m1(1,5) perm_state_place [OF l m1(2) j(1) src] cycle_inv_close [OF m1(3) p m1(4)] j(2) oc
    by blast
qed

lemma permute_loop_sorts:
  assumes l: "layout b s n tp" and p: "bij_betw p {..<n} {..<n}"
  shows "perm_state b s n tp p blk m D \<Longrightarrow> closed_under n p D \<Longrightarrow> {..<i} \<subseteq> D \<Longrightarrow> i + r = n \<Longrightarrow>
    \<exists>m'. permute_loop r m b s n tp (tp + n * 8) i (b + i * s) = Some m'
      \<and> perm_state b s n tp p blk m' {..<n} \<and> only_changes (perm_area b s n tp) m m'"
proof (induction r arbitrary: m D i)
  case 0
  then have "D = {..<n}" by (auto simp: closed_under_def)
  then show ?case using 0 by auto
next
  case (Suc r)
  note st = Suc.prems(1) and cl = Suc.prems(2)
  have i: "i < n" using Suc.prems(4) by simp
  have nx: "b + i * s + s = b + (i + 1) * s" by simp
  have kp: "load_ptr m (tp + 8 * i) = b + (if i \<in> D then i else p i) * s"
    using st i by (simp add: perm_state_def)
  show ?case
  proof (cases "i \<in> D \<or> p i = i")
    case True
    then have eq: "permute_loop (Suc r) m b s n tp (tp + n * 8) i (b + i * s) =
        permute_loop r m b s n tp (tp + n * 8) (i + 1) (b + (i + 1) * s)"
      using kp by (simp only: permute_loop.simps Let_def nx) auto
    have "perm_state b s n tp p blk m (insert i D)" "closed_under n p (insert i D)" "{..<i + 1} \<subseteq> insert i D"
    proof -
      show "perm_state b s n tp p blk m (insert i D)"
        using st True by (auto simp: perm_state_def split: if_splits)
      show "{..<i + 1} \<subseteq> insert i D" using Suc.prems(3) by (auto simp: lessThan_Suc)
      show "closed_under n p (insert i D)"
        using cl True i p unfolding closed_under_def bij_betw_def inj_on_def
        by (metis insert_iff insert_subset lessThan_iff)
    qed
    then show ?thesis unfolding eq using Suc.IH [of m "insert i D" "i + 1"] Suc.prems(4) by simp
  next
    case False
    then obtain m1 j D' where m1: "cycle_loop n (memcpy m (tp + n * 8) (b + i * s) s) b s tp (b + i * s) i
        (b + i * s) (b + p i * s) = Some (m1, j, b + j * s)"
      and st': "perm_state b s n tp p blk (memcpy (store_ptr m1 (tp + 8 * j) (b + j * s)) (b + j * s) (tp + n * 8) s) D'"
      and D': "closed_under n p D'" "insert i D \<subseteq> D'"
      and oc: "only_changes (perm_area b s n tp) m
        (memcpy (store_ptr m1 (tp + 8 * j) (b + j * s)) (b + j * s) (tp + n * 8) s)"
      using permute_step [OF l p st cl i] by blast
    have "b + p i * s \<noteq> b + i * s" using False ptr_eq [OF l] by blast
    then have eq: "permute_loop (Suc r) m b s n tp (tp + n * 8) i (b + i * s) =
        permute_loop r (memcpy (store_ptr m1 (tp + 8 * j) (b + j * s)) (b + j * s) (tp + n * 8) s)
          b s n tp (tp + n * 8) (i + 1) (b + (i + 1) * s)"
      using kp False m1 by (simp only: permute_loop.simps Let_def nx) simp
    have "{..<i + 1} \<subseteq> D'" using Suc.prems(3) D'(2) by (auto simp: less_Suc_eq)
    then show ?thesis
      unfolding eq using Suc.IH [OF st' D'(1), of "i + 1"] Suc.prems(4) only_changes_trans1 [OF oc] by auto
  qed
qed

section \<open>Sorting the pointers\<close>

lemma merge_l_map: "merge_l le (map f xs) (map f ys) = map f (merge_l (\<lambda>x y. le (f x) (f y)) xs ys)"
  by (induction "\<lambda>x y. le (f x) (f y)" xs ys rule: merge_l.induct) auto

lemma msort_l_map: "msort_l le (map f xs) = map f (msort_l (\<lambda>x y. le (f x) (f y)) xs)"
proof (induction "\<lambda>x y. le (f x) (f y)" xs rule: msort_l.induct)
  case (1 xs)
  show ?case
  proof (cases "length xs \<le> 1")
    case False
    then show ?thesis
      using 1 by (subst (1 2) msort_l.simps) (simp add: merge_l_map take_map drop_map)
  qed (simp add: msort_l.simps [of le] msort_l.simps [of "\<lambda>x y. le (f x) (f y)"])
qed

lemma merge_l_cong:
  "(\<And>x y. x \<in> set xs \<Longrightarrow> y \<in> set ys \<Longrightarrow> le x y \<longleftrightarrow> le' x y) \<Longrightarrow> merge_l le xs ys = merge_l le' xs ys"
  by (induction le xs ys rule: merge_l.induct) auto

lemma msort_l_cong:
  "(\<And>x y. x \<in> set xs \<Longrightarrow> y \<in> set xs \<Longrightarrow> le x y \<longleftrightarrow> le' x y) \<Longrightarrow> msort_l le xs = msort_l le' xs"
proof (induction le xs rule: msort_l.induct)
  case (1 le xs)
  show ?case
  proof (cases "length xs \<le> 1")
    case False
    have sub: "set (take (length xs div 2) xs) \<subseteq> set xs" "set (drop (length xs div 2) xs) \<subseteq> set xs"
      by (auto dest: in_set_takeD in_set_dropD)
    have "merge_l le (msort_l le' (take (length xs div 2) xs)) (msort_l le' (drop (length xs div 2) xs)) =
        merge_l le' (msort_l le' (take (length xs div 2) xs)) (msort_l le' (drop (length xs div 2) xs))"
      using sub "1.prems" by (intro merge_l_cong) (auto simp: set_msort_l)
    then show ?thesis
      using "1.IH" [OF False] "1.prems" sub False by (subst (1 2) msort_l.simps) (simp add: subset_iff)
  qed (simp add: msort_l.simps [of le xs] msort_l.simps [of le' xs])
qed

lemma fill_ptrs_elems:
  "elems (fill_ptrs m t (t + r * 8) ip s) t 8 r = map (\<lambda>i. le_bytes 8 (ip + i * s)) [0..<r]
   \<and> only_changes {t..<t + r * 8} m (fill_ptrs m t (t + r * 8) ip s)"
proof (induction r arbitrary: m t ip)
  case 0
  then show ?case by (simp add: fill_ptrs.simps)
next
  case (Suc r)
  let ?m = "store_ptr m t ip"
  have eq: "fill_ptrs m t (t + Suc r * 8) ip s = fill_ptrs ?m (t + 8) (t + 8 + r * 8) (ip + s) s"
    by (subst fill_ptrs.simps) (simp add: add.assoc)
  note IH = Suc.IH [of ?m "t + 8" "ip + s"]
  have "mem_read (fill_ptrs ?m (t + 8) (t + 8 + r * 8) (ip + s) s) t 8 = mem_read ?m t 8"
    using IH by (intro only_changes_read) auto
  then have hd: "mem_read (fill_ptrs m t (t + Suc r * 8) ip s) t 8 = le_bytes 8 ip"
    unfolding eq by (simp add: store_ptr_def mem_read_write_same)
  have tl: "map (\<lambda>i. le_bytes 8 (ip + i * s)) [0..<Suc r] = le_bytes 8 ip # map (\<lambda>i. le_bytes 8 (ip + s + i * s)) [0..<r]"
    by (simp add: upt_conv_Cons map_Suc_upt [symmetric] add.assoc del: upt_Suc)
  have "only_changes {t..<t + Suc r * 8} m (fill_ptrs m t (t + Suc r * 8) ip s)"
    unfolding eq by (rule only_changes_mono [OF only_changes_trans [OF only_changes_store conjunct2 [OF IH]]]) auto
  then show ?case unfolding elems_Suc hd tl using IH eq by simp
qed

text \<open>The order of two stored pointers is the order of the elements they point to.\<close>

definition ptr_le :: "(u8 list \<Rightarrow> u8 list \<Rightarrow> int) \<Rightarrow> mem \<Rightarrow> nat \<Rightarrow> u8 list \<Rightarrow> u8 list \<Rightarrow> bool" where
  "ptr_le c m s p q \<longleftrightarrow> c (mem_read m (of_le_bytes p) s) (mem_read m (of_le_bytes q) s) \<le> 0"

lemma indirect_cmp_ok:
  assumes c: "cmp_reads cmp s c" and l: "layout b s n tp"
    and d: "A \<inter> {b..<b + n * s} = {}"
  shows "cmp_ok (msort_cmp SWAP_VOID_ARG cmp) 8 (ptr_le c m0 s) ((\<lambda>i. le_bytes 8 (b + i * s)) ` {..<n}) A m0"
proof -
  have e: "mem_read m (load_ptr m x) s = mem_read m0 (of_le_bytes (mem_read m x 8)) s"
    if oc: "only_changes A m0 m" and V: "mem_read m x 8 \<in> (\<lambda>i. le_bytes 8 (b + i * s)) ` {..<n}" for m x
  proof -
    obtain i where i: "i < n" "mem_read m x 8 = le_bytes 8 (b + i * s)" using V by auto
    have "of_le_bytes (mem_read m x 8) = b + i * s"
      using i(2) elem_addr [OF l i(1)] by (simp add: of_le_bytes_le_bytes)
    moreover have "mem_read m (b + i * s) s = mem_read m0 (b + i * s) s"
      using elem_region [OF i(1), of b s] d by (intro only_changes_read [OF oc]) blast
    ultimately show ?thesis by (simp add: load_ptr_def)
  qed
  show ?thesis
    unfolding cmp_ok_def msort_cmp_def ptr_le_def using c e by (simp add: cmp_reads_def)
qed

lemma map_nth_upt: "map (\<lambda>i. xs ! i) [0..<length xs] = xs"
  by (simp add: map_nth)

lemma perm_facts:
  fixes n :: nat
  defines "perm r \<equiv> msort_l r [0..<n]"
  shows "length (perm r) = n" "x < n \<Longrightarrow> perm r ! x < n" "bij_betw (\<lambda>x. perm r ! x) {..<n} {..<n}"
proof -
  have ms: "mset (perm r) = mset [0..<n]" by (simp add: perm_def mset_msort_l)
  then have st: "set (perm r) = {..<n}" by (metis mset_eq_set set_upt atLeast0LessThan)
  have dist: "distinct (perm r)" using ms by (metis distinct_upt mset_eq_imp_distinct_iff)
  show len: "length (perm r) = n" by (simp add: perm_def)
  show "perm r ! x < n" if "x < n" using nth_mem [of x "perm r"] that len st by simp
  show "bij_betw (\<lambda>x. perm r ! x) {..<n} {..<n}"
    using bij_betw_nth [OF dist] len st by simp
qed

lemma indirect_sorts:
  assumes c: "cmp_reads cmp s c" and s: "0 < s" "b + n * s \<le> 2 ^ 64"
    and d: "{b..<b + n * s} \<inter> {buf..<buf + n * 16 + s} = {}"
  shows "\<exists>m'. indirect_msort_with_tmp \<lparr>mp_s = 8, mp_var = SWAP_VOID_ARG, mp_cmp = cmp, mp_t = buf\<rparr> m b n s = Some m'
    \<and> elems m' b s n = msort_l (le_of c) (elems m b s n)
    \<and> only_changes ({b..<b + n * s} \<union> {buf..<buf + n * 16 + s}) m m'"
proof -
  let ?p = "\<lparr>mp_s = 8, mp_var = SWAP_VOID_ARG, mp_cmp = cmp, mp_t = buf\<rparr>" and ?tp = "buf + n * 8"
  let ?xs = "elems m b s n" and ?enc = "\<lambda>i. le_bytes 8 (b + i * s)" and ?A = "{buf..<?tp + n * 8}"
  have l: "layout b s n ?tp" using s d by (auto simp: layout_def)
  have dA: "?A \<inter> {b..<b + n * s} = {}" using d by auto
  define m1 where "m1 = fill_ptrs m ?tp (?tp + n * 8) b s"
  define m2 where "m2 = msort_with_tmp ?p m1 ?tp n"
  define perm where "perm = msort_l (\<lambda>i j. c (?xs ! i) (?xs ! j) \<le> 0) [0..<n]"
  have m1: "elems m1 ?tp 8 n = map ?enc [0..<n]" "only_changes {?tp..<?tp + n * 8} m m1"
    using fill_ptrs_elems [of m ?tp n b s] by (simp_all add: m1_def)
  have ba: "elems m1 b s n = ?xs" using dA by (intro only_changes_elems [OF m1(2)]) auto
  have V: "set (elems m1 ?tp 8 n) \<subseteq> ?enc ` {..<n}" using m1(1) by auto
  have cm: "cmp_ok (msort_cmp (mp_var ?p) (mp_cmp ?p)) 8 (ptr_le c m1 s) (?enc ` {..<n}) ?A m1"
    using indirect_cmp_ok [OF c l dA] by simp
  have "elems m2 ?tp 8 n = msort_l (ptr_le c m1 s) (elems m1 ?tp 8 n)
      \<and> only_changes ({buf..<buf + n * 8} \<union> {?tp..<?tp + n * 8}) m1 m2"
    unfolding m2_def using msort_with_tmp_refines [OF _ _ cm only_changes_refl _ _ _ V]
    by (simp add: msort_width_def)
  note m2 = conjunct1 [OF this] conjunct2 [OF this]
  have blk: "mem_read m1 (b + i * s) s = ?xs ! i" if "i < n" for i using ba that by (metis elems_nth)
  have oc2: "only_changes ?A m m2"
    by (rule only_changes_mono [OF only_changes_trans [OF m1(2) m2(2)]]) auto
  have enc: "of_le_bytes (?enc i) = b + i * s" if "i < n" for i
    using elem_addr [OF l that] by (simp add: of_le_bytes_le_bytes)
  have "msort_l (\<lambda>i j. ptr_le c m1 s (?enc i) (?enc j)) [0..<n] = perm"
    unfolding perm_def by (rule msort_l_cong) (simp add: ptr_le_def enc blk)
  then have ptrs: "elems m2 ?tp 8 n = map ?enc perm" using m2(1) m1(1) by (simp add: msort_l_map)
  note pf = perm_facts [where n = n and r = "\<lambda>i j. c (?xs ! i) (?xs ! j) \<le> 0", folded perm_def]
  have "load_ptr m2 (?tp + 8 * x) = b + perm ! x * s" if "x < n" for x
  proof -
    have "mem_read m2 (?tp + x * 8) 8 = ?enc (perm ! x)"
      using elems_nth [OF that, of m2 ?tp 8] ptrs pf(1) that by simp
    then show ?thesis using enc pf(2) that by (simp add: load_ptr_def mult.commute [of 8 x])
  qed
  moreover have "mem_read m2 (b + x * s) s = ?xs ! x" if "x < n" for x
    using elem_region [OF that, of b s] dA that only_changes_read [OF oc2, of "b + x * s" s] by auto
  ultimately have "perm_state b s n ?tp (\<lambda>x. perm ! x) (\<lambda>i. ?xs ! i) m2 {}" by (simp add: perm_state_def)
  from permute_loop_sorts [OF l pf(3) this, of 0 n] obtain m3 where
    m3: "permute_loop n m2 b s n ?tp (?tp + n * 8) 0 b = Some m3"
      "perm_state b s n ?tp (\<lambda>x. perm ! x) (\<lambda>i. ?xs ! i) m3 {..<n}" "only_changes (perm_area b s n ?tp) m2 m3"
    by (auto simp: closed_under_def)
  have "elems m3 b s n = map (\<lambda>i. ?xs ! i) perm"
    using m3(2) pf(1) by (intro nth_equalityI) (simp_all add: perm_state_def)
  also have "\<dots> = msort_l (le_of c) ?xs"
    using msort_l_map [of "le_of c" "\<lambda>i. ?xs ! i" "[0..<n]"] map_nth_upt [of ?xs] by (simp add: perm_def)
  finally have "elems m3 b s n = msort_l (le_of c) ?xs" .
  moreover have "only_changes ({b..<b + n * s} \<union> {buf..<buf + n * 16 + s}) m m3"
    by (rule only_changes_mono [OF only_changes_trans [OF oc2 m3(3)]]) auto
  ultimately show ?thesis
    using m3(1) by (simp add: indirect_msort_with_tmp_def Let_def m1_def m2_def)
qed

end
