(* ===== verification/Qsort_Properties.thy ===== *)
theory Qsort_Properties
  imports Qsort_Indirect
begin

text \<open>What \<open>qsort\<close>, \<open>bsearch\<close>, \<open>lfind\<close> and \<open>lsearch\<close> promise.\<close>

section \<open>Sorting\<close>

lemma direct_sorts:
  fixes m :: mem
  assumes c: "cmp_reads cmp s c" and d: "{b..<b + n * s} \<inter> {buf..<buf + n * s} = {}"
  defines "m' \<equiv> msort_with_tmp \<lparr>mp_s = s, mp_var = get_swap_type b s, mp_cmp = cmp, mp_t = buf\<rparr> m b n"
  shows "elems m' b s n = msort_l (le_of c) (elems m b s n)"
    and "only_changes ({b..<b + n * s} \<union> {buf..<buf + n * s}) m m'"
proof -
  let ?p = "\<lparr>mp_s = s, mp_var = get_swap_type b s, mp_cmp = cmp, mp_t = buf\<rparr>"
  have w: "msort_width (mp_var ?p) s = s" by (simp add: msort_width_def get_swap_type_def)
  have "cmp_ok (msort_cmp (mp_var ?p) (mp_cmp ?p)) s (le_of c) UNIV UNIV m"
    using c by (simp add: cmp_ok_def msort_cmp_def get_swap_type_def cmp_reads_def)
  from msort_with_tmp_refines [OF _ w this only_changes_refl, of n b] d
  show "elems m' b s n = msort_l (le_of c) (elems m b s n)"
    "only_changes ({b..<b + n * s} \<union> {buf..<buf + n * s}) m m'"
    by (simp_all add: m'_def Int_commute Un_commute)
qed

text \<open>The number of bytes the merge sort uses of its buffer.\<close>

definition buffer_size :: "nat \<Rightarrow> nat \<Rightarrow> nat" where
  "buffer_size n s = (if INDIRECT_SORT_SIZE_THRES < s then n * 16 + s else n * s)"

lemma mergesort_sorts:
  assumes c: "cmp_reads cmp s c" and fits: "b + n * s \<le> 2 ^ 64"
    and d: "{b..<b + n * s} \<inter> {buf..<buf + buffer_size n s} = {}"
  shows "\<exists>m'. qsort_r_mergesort m b n s cmp buf = Some m' \<and> elems m' b s n = msort_l (le_of c) (elems m b s n)
    \<and> only_changes ({b..<b + n * s} \<union> {buf..<buf + buffer_size n s}) m m'"
proof (cases "INDIRECT_SORT_SIZE_THRES < s")
  case True
  then show ?thesis
    using indirect_sorts [OF c _ fits, of buf m] d
    by (auto simp: qsort_r_mergesort_def buffer_size_def add.assoc)
next
  case False
  then show ?thesis
    using direct_sorts [OF c, of b n buf m] d by (simp add: qsort_r_mergesort_def buffer_size_def)
qed

lemma total_size_exact:
  assumes "1 < unat n" and lt: "unat n * unat s < 2 ^ 64"
  shows "unat (qsort_total_size n s) = buffer_size (unat n) (unat s)"
proof -
  have c32: "of_nat INDIRECT_SORT_SIZE_THRES < s \<longleftrightarrow> INDIRECT_SORT_SIZE_THRES < unat s"
    by (simp add: INDIRECT_SORT_SIZE_THRES_def word_less_nat_alt)
  show ?thesis
  proof (cases "INDIRECT_SORT_SIZE_THRES < unat s")
    case False
    then show ?thesis
      using lt c32 by (simp add: qsort_total_size_def buffer_size_def unat_word_ariths)
  next
    case True
    then have s: "33 \<le> unat s" by (simp add: INDIRECT_SORT_SIZE_THRES_def)
    have "unat n * 33 \<le> unat n * unat s" by (rule mult_le_mono2 [OF s])
    moreover have "2 * unat s \<le> unat n * unat s" using assms(1) by (intro mult_le_mono1) simp
    ultimately have "unat n * 16 + unat s < 2 ^ 64" using lt by linarith
    then show ?thesis
      using True c32
      by (simp add: qsort_total_size_def buffer_size_def unat_word_ariths mod_simps)
  qed
qed


section \<open>The properties of qsort\<close>

text \<open>
  The setting of a call: the \<open>n\<close> elements of \<open>s\<close> bytes at \<open>b\<close> are in the address space, the
  automatic buffer and what \<open>malloc\<close> returns are disjoint from them, and the callback reads only
  the two elements it is given and orders the elements of the array.
\<close>

definition qsort_call ::
  "(u64 \<Rightarrow> nat option) \<Rightarrow> nat \<Rightarrow> mem \<Rightarrow> nat \<Rightarrow> u64 \<Rightarrow> u64 \<Rightarrow> compar_d_fn \<Rightarrow> (u8 list \<Rightarrow> u8 list \<Rightarrow> int) \<Rightarrow> bool" where
  "qsort_call malloc stack m b n s cmp c \<longleftrightarrow>
     b + unat n * unat s < 2 ^ 64
     \<and> {b..<b + unat n * unat s} \<inter> {stack..<stack + QSORT_STACK_SIZE} = {}
     \<and> (\<forall>k buf. malloc k = Some buf \<longrightarrow> {b..<b + unat n * unat s} \<inter> {buf..<buf + unat k} = {})
     \<and> cmp_reads cmp (unat s) c \<and> compar_ok (set (elems m b (unat s) (unat n))) c"

definition qsort_area :: "(u64 \<Rightarrow> nat option) \<Rightarrow> nat \<Rightarrow> nat \<Rightarrow> u64 \<Rightarrow> u64 \<Rightarrow> nat set" where
  "qsort_area malloc stack b n s =
     {b..<b + unat n * unat s} \<union> {stack..<stack + QSORT_STACK_SIZE}
     \<union> (case malloc (qsort_total_size n s) of
          None \<Rightarrow> {} | Some buf \<Rightarrow> {buf..<buf + unat (qsort_total_size n s)})"

lemma qsort_r_by_merge:
  assumes call: "qsort_call malloc stack m b n s cmp c"
    and how: "qsort_total_size n s \<le> of_nat QSORT_STACK_SIZE \<or> malloc (qsort_total_size n s) \<noteq> None"
  shows "\<exists>m'. qsort_r malloc stack m b n s cmp = Some m'
    \<and> elems m' b (unat s) (unat n) = msort_l (le_of c) (elems m b (unat s) (unat n))
    \<and> only_changes (qsort_area malloc stack b n s) m m'"
proof (cases "n \<le> 1")
  case True
  then have "unat n \<le> 1" by (simp add: word_le_nat_alt)
  then show ?thesis
    using True by (simp add: qsort_r_def msort_l.simps [of _ "elems m b (unat s) (unat n)"])
next
  case False
  let ?n = "unat n" and ?s = "unat s" and ?k = "qsort_total_size n s"
  have n1: "1 < ?n" using False by (simp add: word_le_nat_alt)
  have fits: "b + ?n * ?s \<le> 2 ^ 64" "?n * ?s < 2 ^ 64" and c: "cmp_reads cmp ?s c"
    using call by (auto simp: qsort_call_def)
  have k: "unat ?k = buffer_size ?n ?s" by (rule total_size_exact [OF n1 fits(2)])
  show ?thesis
  proof (cases "?k \<le> of_nat QSORT_STACK_SIZE")
    case True
    then have le: "buffer_size ?n ?s \<le> QSORT_STACK_SIZE"
      using k by (simp add: word_le_nat_alt QSORT_STACK_SIZE_def)
    then have sub: "{stack..<stack + buffer_size ?n ?s} \<subseteq> {stack..<stack + QSORT_STACK_SIZE}" by auto
    then have "{b..<b + ?n * ?s} \<inter> {stack..<stack + buffer_size ?n ?s} = {}"
      using call unfolding qsort_call_def by blast
    from mergesort_sorts [OF c fits(1) this, of m] obtain m' where
      m': "qsort_r_mergesort m b ?n ?s cmp stack = Some m'" "elems m' b ?s ?n = msort_l (le_of c) (elems m b ?s ?n)"
        "only_changes ({b..<b + ?n * ?s} \<union> {stack..<stack + buffer_size ?n ?s}) m m'" by blast
    have "only_changes (qsort_area malloc stack b n s) m m'"
      by (rule only_changes_mono [OF m'(3)]) (use sub in \<open>auto simp: qsort_area_def\<close>)
    then show ?thesis using False True m' by (auto simp: qsort_r_def)
  next
    case F: False
    then obtain buf where buf: "malloc ?k = Some buf" using how by auto
    then have "{b..<b + ?n * ?s} \<inter> {buf..<buf + buffer_size ?n ?s} = {}"
      using call k unfolding qsort_call_def by metis
    from mergesort_sorts [OF c fits(1) this, of m] obtain m' where
      m': "qsort_r_mergesort m b ?n ?s cmp buf = Some m'" "elems m' b ?s ?n = msort_l (le_of c) (elems m b ?s ?n)"
        "only_changes ({b..<b + ?n * ?s} \<union> {buf..<buf + buffer_size ?n ?s}) m m'" by blast
    have "only_changes (qsort_area malloc stack b n s) m m'"
      by (rule only_changes_mono [OF m'(3)]) (use k buf in \<open>auto simp: qsort_area_def\<close>)
    then show ?thesis using False F buf m' by (auto simp: qsort_r_def qsort_r_malloc_def Let_def)
  qed
qed

text \<open>
  C1: \<open>qsort\<close> sorts.  It returns, the array then holds the same elements in an order that agrees
  with the callback, and nothing else in memory has changed than the array and the auxiliary
  buffers.  This covers all four ways to sort: word copies, byte copies, pointers, and the
  heapsort when no buffer can be had.
\<close>

theorem qsort_sorts:
  assumes call: "qsort_call malloc stack m b n s cmp c"
  shows "\<exists>m'. qsort malloc stack m b n s cmp = Some m'
    \<and> sorted_wrt (\<lambda>x y. c x y \<le> 0) (elems m' b (unat s) (unat n))
    \<and> mset (elems m' b (unat s) (unat n)) = mset (elems m b (unat s) (unat n))
    \<and> only_changes (qsort_area malloc stack b n s) m m'"
proof (cases "n \<le> 1 \<or> qsort_total_size n s \<le> of_nat QSORT_STACK_SIZE \<or> malloc (qsort_total_size n s) \<noteq> None")
  case True
  then have "n \<le> 1 \<or> (\<exists>m'. qsort_r malloc stack m b n s cmp = Some m'
      \<and> elems m' b (unat s) (unat n) = msort_l (le_of c) (elems m b (unat s) (unat n))
      \<and> only_changes (qsort_area malloc stack b n s) m m')"
    using qsort_r_by_merge [OF call] by blast
  moreover have "total_preorder_on (set (elems m b (unat s) (unat n))) (le_of c)"
    using call by (simp add: qsort_call_def compar_ok_preorder)
  moreover have "length xs \<le> 1 \<Longrightarrow> sorted_wrt (le_of c) xs" for xs :: "u8 list list" by (cases xs) auto
  ultimately show ?thesis
    by (auto simp: qsort_def sorted_msort_l mset_msort_l qsort_r_def word_le_nat_alt)
next
  case False
  have n: "unat n = Suc (unat (n - 1))"
    using False by (simp add: unat_sub word_le_nat_alt)
  have "cmp_reads cmp (unat s) c" "compar_ok (set (elems m b (unat s) (Suc (unat (n - 1))))) c"
    using call n by (simp_all add: qsort_call_def)
  from heapsort_r_sorts [OF this] obtain m' where
    m': "heapsort_r m b (unat (n - 1)) (unat s) cmp = Some m'"
      "only_changes {b..<b + unat n * unat s} m m'"
      "mset (elems m' b (unat s) (unat n)) = mset (elems m b (unat s) (unat n))"
      "sorted_wrt (le_of c) (elems m' b (unat s) (unat n))"
    unfolding n [symmetric] by blast
  have "only_changes (qsort_area malloc stack b n s) m m'"
    by (rule only_changes_mono [OF m'(2)]) (auto simp: qsort_area_def)
  then show ?thesis
    using False m' by (simp add: qsort_def qsort_r_def qsort_r_malloc_def Let_def)
qed

definition byte_cmp :: compar_d_fn where
  "byte_cmp m x y = int (unat (m x)) - int (unat (m y))"

definition byte_order :: "u8 list \<Rightarrow> u8 list \<Rightarrow> int" where
  "byte_order x y = int (unat (x ! 0)) - int (unat (y ! 0))"

definition three_bytes :: mem where
  "three_bytes = (\<lambda>a. 0)(100 := 7, 101 := 3, 102 := 5)"

lemma three_bytes_call:
  "qsort_call (\<lambda>_. None) 1000 three_bytes 100 3 1 byte_cmp byte_order"
  by (auto simp: qsort_call_def QSORT_STACK_SIZE_def cmp_reads_def byte_cmp_def byte_order_def compar_ok_def)

theorem qsort_sorts_witness:
  "qsort_call (\<lambda>_. None) 1000 three_bytes 100 3 1 byte_cmp byte_order \<and>
   (\<exists>m'. qsort (\<lambda>_. None) 1000 three_bytes 100 3 1 byte_cmp = Some m'
      \<and> sorted_wrt (\<lambda>x y. byte_order x y \<le> 0) (elems m' 100 1 3)
      \<and> mset (elems m' 100 1 3) = {#[3], [5], [7]#})"
proof -
  have "elems three_bytes 100 1 3 = [[7], [3], [5]]"
    by (simp add: elems_def mem_read_def three_bytes_def upt_rec)
  then show ?thesis
    using qsort_sorts [OF three_bytes_call] three_bytes_call by (auto simp: add_mset_commute)
qed

text \<open>
  The heapsort that stands in when there is no memory is not stable: here it exchanges two elements whose first bytes, which
  are all that is compared, are equal.
\<close>

lemma heapsort_r_not_stable:
  "map_option (\<lambda>m. mem_read m 100 4) (heapsort_r ((\<lambda>a. 0)(100 := 1, 101 := 10, 102 := 1, 103 := 20)) 100 1 2 byte_cmp)
     = Some [1, 20, 1, 10]"
  by code_simp

text \<open>
  C4: whenever the array is short enough for the automatic buffer, or \<open>malloc\<close> provides one, the
  sort is stable: elements that compare equal keep their order.  This is what the merge sort of the code does, not what
  the manual promises: \<open>manual/search.texi\<close> warns that the order of equal elements is unpredictable, which is true only
  of the heapsort.
\<close>

theorem qsort_stable:
  assumes "qsort_call malloc stack m b n s cmp c"
    and "qsort_total_size n s \<le> of_nat QSORT_STACK_SIZE \<or> malloc (qsort_total_size n s) \<noteq> None"
  shows "\<exists>m'. qsort malloc stack m b n s cmp = Some m'
    \<and> stable_sorted_of (\<lambda>x y. c x y \<le> 0) (elems m b (unat s) (unat n)) (elems m' b (unat s) (unat n))"
  using qsort_r_by_merge [OF assms] msort_l_stable_sorted compar_ok_preorder assms(1)
  by (fastforce simp: qsort_def qsort_call_def)

theorem qsort_stable_witness:
  "qsort_call (\<lambda>_. None) 1000 three_bytes 100 3 1 byte_cmp byte_order
   \<and> qsort_total_size 3 1 \<le> of_nat QSORT_STACK_SIZE
   \<and> (\<exists>m'. qsort (\<lambda>_. None) 1000 three_bytes 100 3 1 byte_cmp = Some m'
      \<and> stable_sorted_of (\<lambda>x y. byte_order x y \<le> 0) (elems three_bytes 100 1 3) (elems m' 100 1 3))"
proof -
  have k: "qsort_total_size 3 1 \<le> of_nat QSORT_STACK_SIZE"
    by (simp add: qsort_total_size_def QSORT_STACK_SIZE_def INDIRECT_SORT_SIZE_THRES_def)
  show ?thesis using qsort_stable [OF three_bytes_call] three_bytes_call k by simp
qed

text \<open>
  C17: the size of the auxiliary buffer is computed without overflow for every array that fits in
  the address space.
\<close>

theorem qsort_total_size_no_overflow:
  assumes "1 < unat n" and "unat n * unat s < 2 ^ 64"
  shows "unat (qsort_total_size n s) =
    (if INDIRECT_SORT_SIZE_THRES < unat s then 2 * unat n * 8 + unat s else unat n * unat s)"
  using total_size_exact [OF assms] by (simp add: buffer_size_def)


theorem qsort_total_size_no_overflow_witness:
  "1 < unat (10 :: u64) \<and> unat (10 :: u64) * unat (40 :: u64) < 2 ^ 64
   \<and> unat (qsort_total_size 10 40) = 200"
  using qsort_total_size_no_overflow [of 10 40] by (simp add: INDIRECT_SORT_SIZE_THRES_def)

section \<open>Searching\<close>

text \<open>
  A sorted array, as a binary search for a key sees it: the elements the key is greater than, those
  it equals, those it is less than.
\<close>

definition ordered_for :: "compar_d_fn \<Rightarrow> mem \<Rightarrow> nat \<Rightarrow> nat \<Rightarrow> nat \<Rightarrow> nat \<Rightarrow> bool" where
  "ordered_for compar m key base n s \<longleftrightarrow>
     (\<forall>i j. i < j \<and> j < n \<longrightarrow>
        sgn (compar m key (base + j * s)) \<le> sgn (compar m key (base + i * s)))"

lemma bsearch_range:
  assumes ord: "ordered_for compar m key base N s"
  shows "lo + n \<le> N \<Longrightarrow>
    (case bsearch m key (base + lo * s) n s compar of
      Some p \<Rightarrow> (\<exists>i. lo \<le> i \<and> i < lo + n \<and> p = base + i * s) \<and> compar m key p = 0
    | None \<Rightarrow> \<forall>i. lo \<le> i \<and> i < lo + n \<longrightarrow> compar m key (base + i * s) \<noteq> 0)"
proof (induction n arbitrary: lo rule: less_induct)
  case (less n)
  let ?f = "\<lambda>i. compar m key (base + i * s)" and ?mid = "n div 2"
  show ?case
  proof (cases "n = 0")
    case True
    then show ?thesis by (simp add: bsearch.simps)
  next
    case False
    have mid: "lo + ?mid < N" "?mid < n" using False less.prems by auto
    have p: "base + lo * s + ?mid * s = base + (lo + ?mid) * s" by (simp add: algebra_simps)
    consider "?f (lo + ?mid) = 0" | "0 < ?f (lo + ?mid)" | "?f (lo + ?mid) < 0" by linarith
    then show ?thesis
    proof cases
      case 1
      then have eq: "bsearch m key (base + lo * s) n s compar = Some (base + (lo + ?mid) * s)"
        using False by (subst bsearch.simps) (simp add: p Let_def)
      have "\<exists>i. lo \<le> i \<and> i < lo + n \<and> base + (lo + ?mid) * s = base + i * s"
        using mid by (intro exI [of _ "lo + ?mid"]) simp
      then show ?thesis using eq 1 by simp
    next
      case 2
      let ?hi = "lo + ?mid + 1" and ?k = "(n - 1) div 2"
      have k: "?k < n" "?hi + ?k = lo + n" using False by presburger+
      have eq: "bsearch m key (base + lo * s) n s compar = bsearch m key (base + ?hi * s) ?k s compar"
        using False 2 by (subst bsearch.simps) (simp add: p Let_def, simp add: algebra_simps)
      have low: "?f i \<noteq> 0" if "i \<le> lo + ?mid" for i
      proof (cases "i = lo + ?mid")
        case False
        then have "sgn (?f (lo + ?mid)) \<le> sgn (?f i)" using ord mid(1) that by (simp add: ordered_for_def)
        then show ?thesis using 2 by auto
      qed (use 2 in simp)
      have "?hi + ?k \<le> N" using k(2) less.prems by simp
      note IH = less.IH [OF k(1) this, unfolded k(2)]
      show ?thesis
      proof (cases "bsearch m key (base + ?hi * s) ?k s compar")
        case None
        have "?f i \<noteq> 0" if "i < lo + n" for i
        proof (cases "i \<le> lo + ?mid")
          case True
          then show ?thesis by (rule low)
        next
          case False
          then have "?hi \<le> i" by simp
          then show ?thesis using IH None that by simp
        qed
        then show ?thesis unfolding eq None by simp
      next
        case (Some q)
        have lo: "lo \<le> i" if "?hi \<le> i" for i using that by linarith
        from IH Some have "(\<exists>i. ?hi \<le> i \<and> i < lo + n \<and> q = base + i * s) \<and> compar m key q = 0" by simp
        then have "(\<exists>i. lo \<le> i \<and> i < lo + n \<and> q = base + i * s) \<and> compar m key q = 0" using lo by blast
        then show ?thesis unfolding eq Some by simp
      qed
    next
      case 3
      have eq: "bsearch m key (base + lo * s) n s compar = bsearch m key (base + lo * s) ?mid s compar"
        using False 3 by (subst bsearch.simps) (simp add: p Let_def)
      have high: "?f i \<noteq> 0" if "lo + ?mid \<le> i" "i < N" for i
      proof (cases "i = lo + ?mid")
        case False
        then have "sgn (?f i) \<le> sgn (?f (lo + ?mid))" using ord that by (simp add: ordered_for_def)
        then show ?thesis using 3 by auto
      qed (use 3 in simp)
      have "lo + ?mid \<le> N" using mid by simp
      note IH = less.IH [OF mid(2) this]
      have lt: "i < lo + ?mid \<Longrightarrow> i < lo + n" for i using mid(2) by linarith
      show ?thesis
      proof (cases "bsearch m key (base + lo * s) ?mid s compar")
        case None
        have "?f i \<noteq> 0" if "lo \<le> i" "i < lo + n" for i
        proof (cases "i < lo + ?mid")
          case True
          then show ?thesis using IH None that by simp
        next
          case False
          then show ?thesis using high [of i] that less.prems by simp
        qed
        then show ?thesis unfolding eq None by simp
      next
        case (Some q)
        from IH Some have "(\<exists>i. lo \<le> i \<and> i < lo + ?mid \<and> q = base + i * s) \<and> compar m key q = 0" by simp
        then have "(\<exists>i. lo \<le> i \<and> i < lo + n \<and> q = base + i * s) \<and> compar m key q = 0" using lt by blast
        then show ?thesis unfolding eq Some by simp
      qed
    qed
  qed
qed

text \<open>
  C15: binary search in a sorted array.  A result is a pointer to an element that compares equal to
  the key, and the result is null only if no element does.
\<close>

theorem bsearch_correct:
  assumes "ordered_for compar m key base n s"
  shows "case bsearch m key base n s compar of
      Some p \<Rightarrow> (\<exists>i. i < n \<and> p = base + i * s) \<and> compar m key p = 0
    | None \<Rightarrow> \<forall>i. i < n \<longrightarrow> compar m key (base + i * s) \<noteq> 0"
  using bsearch_range [OF assms, of 0 n] by (simp split: option.splits)

definition sorted_bytes :: mem where
  "sorted_bytes = (\<lambda>a. 0)(50 := 5, 100 := 3, 101 := 5, 102 := 7)"

theorem bsearch_correct_witness:
  "ordered_for byte_cmp sorted_bytes 50 100 3 1
   \<and> bsearch sorted_bytes 50 100 3 1 byte_cmp = Some 101 \<and> byte_cmp sorted_bytes 50 101 = 0"
proof -
  have o: "ordered_for byte_cmp sorted_bytes 50 100 3 1"
    by (auto simp: ordered_for_def byte_cmp_def sorted_bytes_def)
  have "bsearch sorted_bytes 50 100 3 1 byte_cmp = Some 101"
    by (simp add: bsearch.simps byte_cmp_def sorted_bytes_def Let_def)
  then show ?thesis using bsearch_correct [OF o] o by simp
qed

lemma lfind_loop_result:
  "cnt \<le> nmemb \<Longrightarrow>
   \<exists>k. lfind_loop m key (base + cnt * s) cnt nmemb s compar = (base + k * s, k) \<and> cnt \<le> k \<and> k \<le> nmemb
     \<and> (\<forall>i. cnt \<le> i \<and> i < k \<longrightarrow> compar m key (base + i * s) \<noteq> 0)
     \<and> (k < nmemb \<longrightarrow> compar m key (base + k * s) = 0)"
proof (induction "nmemb - cnt" arbitrary: cnt)
  case 0
  then show ?case by (subst lfind_loop.simps) auto
next
  case (Suc d)
  show ?case
  proof (cases "compar m key (base + cnt * s) \<noteq> 0")
    case True
    have nx: "base + cnt * s + s = base + (cnt + 1) * s" by simp
    have "d = nmemb - (cnt + 1)" "cnt + 1 \<le> nmemb" using Suc.hyps(2) by auto
    from Suc.hyps(1) [OF this] obtain k where
      k: "lfind_loop m key (base + (cnt + 1) * s) (cnt + 1) nmemb s compar = (base + k * s, k)" "cnt + 1 \<le> k" "k \<le> nmemb"
        "\<forall>i. cnt + 1 \<le> i \<and> i < k \<longrightarrow> compar m key (base + i * s) \<noteq> 0" "k < nmemb \<longrightarrow> compar m key (base + k * s) = 0"
      by blast
    have "lfind_loop m key (base + cnt * s) cnt nmemb s compar = (base + k * s, k)"
    proof -
      have "cnt < nmemb" using Suc.hyps(2) by simp
      then show ?thesis using True k(1) by (subst lfind_loop.simps) (simp only: nx, simp)
    qed
    moreover have "compar m key (base + i * s) \<noteq> 0" if "cnt \<le> i" "i < k" for i
      using that True k(4) by (cases "i = cnt") auto
    ultimately show ?thesis using k by (intro exI [of _ k]) auto
  next
    case False
    then have "lfind_loop m key (base + cnt * s) cnt nmemb s compar = (base + cnt * s, cnt)"
      by (subst lfind_loop.simps) simp
    then show ?thesis using False Suc.prems by (intro exI [of _ cnt]) auto
  qed
qed

text \<open>
  C16: \<open>lsearch\<close> returns the first element that compares equal to the key and changes nothing, or,
  when there is none, stores the key behind the last element and counts it.
\<close>

theorem lsearch_correct:
  "if \<exists>i < n. compar m key (base + i * s) = 0
   then \<exists>i < n. compar m key (base + i * s) = 0 \<and> (\<forall>j < i. compar m key (base + j * s) \<noteq> 0)
     \<and> lsearch m key base n s compar = (m, n, base + i * s)
   else \<exists>m'. lsearch m key base n s compar = (m', n + 1, base + n * s)
     \<and> elems m' base s (n + 1) = elems m base s n @ [mem_read m key s]
     \<and> only_changes {base + n * s..<base + n * s + s} m m'"
proof -
  obtain k where k: "lfind_loop m key base 0 n s compar = (base + k * s, k)" "k \<le> n"
    "\<forall>i < k. compar m key (base + i * s) \<noteq> 0" "k < n \<longrightarrow> compar m key (base + k * s) = 0"
    using lfind_loop_result [of 0 n m key base s compar] by auto
  show ?thesis
  proof (cases "k < n")
    case True
    then have "lsearch m key base n s compar = (m, n, base + k * s)"
      using k(1) by (simp add: lsearch_def lfind_def)
    then show ?thesis using True k by auto
  next
    case False
    then have n: "k = n" using k(2) by simp
    then have eq: "lsearch m key base n s compar = (memcpy m (base + n * s) key s, n + 1, base + n * s)"
      using k(1) by (simp add: lsearch_def lfind_def Let_def)
    have "elems (memcpy m (base + n * s) key s) base s n = elems m base s n"
      by (rule only_changes_memcpy_elems) auto
    then have "elems (memcpy m (base + n * s) key s) base s (n + 1) = elems m base s n @ [mem_read m key s]"
      using elems_append [of "memcpy m (base + n * s) key s" base s n 1] by (simp add: elems_Suc mem_read_memcpy)
    then show ?thesis
      using k(3) n eq only_changes_memcpy by (auto simp del: elems_append)
  qed
qed


theorem lsearch_correct_witness:
  "(\<exists>i < 3. byte_cmp sorted_bytes 50 (100 + i * 1) = 0)
   \<and> lsearch sorted_bytes 50 100 3 1 byte_cmp = (sorted_bytes, 3, 101)"
proof -
  have ex: "\<exists>i < 3. byte_cmp sorted_bytes 50 (100 + i * 1) = 0"
    by (intro exI [of _ 1]) (simp add: byte_cmp_def sorted_bytes_def)
  have "i = 1" if "i < 3" "byte_cmp sorted_bytes 50 (100 + i * 1) = 0" for i :: nat
    using that by (auto simp: byte_cmp_def sorted_bytes_def split: if_splits)
  then show ?thesis
    using lsearch_correct [of 3 byte_cmp sorted_bytes 50 100 1] ex by auto
qed

end
