(* ===== verification/Rand48.thy ===== *)
theory Rand48
  imports Glibc_Prelude Complex_Main
begin

text \<open>
  The 48-bit linear congruential generator: \<open>stdlib/drand48-iter.c\<close>, the reentrant functions
  \<open>*rand48_r.c\<close> and the ones that use the static buffer (\<open>drand48\<close>, \<open>lrand48\<close>, ...), and
  \<open>rand_r\<close> of \<open>stdlib/rand_r.c\<close>.

  The state of three 16-bit words is a record, \<open>xsubi[0]\<close> the lowest part.  Where the code passes
  the state inside the buffer as \<open>xsubi\<close>, the new state is written back into the buffer.  The
  \<open>double\<close> that \<open>erand48_r\<close> stores is the rational number its fields denote.
\<close>

record xsubi =
  x0 :: u16
  x1 :: u16
  x2 :: u16

record drand48_data =
  cur_x :: xsubi
  old_x :: xsubi
  add_c :: u16
  is_init :: u16
  mul_a :: u64

definition drand48_iterate :: "xsubi \<Rightarrow> drand48_data \<Rightarrow> xsubi \<times> drand48_data" where
  "drand48_iterate xs buffer =
     (let buffer' = (if is_init buffer = 0
                     then buffer\<lparr>mul_a := 0x5deece66d, add_c := 0xb, is_init := 1\<rparr> else buffer);
          X = push_bit 32 (ucast (x2 xs)) OR ucast (push_bit 16 (ucast (x1 xs) :: u32)) OR ucast (x0 xs) :: u64;
          result = X * mul_a buffer' + ucast (add_c buffer')
      in (\<lparr>x0 = ucast (result AND 0xffff), x1 = ucast (drop_bit 16 result AND 0xffff),
           x2 = ucast (drop_bit 32 result AND 0xffff)\<rparr>, buffer'))"

section \<open>The generators\<close>

text \<open>The fields of \<open>union ieee754_double\<close> and the number they denote (a normal number).\<close>

record ieee754_double =
  negative :: bool
  exponent :: nat
  mantissa0 :: u32
  mantissa1 :: u32

definition IEEE754_DOUBLE_BIAS :: nat where
  "IEEE754_DOUBLE_BIAS = 0x3ff"

definition ieee754_value :: "ieee754_double \<Rightarrow> rat" where
  "ieee754_value t =
     (if negative t then - 1 else 1)
     * (1 + of_nat (unat (mantissa0 t) * 2 ^ 32 + unat (mantissa1 t)) / 2 ^ 52)
     * (if IEEE754_DOUBLE_BIAS \<le> exponent t then 2 ^ (exponent t - IEEE754_DOUBLE_BIAS)
        else 1 / 2 ^ (IEEE754_DOUBLE_BIAS - exponent t))"

definition erand48_r :: "xsubi \<Rightarrow> drand48_data \<Rightarrow> rat \<times> xsubi \<times> drand48_data" where
  "erand48_r xs buffer =
     (let (xs', buffer') = drand48_iterate xs buffer;
          temp = \<lparr>negative = False, exponent = IEEE754_DOUBLE_BIAS,
                  mantissa0 = push_bit 4 (ucast (x2 xs')) OR drop_bit 12 (ucast (x1 xs')),
                  mantissa1 = push_bit 20 (ucast (x1 xs') AND 0xfff) OR push_bit 4 (ucast (x0 xs'))\<rparr>
      in (ieee754_value temp - 1, xs', buffer'))"

definition nrand48_r :: "xsubi \<Rightarrow> drand48_data \<Rightarrow> c_long \<times> xsubi \<times> drand48_data" where
  "nrand48_r xs buffer =
     (let (xs', buffer') = drand48_iterate xs buffer
      in (scast (push_bit 15 (ucast (x2 xs')) OR drop_bit 1 (ucast (x1 xs')) :: c_int), xs', buffer'))"

definition jrand48_r :: "xsubi \<Rightarrow> drand48_data \<Rightarrow> c_long \<times> xsubi \<times> drand48_data" where
  "jrand48_r xs buffer =
     (let (xs', buffer') = drand48_iterate xs buffer
      in (scast (push_bit 16 (ucast (x2 xs')) OR ucast (x1 xs') :: c_int), xs', buffer'))"

text \<open>With the state of the buffer as \<open>xsubi\<close>.\<close>

definition drand48_r :: "drand48_data \<Rightarrow> rat \<times> drand48_data" where
  "drand48_r buffer =
     (let (r, xs', buffer') = erand48_r (cur_x buffer) buffer in (r, buffer'\<lparr>cur_x := xs'\<rparr>))"

text \<open>A null buffer (\<open>None\<close>) is the return value -1, also \<open>None\<close>.\<close>

definition lrand48_r :: "drand48_data option \<Rightarrow> (c_long \<times> drand48_data) option" where
  "lrand48_r b =
     (case b of None \<Rightarrow> None
      | Some buffer \<Rightarrow>
          (let (r, xs', buffer') = nrand48_r (cur_x buffer) buffer in Some (r, buffer'\<lparr>cur_x := xs'\<rparr>)))"

definition mrand48_r :: "drand48_data option \<Rightarrow> (c_long \<times> drand48_data) option" where
  "mrand48_r b =
     (case b of None \<Rightarrow> None
      | Some buffer \<Rightarrow>
          (let (r, xs', buffer') = jrand48_r (cur_x buffer) buffer in Some (r, buffer'\<lparr>cur_x := xs'\<rparr>)))"

section \<open>Seeding\<close>

definition srand48_r :: "c_long \<Rightarrow> drand48_data \<Rightarrow> drand48_data" where
  "srand48_r seedval buffer =
     (let seed = seedval AND 0xffffffff
      in buffer\<lparr>cur_x := \<lparr>x0 = 0x330e, x1 = ucast (seed AND 0xffff), x2 = ucast (signed_drop_bit 16 seed)\<rparr>,
                mul_a := 0x5deece66d, add_c := 0xb, is_init := 1\<rparr>)"

definition seed48_r :: "xsubi \<Rightarrow> drand48_data \<Rightarrow> drand48_data" where
  "seed48_r seed16v buffer =
     buffer\<lparr>old_x := cur_x buffer, cur_x := seed16v, mul_a := 0x5deece66d, add_c := 0xb, is_init := 1\<rparr>"

text \<open>The seven parameters are the state, the factor (lowest part first) and the addend.\<close>

definition lcong48_r :: "u16 list \<Rightarrow> drand48_data \<Rightarrow> drand48_data" where
  "lcong48_r param buffer =
     buffer\<lparr>cur_x := \<lparr>x0 = param ! 0, x1 = param ! 1, x2 = param ! 2\<rparr>,
            mul_a := push_bit 32 (ucast (param ! 5)) OR ucast (push_bit 16 (ucast (param ! 4) :: u32)) OR ucast (param ! 3),
            add_c := param ! 6, is_init := 1\<rparr>"

section \<open>The functions on the static buffer\<close>

definition drand48 :: "drand48_data \<Rightarrow> rat \<times> drand48_data" where
  "drand48 libc = (let (r, xs', b') = erand48_r (cur_x libc) libc in (r, b'\<lparr>cur_x := xs'\<rparr>))"

definition erand48 :: "xsubi \<Rightarrow> drand48_data \<Rightarrow> rat \<times> xsubi \<times> drand48_data" where
  "erand48 xs libc = erand48_r xs libc"

definition lrand48 :: "drand48_data \<Rightarrow> c_long \<times> drand48_data" where
  "lrand48 libc = (let (r, xs', b') = nrand48_r (cur_x libc) libc in (r, b'\<lparr>cur_x := xs'\<rparr>))"

definition nrand48 :: "xsubi \<Rightarrow> drand48_data \<Rightarrow> c_long \<times> xsubi \<times> drand48_data" where
  "nrand48 xs libc = nrand48_r xs libc"

definition mrand48 :: "drand48_data \<Rightarrow> c_long \<times> drand48_data" where
  "mrand48 libc = (let (r, xs', b') = jrand48_r (cur_x libc) libc in (r, b'\<lparr>cur_x := xs'\<rparr>))"

definition jrand48 :: "xsubi \<Rightarrow> drand48_data \<Rightarrow> c_long \<times> xsubi \<times> drand48_data" where
  "jrand48 xs libc = jrand48_r xs libc"

definition srand48 :: "c_long \<Rightarrow> drand48_data \<Rightarrow> drand48_data" where
  "srand48 seedval libc = srand48_r seedval libc"

definition seed48 :: "xsubi \<Rightarrow> drand48_data \<Rightarrow> xsubi \<times> drand48_data" where
  "seed48 seed16v libc = (let b = seed48_r seed16v libc in (old_x b, b))"

definition lcong48 :: "u16 list \<Rightarrow> drand48_data \<Rightarrow> drand48_data" where
  "lcong48 param libc = lcong48_r param libc"

section \<open>rand_r\<close>

definition rand_r :: "u32 \<Rightarrow> c_int \<times> u32" where
  "rand_r seed =
     (let n1 = seed * 1103515245 + 12345;
          r1 = (n1 div 65536) mod 2048;
          n2 = n1 * 1103515245 + 12345;
          r2 = push_bit 10 r1 XOR ((n2 div 65536) mod 1024);
          n3 = n2 * 1103515245 + 12345;
          r3 = push_bit 10 r2 XOR ((n3 div 65536) mod 1024)
      in (r3, n3))"

section \<open>The state as a number\<close>

definition state48 :: "xsubi \<Rightarrow> nat" where
  "state48 xs = unat (x2 xs) * 2 ^ 32 + unat (x1 xs) * 2 ^ 16 + unat (x0 xs)"

lemma bit_16_beyond [simp]: "16 \<le> n \<Longrightarrow> \<not> bit (x :: u16) n"
  by (auto dest: bit_imp_le_length)

lemma unat_ucast_u16 [simp]: "unat (ucast (x :: u16) :: u64) = unat x" "unat (ucast x :: u32) = unat x"
  using unsigned_less [of x, where ?'a = nat] by (simp_all add: unsigned_ucast_eq take_bit_nat_eq_self)

lemma unat_push_u16: "k \<le> 48 \<Longrightarrow> unat (push_bit k (ucast (x :: u16) :: u64)) = unat x * 2 ^ k"
proof -
  assume k: "k \<le> 48"
  have "unat x < 2 ^ 16" using unsigned_less [of x] by simp
  moreover have "(2::nat) ^ k \<le> 2 ^ 48" using k by (rule power_increasing) simp
  ultimately have "unat x * 2 ^ k < 2 ^ 16 * 2 ^ 48" by (intro mult_less_le_imp_less) auto
  then show ?thesis
    by (subst unsigned_push_bit_eq) (simp add: push_bit_eq_mult take_bit_nat_eq_self)
qed

lemma join48_parts:
  "(push_bit 32 (ucast c) OR ucast (push_bit 16 (ucast b :: u32)) OR ucast a :: u64) =
     (push_bit 32 (ucast c) OR push_bit 16 (ucast b)) OR push_bit 0 (ucast a)" for a b c :: u16
  by (rule bit_word_eqI) (auto simp: bit_simps dest: bit_imp_le_length)

lemma unat_join48:
  "unat (push_bit 32 (ucast c) OR ucast (push_bit 16 (ucast b :: u32)) OR ucast a :: u64) =
     unat c * 2 ^ 32 + unat b * 2 ^ 16 + unat a" for a b c :: u16
proof -
  have d1: "push_bit 32 (ucast c) AND push_bit 16 (ucast b) = (0 :: u64)"
    by (rule bit_word_eqI) (auto simp: bit_simps)
  have d2: "(push_bit 32 (ucast c) OR push_bit 16 (ucast b)) AND push_bit 0 (ucast a) = (0 :: u64)"
    by (rule bit_word_eqI) (auto simp: bit_simps)
  show ?thesis
    unfolding join48_parts unat_or_disjoint [OF d2] unat_or_disjoint [OF d1]
    using unat_push_u16 [of 0 a] by (simp add: unat_push_u16)
qed

lemma split48: "n mod 2 ^ 48 = (n div 2 ^ 32 mod 2 ^ 16) * 2 ^ 32 + (n div 2 ^ 16 mod 2 ^ 16) * 2 ^ 16 + (n :: nat) mod 2 ^ 16"
proof -
  have "n mod (2 ^ 16 * 2 ^ 32) = 2 ^ 16 * (n div 2 ^ 16 mod 2 ^ 32) + n mod 2 ^ 16" by (rule mod_mult2_eq)
  moreover have "n div 2 ^ 16 mod (2 ^ 16 * 2 ^ 16) = 2 ^ 16 * (n div 2 ^ 16 div 2 ^ 16 mod 2 ^ 16) + n div 2 ^ 16 mod 2 ^ 16"
    by (rule mod_mult2_eq)
  moreover have "n div 2 ^ 16 div 2 ^ 16 = n div 2 ^ 32" by (simp add: div_mult2_eq [symmetric])
  ultimately show ?thesis by simp
qed

lemma unat_mask16: "unat (ucast (drop_bit k (w :: u64) AND 0xffff) :: u16) = unat w div 2 ^ k mod 2 ^ 16"
proof -
  have "(ucast (drop_bit k w AND 0xffff) :: u16) = ucast (drop_bit k w)"
  proof (rule bit_word_eqI)
    fix n assume "n < LENGTH(16)"
    moreover have m: "0xffff = (mask 16 :: u64)" by (simp add: mask_eq_exp_minus_1)
    ultimately show "bit (ucast (drop_bit k w AND 0xffff) :: u16) n = bit (ucast (drop_bit k w) :: u16) n"
      unfolding m by (auto simp: bit_simps)
  qed
  moreover have "unat w < 2 ^ 64" using unsigned_less [of w] by simp
  ultimately show ?thesis
    by (simp only: unsigned_ucast_eq unsigned_drop_bit_eq) (simp add: take_bit_eq_mod drop_bit_eq_div)
qed

text \<open>The factor and the addend in use: the standard ones until others were set.\<close>

definition lcg_a :: "drand48_data \<Rightarrow> nat" where
  "lcg_a b = (if is_init b = 0 then 0x5deece66d else unat (mul_a b))"

definition lcg_c :: "drand48_data \<Rightarrow> nat" where
  "lcg_c b = (if is_init b = 0 then 0xb else unat (add_c b))"

lemma state48_iterate:
  "state48 (fst (drand48_iterate xs b)) = (lcg_a b * state48 xs + lcg_c b) mod 2 ^ 48"
proof -
  define b' where "b' = (if is_init b = 0 then b\<lparr>mul_a := 0x5deece66d, add_c := 0xb, is_init := 1\<rparr> else b)"
  define X where "X = (push_bit 32 (ucast (x2 xs)) OR ucast (push_bit 16 (ucast (x1 xs) :: u32)) OR ucast (x0 xs) :: u64)"
  define w where "w = X * mul_a b' + ucast (add_c b')"
  have X: "unat X = state48 xs" unfolding X_def unat_join48 state48_def by simp
  have p: "unat (mul_a b') = lcg_a b" "unat (add_c b') = lcg_c b"
    by (auto simp: b'_def lcg_a_def lcg_c_def)
  have "unat w = (state48 xs * lcg_a b + lcg_c b) mod 2 ^ 64"
    by (simp add: w_def unat_word_ariths X p mod_simps)
  moreover have "(2::nat) ^ 48 dvd 2 ^ 64" by (rule le_imp_power_dvd) simp
  ultimately have "unat w mod 2 ^ 48 = (lcg_a b * state48 xs + lcg_c b) mod 2 ^ 48"
    by (simp only: mod_mod_cancel mult.commute)
  moreover have "state48 (fst (drand48_iterate xs b)) = unat w mod 2 ^ 48"
    using unat_mask16 [of 0 w] unat_mask16 [of 16 w] unat_mask16 [of 32 w]
    unfolding split48 [of "unat w"]
    by (simp add: drand48_iterate_def Let_def state48_def w_def X_def b'_def)
  ultimately show ?thesis by simp
qed

section \<open>What the generators return\<close>

lemma unat_push_u32: "unat (x :: u32) * 2 ^ k < 2 ^ 32 \<Longrightarrow> unat (push_bit k x) = unat x * 2 ^ k"
  by (subst unsigned_push_bit_eq) (simp add: push_bit_eq_mult take_bit_nat_eq_self)

lemma unat_drop_u32: "unat (drop_bit k (x :: u32)) = unat x div 2 ^ k"
  using unsigned_less [of x, where ?'a = nat]
  by (simp only: unsigned_drop_bit_eq) (simp add: take_bit_eq_mod drop_bit_eq_div)

lemma u16_less: "unat (x :: u16) < 65536"
  using unsigned_less [of x, where ?'a = nat] by simp

lemma nrand48_word:
  "unat (push_bit 15 (ucast c) OR drop_bit 1 (ucast b) :: u32) = unat c * 2 ^ 15 + unat b div 2" for b c :: u16
proof -
  have "push_bit 15 (ucast c) AND drop_bit 1 (ucast b) = (0 :: u32)"
    by (rule bit_word_eqI) (auto simp: bit_simps)
  from unat_or_disjoint [OF this] show ?thesis
    using u16_less [of c] by (simp add: unat_push_u32 unat_drop_u32)
qed

lemma jrand48_word:
  "unat (push_bit 16 (ucast c) OR ucast b :: u32) = unat c * 2 ^ 16 + unat b" for b c :: u16
proof -
  have "push_bit 16 (ucast c) AND ucast b = (0 :: u32)"
    by (rule bit_word_eqI) (auto simp: bit_simps)
  from unat_or_disjoint [OF this] show ?thesis
    using u16_less [of c] by (simp add: unat_push_u32)
qed

lemma mantissa0_word:
  "unat (push_bit 4 (ucast c) OR drop_bit 12 (ucast b) :: u32) = unat c * 2 ^ 4 + unat b div 2 ^ 12" for b c :: u16
proof -
  have "push_bit 4 (ucast c) AND drop_bit 12 (ucast b) = (0 :: u32)"
    by (rule bit_word_eqI) (auto simp: bit_simps)
  from unat_or_disjoint [OF this] show ?thesis
    using u16_less [of c] by (simp add: unat_push_u32 unat_drop_u32)
qed

lemma mantissa1_word:
  "unat (push_bit 20 (ucast b AND 0xfff) OR push_bit 4 (ucast a) :: u32) =
     unat b mod 2 ^ 12 * 2 ^ 20 + unat a * 2 ^ 4" for a b :: u16
proof -
  have m: "(0xfff :: u32) = mask 12" by (simp add: mask_eq_exp_minus_1)
  have ub: "unat (ucast b AND 0xfff :: u32) = unat b mod 2 ^ 12"
    unfolding m by (simp add: take_bit_eq_mask [symmetric] take_bit_eq_mod unat_mod)
  have "push_bit 20 (ucast b AND 0xfff) AND push_bit 4 (ucast a) = (0 :: u32)"
    unfolding m by (rule bit_word_eqI) (auto simp: bit_simps)
  note or = unat_or_disjoint [OF this]
  have "unat b mod 2 ^ 12 < 4096" by simp
  then have "unat (push_bit 20 (ucast b AND 0xfff :: u32)) = unat b mod 2 ^ 12 * 2 ^ 20"
    unfolding ub [symmetric] by (intro unat_push_u32) simp
  moreover have "unat (push_bit 4 (ucast a :: u32)) = unat a * 2 ^ 4"
    using u16_less [of a] by (simp add: unat_push_u32)
  ultimately show ?thesis using or by (simp only:)
qed

lemma state48_less: "state48 xs < 2 ^ 48"
  using u16_less [of "x0 xs"] u16_less [of "x1 xs"] u16_less [of "x2 xs"] by (simp add: state48_def)

lemma state48_div:
  "state48 xs div 2 ^ 16 = unat (x2 xs) * 2 ^ 16 + unat (x1 xs)"
  "state48 xs div 2 ^ 17 = unat (x2 xs) * 2 ^ 15 + unat (x1 xs) div 2"
proof -
  have "state48 xs = unat (x0 xs) + (unat (x2 xs) * 2 ^ 16 + unat (x1 xs)) * 2 ^ 16"
    by (simp add: state48_def)
  then have "state48 xs div 2 ^ 16 = unat (x0 xs) div 2 ^ 16 + (unat (x2 xs) * 2 ^ 16 + unat (x1 xs))"
    by (simp only: div_mult_self1 [OF power_not_zero [of 2]] zero_neq_numeral not_False_eq_True)
  then show d16: "state48 xs div 2 ^ 16 = unat (x2 xs) * 2 ^ 16 + unat (x1 xs)"
    using u16_less [of "x0 xs"] by simp
  have "state48 xs div 2 ^ 17 = state48 xs div (2 ^ 16 * 2)" by simp
  also have "\<dots> = state48 xs div 2 ^ 16 div 2" by (rule div_mult2_eq)
  also have "state48 xs div 2 ^ 16 = unat (x1 xs) + unat (x2 xs) * 2 ^ 15 * 2" unfolding d16 by simp
  also have "(unat (x1 xs) + unat (x2 xs) * 2 ^ 15 * 2) div 2 = unat (x2 xs) * 2 ^ 15 + unat (x1 xs) div 2"
    by (rule div_mult_self1) simp
  finally show "state48 xs div 2 ^ 17 = unat (x2 xs) * 2 ^ 15 + unat (x1 xs) div 2" .
qed

lemma sint_eq_uint: "sint (w :: u32) = (if uint w < 2 ^ 31 then uint w else uint w - 2 ^ 32)"
proof -
  have lt: "uint w < 2 ^ 32" using unsigned_less [of w, where ?'a = int] by simp
  have "sint w = (uint w + 2 ^ 31) mod 2 ^ 32 - 2 ^ 31"
    by (simp add: sint_uint signed_take_bit_eq_take_bit_shift take_bit_eq_mod)
  moreover have "(uint w + 2 ^ 31) mod 2 ^ 32 = uint w - 2 ^ 31" if "\<not> uint w < 2 ^ 31"
  proof -
    have "(uint w + 2 ^ 31) mod 2 ^ 32 = (uint w - 2 ^ 31 + 2 ^ 32) mod 2 ^ 32"
      by (simp add: add.commute)
    also have "\<dots> = (uint w - 2 ^ 31) mod 2 ^ 32" by (rule mod_add_self2)
    also have "\<dots> = uint w - 2 ^ 31" using that lt by (intro mod_pos_pos_trivial) simp_all
    finally show ?thesis .
  qed
  moreover have "(uint w + 2 ^ 31) mod 2 ^ 32 = uint w + 2 ^ 31" if "uint w < 2 ^ 31"
    using that by (intro mod_pos_pos_trivial) simp_all
  ultimately show ?thesis by (cases "uint w < 2 ^ 31") simp_all
qed

lemma sint_scast_long: "sint (scast (w :: u32) :: u64) = sint w"
  by transfer (simp add: signed_take_bit_signed_take_bit)

lemma sint_of_unat: "unat (w :: u32) = n \<Longrightarrow> sint w = (if n < 2 ^ 31 then int n else int n - 2 ^ 32)"
proof -
  assume "unat w = n"
  then have "uint w = int n" by (metis of_nat_unat)
  then show ?thesis unfolding sint_eq_uint by simp
qed

lemma sint_of_unat_small: "unat (w :: u32) = n \<Longrightarrow> n < 2 ^ 31 \<Longrightarrow> sint w = int n"
  using sint_of_unat [of w n] by simp

lemma mantissa_join:
  "unat (push_bit 4 (ucast (x2 ys)) OR drop_bit 12 (ucast (x1 ys)) :: u32) * 2 ^ 32
     + unat (push_bit 20 (ucast (x1 ys) AND 0xfff) OR push_bit 4 (ucast (x0 ys)) :: u32) = 16 * state48 ys"
proof -
  define q where "q = unat (x1 ys) div 2 ^ 12"
  define r where "r = unat (x1 ys) mod 2 ^ 12"
  have "unat (x1 ys) = q * 2 ^ 12 + r" unfolding q_def r_def by (rule div_mult_mod_eq [symmetric])
  then show ?thesis
    unfolding mantissa0_word mantissa1_word state48_def q_def [symmetric] r_def [symmetric] by simp
qed

lemma snd_iterate: "snd (drand48_iterate xs b) = (if is_init b = 0 then b\<lparr>mul_a := 0x5deece66d, add_c := 0xb, is_init := 1\<rparr> else b)"
  by (simp add: drand48_iterate_def Let_def)

text \<open>
  C22: one step of the generator takes the 48-bit state \<open>X\<close> to \<open>(a * X + c) mod 2 ^ 48\<close>, with the
  factor and the addend of the buffer or, before any were set, the standard ones; the buffer keeps
  them.
\<close>

theorem drand48_iterate_lcg:
  "state48 (fst (drand48_iterate xs b)) = (lcg_a b * state48 xs + lcg_c b) mod 2 ^ 48
   \<and> lcg_a (snd (drand48_iterate xs b)) = lcg_a b \<and> lcg_c (snd (drand48_iterate xs b)) = lcg_c b
   \<and> is_init (snd (drand48_iterate xs b)) \<noteq> 0"
  using state48_iterate [of xs b] by (auto simp: snd_iterate lcg_a_def lcg_c_def)

lemma nrand48_value:
  "sint (fst (nrand48_r xs b)) = int ((lcg_a b * state48 xs + lcg_c b) mod 2 ^ 48 div 2 ^ 17)"
proof -
  define X where "X = (lcg_a b * state48 xs + lcg_c b) mod 2 ^ 48"
  obtain ys b' where it: "drand48_iterate xs b = (ys, b')" by (cases "drand48_iterate xs b")
  then have X: "state48 ys = X" using state48_iterate [of xs b] by (simp add: X_def)
  have lt: "X < 2 ^ 48" by (simp add: X_def)
  have l31: "X div 2 ^ 17 < 2 ^ 31" using lt by (simp add: less_mult_imp_div_less)
  note w17 = nrand48_word [of "x2 ys" "x1 ys", folded state48_div(2) [of ys], unfolded X]
  have "sint (fst (nrand48_r xs b)) = sint (push_bit 15 (ucast (x2 ys)) OR drop_bit 1 (ucast (x1 ys)) :: u32)"
    unfolding nrand48_r_def it by (simp only: Let_def split fst_conv sint_scast_long)
  also have "\<dots> = int (X div 2 ^ 17)" by (rule sint_of_unat_small [OF w17 l31])
  finally show ?thesis unfolding X_def .
qed

text \<open>
  C23: what the three families return of the new state \<open>X\<close>: \<open>lrand48\<close> and \<open>nrand48\<close> its high 31 bits,
  \<open>mrand48\<close> and \<open>jrand48\<close> its high 32 bits as a signed number, \<open>drand48\<close> and \<open>erand48\<close> the number
  \<open>X / 2 ^ 48\<close>, which is at least 0 and less than 1.
\<close>

theorem rand48_results:
  "let X = (lcg_a b * state48 xs + lcg_c b) mod 2 ^ 48
   in sint (fst (nrand48_r xs b)) = int (X div 2 ^ 17) \<and> X div 2 ^ 17 < 2 ^ 31
    \<and> sint (fst (jrand48_r xs b)) = (if X div 2 ^ 16 < 2 ^ 31 then int (X div 2 ^ 16) else int (X div 2 ^ 16) - 2 ^ 32)
    \<and> fst (erand48_r xs b) = of_nat X / 2 ^ 48 \<and> 0 \<le> fst (erand48_r xs b) \<and> fst (erand48_r xs b) < 1"
proof -
  define X where "X = (lcg_a b * state48 xs + lcg_c b) mod 2 ^ 48"
  define ys where "ys = fst (drand48_iterate xs b)"
  have X: "state48 ys = X" unfolding ys_def X_def by (rule state48_iterate)
  obtain b' where it: "drand48_iterate xs b = (ys, b')" by (metis prod.collapse ys_def)
  have lt: "X < 2 ^ 48" by (simp add: X_def)
  have l31: "X div 2 ^ 17 < 2 ^ 31" using lt by (simp add: less_mult_imp_div_less)
  have l32: "X div 2 ^ 16 < 2 ^ 32" using lt by (simp add: less_mult_imp_div_less)
  note w16 = jrand48_word [of "x2 ys" "x1 ys", folded state48_div(1) [of ys], unfolded X]
  have n: "sint (fst (nrand48_r xs b)) = int (X div 2 ^ 17)" unfolding X_def by (rule nrand48_value)
  have "sint (fst (jrand48_r xs b)) = sint (push_bit 16 (ucast (x2 ys)) OR ucast (x1 ys) :: u32)"
    unfolding jrand48_r_def it by (simp only: Let_def split fst_conv sint_scast_long)
  also have "\<dots> = (if X div 2 ^ 16 < 2 ^ 31 then int (X div 2 ^ 16) else int (X div 2 ^ 16) - 2 ^ 32)"
    by (rule sint_of_unat [OF w16])
  finally have j: "sint (fst (jrand48_r xs b)) =
      (if X div 2 ^ 16 < 2 ^ 31 then int (X div 2 ^ 16) else int (X div 2 ^ 16) - 2 ^ 32)" .
  have "fst (erand48_r xs b) = (1 + of_nat (16 * state48 ys) / 2 ^ 52) * 1 - (1 :: rat)"
    unfolding erand48_r_def it
    by (simp only: Let_def split fst_conv ieee754_value_def ieee754_double.select_convs mantissa_join if_False
          order_refl if_True diff_self_eq_0 power_0 mult_1 mult_1_right)
  then have e: "fst (erand48_r xs b) = of_nat X / 2 ^ 48" unfolding X by simp
  have "of_nat X < (2 ^ 48 :: rat)" using lt by (metis of_nat_less_iff of_nat_numeral of_nat_power)
  then have "of_nat X / 2 ^ 48 < (1 :: rat)" by simp
  then show ?thesis using n j e l31 unfolding X_def [symmetric] Let_def by simp
qed

definition std_step :: "nat \<Rightarrow> nat" where
  "std_step X = (0x5deece66d * X + 0xb) mod 2 ^ 48"

primrec lrand48_seq :: "nat \<Rightarrow> drand48_data \<Rightarrow> c_long list \<times> drand48_data" where
  "lrand48_seq 0 libc = ([], libc)"
| "lrand48_seq (Suc n) libc =
     (let (r, libc') = lrand48 libc; (rs, libc'') = lrand48_seq n libc' in (r # rs, libc''))"

lemma lrand48_step:
  assumes "lcg_a b = 0x5deece66d" "lcg_c b = 0xb"
  obtains b' where "lrand48 b = (fst (lrand48 b), b')" "sint (fst (lrand48 b)) = int (std_step (state48 (cur_x b)) div 2 ^ 17)"
    "state48 (cur_x b') = std_step (state48 (cur_x b))" "lcg_a b' = 0x5deece66d" "lcg_c b' = 0xb"
proof -
  obtain ys c where it: "drand48_iterate (cur_x b) b = (ys, c)" by (cases "drand48_iterate (cur_x b) b")
  have c: "lcg_a c = lcg_a b" "lcg_c c = lcg_c b" and ys: "state48 ys = std_step (state48 (cur_x b))"
    using snd_iterate [of "cur_x b" b] state48_iterate [of "cur_x b" b] assms it
    by (auto simp: lcg_a_def lcg_c_def std_step_def)
  have r: "fst (lrand48 b) = fst (nrand48_r (cur_x b) b)" "lrand48 b = (fst (lrand48 b), c\<lparr>cur_x := ys\<rparr>)"
    using it by (simp_all add: lrand48_def nrand48_r_def)
  have s: "sint (fst (lrand48 b)) = int (std_step (state48 (cur_x b)) div 2 ^ 17)"
    using nrand48_value [of "cur_x b" b] assms unfolding r(1) std_step_def by simp
  have "lcg_a (c\<lparr>cur_x := ys\<rparr>) = lcg_a c" "lcg_c (c\<lparr>cur_x := ys\<rparr>) = lcg_c c"
    by (simp_all add: lcg_a_def lcg_c_def)
  then show ?thesis using that [OF r(2) s] ys c assms by simp
qed

lemma lrand48_seq_values:
  "lcg_a b = 0x5deece66d \<Longrightarrow> lcg_c b = 0xb \<Longrightarrow>
   map sint (fst (lrand48_seq n b)) = map (\<lambda>i. int ((std_step ^^ Suc i) (state48 (cur_x b)) div 2 ^ 17)) [0..<n]"
proof (induction n arbitrary: b)
  case (Suc n)
  obtain b' where b': "lrand48 b = (fst (lrand48 b), b')" "sint (fst (lrand48 b)) = int (std_step (state48 (cur_x b)) div 2 ^ 17)"
    "state48 (cur_x b') = std_step (state48 (cur_x b))" "lcg_a b' = 0x5deece66d" "lcg_c b' = 0xb"
    using lrand48_step [OF Suc.prems] by blast
  have "fst (lrand48_seq (Suc n) b) = fst (lrand48 b) # fst (lrand48_seq n b')"
    using b'(1) by (auto simp: split: prod.splits)
  moreover have "[0..<Suc n] = 0 # map Suc [0..<n]" by (simp add: upt_conv_Cons map_Suc_upt del: upt_Suc)
  ultimately show ?case
    using b'(2,3) Suc.IH [OF b'(4,5)] by (simp add: comp_def funpow_swap1 del: upt_Suc)
qed simp

lemma srand48_state: "state48 (cur_x (srand48 seedval libc)) = unat seedval mod 2 ^ 32 * 2 ^ 16 + 0x330e"
proof -
  have m: "(0xffffffff :: u64) = mask 32" by (simp add: mask_eq_exp_minus_1)
  have s: "(ucast (signed_drop_bit 16 (seedval AND 0xffffffff)) :: u16) = ucast (drop_bit 16 seedval AND 0xffff)"
  proof (rule bit_word_eqI)
    fix n assume "n < LENGTH(16)"
    moreover have m': "(0xffff :: u64) = mask 16" by (simp add: mask_eq_exp_minus_1)
    ultimately show "bit (ucast (signed_drop_bit 16 (seedval AND 0xffffffff)) :: u16) n =
        bit (ucast (drop_bit 16 seedval AND 0xffff) :: u16) n"
      unfolding m m' by (auto simp: bit_simps)
  qed
  have s1: "(ucast ((seedval AND 0xffffffff) AND 0xffff) :: u16) = ucast (drop_bit 0 seedval AND 0xffff)"
    by (simp add: and.assoc)
  have "unat seedval mod 2 ^ 32 = 2 ^ 16 * (unat seedval div 2 ^ 16 mod 2 ^ 16) + unat seedval mod 2 ^ 16"
    using mod_mult2_eq [of "unat seedval" "2 ^ 16" "2 ^ 16"] by simp
  then show ?thesis
    using unat_mask16 [of 16 seedval] unat_mask16 [of 0 seedval]
    unfolding srand48_def srand48_r_def Let_def state48_def
    by (simp only: drand48_data.simps xsubi.simps s s1) simp
qed

text \<open>
  C24: after \<open>srand48\<close> the calls of \<open>lrand48\<close> return the high 31 bits of the successive states of the
  standard generator, from the state whose high 32 bits are the low 32 bits of the seed and whose
  low 16 bits are 0x330E.
\<close>

theorem srand48_lrand48_sequence:
  "map sint (fst (lrand48_seq n (srand48 seedval libc))) =
   map (\<lambda>i. int ((std_step ^^ Suc i) (unat seedval mod 2 ^ 32 * 2 ^ 16 + 0x330e) div 2 ^ 17)) [0..<n]"
proof -
  have "lcg_a (srand48 seedval libc) = 0x5deece66d" "lcg_c (srand48 seedval libc) = 0xb"
    by (simp_all add: srand48_def srand48_r_def Let_def lcg_a_def lcg_c_def)
  from lrand48_seq_values [OF this, of n] show ?thesis unfolding srand48_state .
qed

section \<open>rand_r\<close>

lemma unat_xor_disjoint: "(a :: 'a::len word) AND b = 0 \<Longrightarrow> unat (a XOR b) = unat a + unat b"
proof -
  assume d: "a AND b = 0"
  have "a XOR b = a OR b"
  proof (rule bit_word_eqI)
    fix n
    have "\<not> (bit a n \<and> bit b n)" using d by (metis bit_and_iff bit_0_eq bot_apply bot_bool_def)
    then show "bit (a XOR b) n = bit (a OR b) n" by (auto simp: bit_simps)
  qed
  then show ?thesis using unat_or_disjoint [OF d] by simp
qed

definition rand_r_step :: "u32 \<Rightarrow> u32" where
  "rand_r_step x = x * 1103515245 + 12345"

lemma append_10_bits:
  assumes "unat (r :: u32) < 2 ^ 22"
  shows "unat (push_bit 10 r XOR (w mod 1024)) = unat r * 2 ^ 10 + unat w mod 1024"
proof -
  have m: "w mod 1024 = take_bit 10 w" by (simp add: take_bit_eq_mod)
  have "push_bit 10 r AND (w mod 1024) = 0" unfolding m by (rule bit_word_eqI) (auto simp: bit_simps)
  from unat_xor_disjoint [OF this] show ?thesis using assms by (simp add: unat_push_u32 unat_mod)
qed

text \<open>
  C25: \<open>rand_r\<close> returns a number between 0 and \<open>RAND_MAX\<close>: 11, 10 and 10 bits taken from three
  successive states of its 32-bit congruential generator, the last of which it stores.
\<close>

theorem rand_r_range:
  "snd (rand_r seed) = rand_r_step (rand_r_step (rand_r_step seed))
    \<and> unat (fst (rand_r seed)) = (unat (rand_r_step seed) div 65536 mod 2048) * 2 ^ 20
        + (unat (rand_r_step (rand_r_step seed)) div 65536 mod 1024) * 2 ^ 10 + unat (rand_r_step (rand_r_step (rand_r_step seed))) div 65536 mod 1024
    \<and> unat (fst (rand_r seed)) \<le> 2147483647"
proof -
  define r1 where "r1 = (rand_r_step seed div 65536) mod 2048"
  define r2 where "r2 = push_bit 10 r1 XOR ((rand_r_step (rand_r_step seed) div 65536) mod 1024)"
  have r: "rand_r seed = (push_bit 10 r2 XOR ((rand_r_step (rand_r_step (rand_r_step seed)) div 65536) mod 1024), rand_r_step (rand_r_step (rand_r_step seed)))"
    by (simp add: rand_r_def Let_def rand_r_step_def r1_def r2_def)
  have u1: "unat r1 = unat (rand_r_step seed) div 65536 mod 2048" unfolding r1_def by (simp add: unat_mod unat_div)
  then have l1: "unat r1 < 2048" by simp
  have u2: "unat r2 = unat r1 * 2 ^ 10 + unat (rand_r_step (rand_r_step seed)) div 65536 mod 1024"
    unfolding r2_def using l1 by (subst append_10_bits) (simp_all add: unat_div)
  have "unat (rand_r_step (rand_r_step seed)) div 65536 mod 1024 < 1024" by simp
  then have l2: "unat r2 < 2 ^ 21" using u2 l1 by simp
  have u3: "unat (fst (rand_r seed)) = unat r2 * 2 ^ 10 + unat (rand_r_step (rand_r_step (rand_r_step seed))) div 65536 mod 1024"
    unfolding r fst_conv using l2 by (subst append_10_bits) (simp_all add: unat_div)
  have "unat (rand_r_step (rand_r_step (rand_r_step seed))) div 65536 mod 1024 < 1024" by simp
  then have "unat (fst (rand_r seed)) \<le> 2147483647" unfolding u3 using l2 by simp
  then show ?thesis using r u1 u2 u3 by simp
qed

end
