(* ===== verification/Random_Gen.thy ===== *)
theory Random_Gen
  imports Glibc_Prelude "HOL-Library.Signed_Division"
begin

text \<open>
  The additive-feedback generator of \<open>stdlib/random_r.c\<close> and the functions of \<open>stdlib/random.c\<close> and
  \<open>stdlib/rand.c\<close> that use its static buffer.

  The state arrays are 32-bit words in the byte memory; a pointer is an address, 0 the null
  pointer.  The functions return \<open>errno\<close> if they store it, whether they succeeded, the memory and the
  generator's data.  Every address of the memory can be written, so that an array passed as a null pointer, where C
  would fault, is not told apart.  The locks of \<open>random.c\<close> are not part of the model.
\<close>

record random_data =
  fptr :: nat
  rptr :: nat
  state :: nat
  rand_type :: int
  rand_deg :: int
  rand_sep :: int
  end_ptr :: nat

definition MAX_TYPES :: int where
  "MAX_TYPES = 5"

definition random_degrees :: "int list" where
  "random_degrees = [0, 7, 15, 31, 63]"

definition random_seps :: "int list" where
  "random_seps = [0, 3, 1, 3, 1]"

definition state_addr :: "nat \<Rightarrow> int \<Rightarrow> nat" where
  "state_addr b idx = nat (int b + idx * 4)"

definition read_state :: "mem \<Rightarrow> nat \<Rightarrow> int \<Rightarrow> u32" where
  "read_state m b idx = of_nat (of_le_bytes (mem_read m (state_addr b idx) 4))"

definition write_state :: "mem \<Rightarrow> nat \<Rightarrow> int \<Rightarrow> u32 \<Rightarrow> mem" where
  "write_state m b idx v = mem_write m (state_addr b idx) (le_bytes 4 (unat v))"

section \<open>One number\<close>

definition random_r :: "mem \<Rightarrow> random_data option \<Rightarrow> bool
    \<Rightarrow> errno + (c_int \<times> mem \<times> random_data)" where
  "random_r m b result_ok =
     (case b of
        None \<Rightarrow> Inl EINVAL
      | Some buf \<Rightarrow>
          if \<not> result_ok then Inl EINVAL
          else if rand_type buf = 0
          then (let val = (read_state m (state buf) 0 * 1103515245 + 12345) AND 0x7fffffff
                in Inr (val, write_state m (state buf) 0 val, buf))
          else
            (let val = read_state m (fptr buf) 0 + read_state m (rptr buf) 0;
                 m' = write_state m (fptr buf) 0 val;
                 result = drop_bit 1 val;
                 fp = fptr buf + 4
             in if end_ptr buf \<le> fp
                then Inr (result, m', buf\<lparr>fptr := state buf, rptr := rptr buf + 4\<rparr>)
                else (let rp = rptr buf + 4
                      in Inr (result, m', buf\<lparr>fptr := fp, rptr := if end_ptr buf \<le> rp then state buf else rp\<rparr>))))"

section \<open>Seeding\<close>

definition srandom_word :: "c_int \<Rightarrow> c_int" where
  "srandom_word word =
     (let hi = sint word sdiv 127773; lo = sint word smod 127773;
          word' = of_int (16807 * lo - 2836 * hi) :: c_int
      in if sint word' < 0 then word' + 2147483647 else word')"

primrec srandom_fill :: "nat \<Rightarrow> mem \<Rightarrow> nat \<Rightarrow> c_int \<Rightarrow> mem" where
  "srandom_fill 0 m dst word = m"
| "srandom_fill (Suc r) m dst word =
     (let word' = srandom_word word
      in srandom_fill r (write_state m (dst + 4) 0 word') (dst + 4) word')"

primrec srandom_discard :: "nat \<Rightarrow> mem \<Rightarrow> random_data \<Rightarrow> mem \<times> random_data" where
  "srandom_discard 0 m buf = (m, buf)"
| "srandom_discard (Suc kc) m buf =
     (case random_r m (Some buf) True of
        Inl e \<Rightarrow> srandom_discard kc m buf
      | Inr (discard, m', buf') \<Rightarrow> srandom_discard kc m' buf')"

text \<open>\<open>None\<close> is the return value -1; \<open>errno\<close> is not stored.\<close>

definition srandom_r :: "mem \<Rightarrow> u32 \<Rightarrow> random_data option \<Rightarrow> (mem \<times> random_data) option" where
  "srandom_r m seed b =
     (case b of
        None \<Rightarrow> None
      | Some buf \<Rightarrow>
          if rand_type buf < 0 \<or> MAX_TYPES \<le> rand_type buf then None
          else
            (let seed' = (if seed = 0 then 1 else seed);
                 m1 = write_state m (state buf) 0 seed'
             in if rand_type buf = 0 then Some (m1, buf)
                else
                  (let kc = rand_deg buf;
                       m2 = srandom_fill (nat (kc - 1)) m1 (state buf) seed';
                       buf' = buf\<lparr>fptr := state_addr (state buf) (rand_sep buf), rptr := state buf\<rparr>
                   in Some (srandom_discard (nat (kc * 10)) m2 buf'))))"

section \<open>State arrays\<close>

text \<open>The word before the state: the type multiplexed with the position of the rear pointer.\<close>

definition save_state :: "mem \<Rightarrow> random_data \<Rightarrow> mem" where
  "save_state m buf =
     (if rand_type buf = 0 then write_state m (state buf) (- 1) 0
      else write_state m (state buf) (- 1)
             (of_int (MAX_TYPES * ((int (rptr buf) - int (state buf)) div 4) + rand_type buf)))"

definition random_type_for :: "nat \<Rightarrow> int option" where
  "random_type_for n =
     (if 128 \<le> n then Some (if n < 256 then 3 else 4)
      else if n < 32 then (if n < 8 then None else Some 0)
      else Some (if n < 64 then 1 else 2))"

definition initstate_r ::
  "mem \<Rightarrow> u32 \<Rightarrow> nat \<Rightarrow> nat \<Rightarrow> random_data option
     \<Rightarrow> errno option \<times> mem \<times> random_data option" where
  "initstate_r m seed arg_state n b =
     (case b of
        None \<Rightarrow> (Some EINVAL, m, None)
      | Some buf \<Rightarrow>
          (let m1 = (if state buf \<noteq> 0 then save_state m buf else m)
           in case random_type_for n of
                None \<Rightarrow> (Some EINVAL, m1, Some buf)
              | Some type \<Rightarrow>
                  (let degree = random_degrees ! nat type; separation = random_seps ! nat type;
                       st = arg_state + 4;
                       buf1 = buf\<lparr>rand_type := type, rand_sep := separation, rand_deg := degree,
                                  end_ptr := state_addr st degree, state := st\<rparr>;
                       (m2, buf2) = (case srandom_r m1 seed (Some buf1) of None \<Rightarrow> (m1, buf1) | Some r \<Rightarrow> r);
                       m3 = write_state m2 st (- 1) 0;
                       m4 = (if type \<noteq> 0
                             then write_state m3 st (- 1)
                                    (of_int ((int (rptr buf2) - int st) div 4 * MAX_TYPES + type))
                             else m3)
                   in (None, m4, Some buf2))))"

definition setstate_r ::
  "mem \<Rightarrow> nat \<Rightarrow> random_data option \<Rightarrow> errno option \<times> mem \<times> random_data option" where
  "setstate_r m arg_state b =
     (case b of
        None \<Rightarrow> (Some EINVAL, m, None)
      | Some buf \<Rightarrow>
          if arg_state = 0 then (Some EINVAL, m, Some buf)
          else
            (let new_state = arg_state + 4;
                 m1 = save_state m buf;
                 info = sint (read_state m1 new_state (- 1));
                 type = info smod MAX_TYPES
             in if type < 0 \<or> 4 < type then (Some EINVAL, m1, Some buf)
                else
                  (let degree = random_degrees ! nat type; separation = random_seps ! nat type;
                       buf1 = buf\<lparr>rand_deg := degree, rand_sep := separation, rand_type := type\<rparr>;
                       buf2 = (if type \<noteq> 0
                               then (let rear = info sdiv MAX_TYPES
                                     in buf1\<lparr>rptr := state_addr new_state rear,
                                             fptr := state_addr new_state ((rear + separation) smod degree)\<rparr>)
                               else buf1)
                   in (None, m1, Some (buf2\<lparr>state := new_state, end_ptr := state_addr new_state degree\<rparr>)))))"

section \<open>The functions on the static buffer\<close>

definition srandom :: "mem \<Rightarrow> u32 \<Rightarrow> random_data \<Rightarrow> mem \<times> random_data" where
  "srandom m x unsafe_state =
     (case srandom_r m x (Some unsafe_state) of None \<Rightarrow> (m, unsafe_state) | Some r \<Rightarrow> r)"

text \<open>\<open>initstate\<close> and \<open>setstate\<close> return the old state array, or null.\<close>

definition initstate :: "mem \<Rightarrow> u32 \<Rightarrow> nat \<Rightarrow> nat \<Rightarrow> random_data
    \<Rightarrow> nat option \<times> mem \<times> random_data option" where
  "initstate m seed arg_state n unsafe_state =
     (let ostate = state_addr (state unsafe_state) (- 1);
          (e, m', b') = initstate_r m seed arg_state n (Some unsafe_state)
      in (if e \<noteq> None then None else Some ostate, m', b'))"

definition setstate :: "mem \<Rightarrow> nat \<Rightarrow> random_data \<Rightarrow> nat option \<times> mem \<times> random_data option" where
  "setstate m arg_state unsafe_state =
     (let ostate = state_addr (state unsafe_state) (- 1);
          (e, m', b') = setstate_r m arg_state (Some unsafe_state)
      in (if e \<noteq> None then None else Some ostate, m', b'))"

definition random :: "mem \<Rightarrow> random_data \<Rightarrow> errno + (c_int \<times> mem \<times> random_data)" where
  "random m unsafe_state = random_r m (Some unsafe_state) True"

definition rand :: "mem \<Rightarrow> random_data \<Rightarrow> errno + (c_int \<times> mem \<times> random_data)" where
  "rand m unsafe_state = random m unsafe_state"

end
