(* ===== verification/Random_State.thy ===== *)
theory Random_State
  imports Random_Gen
begin

text \<open>
  The state array of the additive generator as a shift register: one call of \<open>random_r\<close> is one step of the
  register, seeding fills it with a Lehmer sequence and runs it ten times round, and the header word of a
  state array records enough to resume it.
\<close>

section \<open>Words of a state array\<close>

lemma unat_u32_less: "unat (v :: u32) < 256 ^ 4"
  using unsigned_less [of v, where ?'a = nat] by simp

lemma read_write_state: "read_state (write_state m b i v) b i = v"
  by (simp add: read_state_def write_state_def mem_read_write_same of_le_bytes_le_bytes [OF unat_u32_less])

lemma read_write_state_apart:
  "state_addr b i + 4 \<le> state_addr c j \<or> state_addr c j + 4 \<le> state_addr b i \<Longrightarrow>
     read_state (write_state m b i v) c j = read_state m c j"
  unfolding read_state_def write_state_def
  by (intro arg_cong [where f = of_nat] arg_cong [where f = of_le_bytes] only_changes_read [OF only_changes_write]) auto

lemma only_changes_write_state: "only_changes {state_addr b i..<state_addr b i + 4} m (write_state m b i v)"
  using only_changes_write [of "state_addr b i" "le_bytes 4 (unat v)" m] by (simp add: write_state_def)

lemma only_changes_read_state:
  "only_changes A m m' \<Longrightarrow> A \<inter> {state_addr b i..<state_addr b i + 4} = {} \<Longrightarrow> read_state m' b i = read_state m b i"
  by (simp add: read_state_def only_changes_read)

lemma state_addr_nat [simp]: "state_addr b (int k) = b + 4 * k"
  by (simp add: state_addr_def nat_add_distrib nat_mult_distrib)

lemma state_addr_0 [simp]: "state_addr b 0 = b"
  by (simp add: state_addr_def)

definition cells :: "mem \<Rightarrow> nat \<Rightarrow> nat \<Rightarrow> u32 list" where
  "cells m b n = map (\<lambda>i. read_state m (b + 4 * i) 0) [0..<n]"

lemma length_cells [simp]: "length (cells m b n) = n"
  by (simp add: cells_def)

lemma cells_Nil_iff [simp]: "cells m b n = [] \<longleftrightarrow> n = 0"
  by (simp add: cells_def)

lemma nth_cells [simp]: "i < n \<Longrightarrow> cells m b n ! i = read_state m (b + 4 * i) 0"
  by (simp add: cells_def)

lemma cells_Suc: "cells m b (Suc n) = read_state m b 0 # cells m (b + 4) n"
proof -
  have "[0..<Suc n] = 0 # map Suc [0..<n]" by (simp add: upt_conv_Cons map_Suc_upt del: upt_Suc)
  then show ?thesis by (simp add: cells_def comp_def add.assoc del: upt_Suc)
qed

lemma cells_write: "i < n \<Longrightarrow> cells (write_state m (b + 4 * i) 0 v) b n = (cells m b n)[i := v]"
  by (rule nth_equalityI) (auto simp: nth_list_update read_write_state intro!: read_write_state_apart)

section \<open>The generator as a shift register\<close>

text \<open>
  A generator of type \<open>t\<close> whose rear pointer is at word \<open>k\<close>; the front pointer is the separation
  ahead, cyclically.
\<close>

definition gen_ok :: "random_data \<Rightarrow> nat \<Rightarrow> nat \<Rightarrow> nat \<Rightarrow> nat \<Rightarrow> bool" where
  "gen_ok buf t n sep k \<longleftrightarrow>
     1 \<le> t \<and> t \<le> 4 \<and> rand_type buf = int t \<and> random_degrees ! t = int n \<and> random_seps ! t = int sep
     \<and> rand_deg buf = int n \<and> rand_sep buf = int sep \<and> end_ptr buf = state buf + 4 * n
     \<and> k < n \<and> rptr buf = state buf + 4 * k \<and> fptr buf = state buf + 4 * ((k + sep) mod n)"

text \<open>The words in the order in which the front pointer visits them: the oldest first.\<close>

definition window :: "mem \<Rightarrow> random_data \<Rightarrow> nat \<Rightarrow> u32 list" where
  "window m buf n = rotate ((fptr buf - state buf) div 4) (cells m (state buf) n)"

lemma random_degrees_cases:
  assumes "1 \<le> t" "t \<le> 4" "random_degrees ! t = int n" "random_seps ! t = int sep"
  shows "0 < sep" "sep < n"
proof -
  have "t = 1 \<or> t = 2 \<or> t = 3 \<or> t = 4" using assms(1,2) by linarith
  then have "0 < sep \<and> sep < n"
    using assms(3,4) by (auto simp: random_degrees_def random_seps_def numeral_eq_Suc)
  then show "0 < sep" "sep < n" by auto
qed

lemma rotate_Suc_update:
  assumes "f < length xs"
  shows "rotate (Suc f) (xs[f := v]) = tl (rotate f xs) @ [v]"
proof -
  let ?l = "take f xs" and ?r = "drop (Suc f) xs"
  have len: "length ?l = f" using assms by simp
  have "xs[f := v] = ?l @ v # ?r" by (rule upd_conv_take_nth_drop [OF assms])
  then have "rotate f (xs[f := v]) = v # ?r @ ?l" using rotate_append [of ?l "v # ?r"] len by simp
  moreover have "rotate f xs = xs ! f # ?r @ ?l"
    using rotate_append [of ?l "xs ! f # ?r"] len id_take_nth_drop [OF assms] by simp
  ultimately show ?thesis by simp
qed

lemma random_r_step:
  fixes m :: mem
  assumes ok: "gen_ok buf t n sep k"
  defines "new \<equiv> hd (window m buf n) + window m buf n ! (n - sep)"
  shows "\<exists>m' buf'. random_r m (Some buf) True = Inr (drop_bit 1 new, m', buf')
    \<and> gen_ok buf' t n sep (Suc k mod n) \<and> state buf' = state buf
    \<and> window m' buf' n = tl (window m buf n) @ [new]
    \<and> only_changes {state buf..<state buf + 4 * n} m m'"
proof -
  let ?s = "state buf"
  define f where "f = (k + sep) mod n"
  have sep: "0 < sep" "sep < n" using ok random_degrees_cases unfolding gen_ok_def by blast+
  have k: "k < n" and ptrs: "rptr buf = ?s + 4 * k" "fptr buf = ?s + 4 * f" "end_ptr buf = ?s + 4 * n"
    and t: "rand_type buf \<noteq> 0" using ok by (auto simp: gen_ok_def f_def)
  have f: "f < n" using k by (simp add: f_def)
  have w: "window m buf n = rotate f (cells m ?s n)" by (simp add: window_def ptrs)
  have "hd (window m buf n) = read_state m (?s + 4 * f) 0"
    unfolding w using f by (subst hd_rotate_conv_nth) auto
  moreover have "(f + (n - sep)) mod n = k"
  proof -
    have "(f + (n - sep)) mod n = (k + sep + (n - sep)) mod n" unfolding f_def by (rule mod_add_left_eq)
    also have "k + sep + (n - sep) = k + n" using sep by simp
    finally show ?thesis using k by simp
  qed
  then have "window m buf n ! (n - sep) = read_state m (?s + 4 * k) 0"
    unfolding w using sep k by (simp add: nth_rotate)
  ultimately have new: "new = read_state m (fptr buf) 0 + read_state m (rptr buf) 0"
    by (simp add: new_def ptrs)
  define m' where "m' = write_state m (fptr buf) 0 new"
  define buf' where "buf' = buf\<lparr>fptr := ?s + 4 * (Suc f mod n), rptr := ?s + 4 * (Suc k mod n)\<rparr>"
  have wrap: "f = n - 1 \<Longrightarrow> Suc k < n"
    using k sep unfolding f_def by (cases "k + sep < n") (auto simp: mod_if split: if_splits)
  have "random_r m (Some buf) True = Inr (drop_bit 1 new, m', buf')"
  proof (cases "Suc f = n")
    case True
    then show ?thesis
      using t new ptrs wrap by (auto simp: random_r_def Let_def m'_def buf'_def)
  next
    case False
    then show ?thesis
      using t new ptrs f k by (cases "Suc k = n") (auto simp: random_r_def Let_def m'_def buf'_def)
  qed
  moreover have "Suc f mod n = (Suc k mod n + sep) mod n" unfolding f_def by (simp add: mod_simps)
  then have "gen_ok buf' t n sep (Suc k mod n)" using ok k by (simp add: gen_ok_def buf'_def)
  moreover have "window m' buf' n = tl (window m buf n) @ [new]"
  proof -
    have "window m' buf' n = rotate (Suc f mod n) ((cells m ?s n)[f := new])"
      using f by (simp add: window_def buf'_def m'_def ptrs cells_write)
    also have "\<dots> = rotate (Suc f) ((cells m ?s n)[f := new])"
      by (metis length_cells length_list_update rotate_conv_mod)
    also have "\<dots> = tl (rotate f (cells m ?s n)) @ [new]" using f by (intro rotate_Suc_update) simp
    finally show ?thesis unfolding w .
  qed
  moreover have "only_changes {?s..<?s + 4 * n} m m'"
    unfolding m'_def by (rule only_changes_mono [OF only_changes_write_state]) (use f in \<open>auto simp: ptrs\<close>)
  ultimately show ?thesis by (auto simp: buf'_def)
qed

section \<open>Seeding\<close>

lemma sint_of_int_u32: "- (2 ^ 31) \<le> v \<Longrightarrow> v < 2 ^ 31 \<Longrightarrow> sint (of_int v :: u32) = v"
  by (simp add: signed_of_int signed_take_bit_int_eq_self)

lemma srandom_split:
  fixes w :: int
  assumes "- (2 ^ 31) \<le> w" "w < 2 ^ 31"
  defines "v \<equiv> 16807 * (w smod 127773) - 2836 * (w sdiv 127773)"
  shows "- 2147483647 < v" "v < 2147483647" "v mod 2147483647 = 16807 * w mod 2147483647"
proof -
  have "\<bar>w\<bar> div 127773 \<le> 16807" using assms(1,2) by auto
  moreover have "0 \<le> \<bar>w\<bar> div 127773" by simp
  moreover have "0 \<le> \<bar>w\<bar> mod 127773" "\<bar>w\<bar> mod 127773 < 127773" by simp_all
  moreover have v: "v = sgn w * (16807 * (\<bar>w\<bar> mod 127773) - 2836 * (\<bar>w\<bar> div 127773))"
    by (simp add: v_def signed_divide_int_def signed_modulo_int_def algebra_simps)
  ultimately show "- 2147483647 < v" "v < 2147483647"
    by (auto simp: sgn_if split: if_splits)
  have "w = 127773 * (w sdiv 127773) + w smod 127773"
    using mult_sdiv_smod_eq [of 127773 w] by simp
  then have "16807 * w = v + 2147483647 * (w sdiv 127773)" unfolding v_def by linarith
  then show "v mod 2147483647 = 16807 * w mod 2147483647" by simp
qed

lemma srandom_word_value: "sint (srandom_word w) = 16807 * sint w mod 2147483647"
proof -
  have r: "- (2 ^ 31) \<le> sint w" "sint w < 2 ^ 31"
    using sint_greater_eq [of w] sint_less [of w] by simp_all
  define v where "v = 16807 * (sint w smod 127773) - 2836 * (sint w sdiv 127773)"
  note v = srandom_split [OF r, folded v_def]
  have s: "sint (of_int v :: u32) = v" using v by (intro sint_of_int_u32) simp_all
  show ?thesis
  proof (cases "v < 0")
    case True
    then have "srandom_word w = of_int (v + 2147483647)" using s by (simp add: srandom_word_def Let_def v_def)
    moreover have "sint (of_int (v + 2147483647) :: u32) = v + 2147483647"
      using v True by (intro sint_of_int_u32) simp_all
    ultimately have "sint (srandom_word w) = v + 2147483647" by simp
    also have "\<dots> = (v + 2147483647) mod 2147483647"
      using v(1) True by (intro mod_pos_pos_trivial [symmetric]) simp_all
    also have "\<dots> = v mod 2147483647" by (rule mod_add_self2)
    finally show ?thesis using v(3) by simp
  next
    case False
    then have "srandom_word w = of_int v" using s by (simp add: srandom_word_def Let_def v_def)
    then have "sint (srandom_word w) = v" using s by simp
    also have "\<dots> = v mod 2147483647" using v(2) False by (intro mod_pos_pos_trivial [symmetric]) simp_all
    finally show ?thesis using v(3) by simp
  qed
qed

primrec seed_words :: "nat \<Rightarrow> u32 \<Rightarrow> u32 list" where
  "seed_words 0 w = []"
| "seed_words (Suc n) w = w # seed_words n (srandom_word w)"

lemma length_seed_words [simp]: "length (seed_words n w) = n"
  by (induction n arbitrary: w) simp_all

lemma srandom_fill_cells:
  "cells (srandom_fill r m dst w) (dst + 4) r = seed_words r (srandom_word w)
   \<and> only_changes {dst + 4..<dst + 4 + 4 * r} m (srandom_fill r m dst w)"
proof (induction r arbitrary: m dst w)
  case (Suc r)
  let ?w = "srandom_word w" and ?m = "write_state m (dst + 4) 0 (srandom_word w)"
  note IH = Suc.IH [of ?m "dst + 4" ?w]
  have "read_state (srandom_fill r ?m (dst + 4) ?w) (dst + 4) 0 = read_state ?m (dst + 4) 0"
    using conjunct2 [OF IH] by (rule only_changes_read_state) auto
  then have hd: "read_state (srandom_fill r ?m (dst + 4) ?w) (dst + 4) 0 = ?w" by (simp add: read_write_state)
  have "only_changes {dst + 4..<dst + 4 + 4 * Suc r} m (srandom_fill r ?m (dst + 4) ?w)"
    by (rule only_changes_mono [OF only_changes_trans [OF only_changes_write_state conjunct2 [OF IH]]]) auto
  then show ?case using IH hd by (simp add: Let_def cells_Suc add.assoc)
qed (simp add: cells_def)

definition lfsr_step :: "nat \<Rightarrow> nat \<Rightarrow> u32 list \<Rightarrow> u32 list" where
  "lfsr_step n sep w = tl w @ [hd w + w ! (n - sep)]"

lemma srandom_discard_window:
  "gen_ok buf t n sep k \<Longrightarrow>
   \<exists>m' buf'. srandom_discard j m buf = (m', buf') \<and> gen_ok buf' t n sep ((k + j) mod n) \<and> state buf' = state buf
    \<and> window m' buf' n = (lfsr_step n sep ^^ j) (window m buf n)
    \<and> only_changes {state buf..<state buf + 4 * n} m m'"
proof (induction j arbitrary: m buf k)
  case 0
  then show ?case by (simp add: gen_ok_def)
next
  case (Suc j)
  obtain m1 b1 where s1: "random_r m (Some buf) True = Inr (drop_bit 1 (hd (window m buf n) + window m buf n ! (n - sep)), m1, b1)"
    "gen_ok b1 t n sep (Suc k mod n)" "state b1 = state buf" "window m1 b1 n = lfsr_step n sep (window m buf n)"
    "only_changes {state buf..<state buf + 4 * n} m m1"
    using random_r_step [OF Suc.prems, of m] by (auto simp: lfsr_step_def)
  obtain m2 b2 where s2: "srandom_discard j m1 b1 = (m2, b2)" "gen_ok b2 t n sep ((Suc k mod n + j) mod n)"
    "state b2 = state buf" "window m2 b2 n = (lfsr_step n sep ^^ j) (window m1 b1 n)"
    "only_changes {state buf..<state buf + 4 * n} m1 m2"
    using Suc.IH [OF s1(2), of m1] s1(3) by auto
  have "(Suc k mod n + j) mod n = (k + Suc j) mod n" by (simp add: mod_simps)
  then show ?case
    using s1 s2 only_changes_trans1 [OF s1(5) s2(5)] by (simp add: funpow_swap1)
qed

lemma gen_ok_start:
  assumes "1 \<le> t" "t \<le> 4" "random_degrees ! t = int n" "random_seps ! t = int sep"
    "rand_type buf = int t" "rand_deg buf = int n" "rand_sep buf = int sep" "end_ptr buf = state buf + 4 * n"
  shows "gen_ok (buf\<lparr>fptr := state_addr (state buf) (rand_sep buf), rptr := state buf\<rparr>) t n sep 0"
  using assms random_degrees_cases [OF assms(1-4)] by (simp add: gen_ok_def)

lemma srandom_r_window:
  assumes t: "1 \<le> t" "t \<le> 4" "random_degrees ! t = int n" "random_seps ! t = int sep"
    and buf: "rand_type buf = int t" "rand_deg buf = int n" "rand_sep buf = int sep" "end_ptr buf = state buf + 4 * n"
  shows "\<exists>m' buf'. srandom_r m seed (Some buf) = Some (m', buf') \<and> gen_ok buf' t n sep 0 \<and> state buf' = state buf
    \<and> window m' buf' n = (lfsr_step n sep ^^ (10 * n)) (rotate sep (seed_words n (if seed = 0 then 1 else seed)))
    \<and> only_changes {state buf..<state buf + 4 * n} m m'"
proof -
  let ?s = "state buf" and ?w = "if seed = 0 then 1 else seed"
  define m1 where "m1 = write_state m ?s 0 ?w"
  define m2 where "m2 = srandom_fill (n - 1) m1 ?s ?w"
  define buf1 where "buf1 = buf\<lparr>fptr := state_addr ?s (rand_sep buf), rptr := ?s\<rparr>"
  have sep: "0 < sep" "sep < n" using random_degrees_cases [OF t] by auto
  obtain n' where n': "n = Suc n'" using sep by (cases n) auto
  have n_nat: "nat (int n - 1) = n - 1" by simp
  note fill = srandom_fill_cells [of n' m1 ?s ?w]
  have "read_state m2 ?s 0 = ?w"
    using only_changes_read_state [OF conjunct2 [OF fill], of ?s 0] by (simp add: m2_def n' m1_def read_write_state)
  then have cells: "cells m2 ?s n = seed_words n ?w"
    using fill by (simp add: n' cells_Suc m2_def)
  have ok1: "gen_ok buf1 t n sep 0" unfolding buf1_def by (rule gen_ok_start [OF t buf])
  have "only_changes {?s..<?s + 4 * n} m m2"
    unfolding m2_def m1_def n' diff_Suc_1
    by (rule only_changes_mono [OF only_changes_trans [OF only_changes_write_state conjunct2 [OF srandom_fill_cells]]]) auto
  moreover have "window m2 buf1 n = rotate sep (seed_words n ?w)"
    by (simp add: window_def buf1_def cells buf)
  moreover have "srandom_r m seed (Some buf) = Some (srandom_discard (10 * n) m2 buf1)"
    using t buf n_nat by (simp add: srandom_r_def Let_def MAX_TYPES_def m1_def m2_def buf1_def nat_diff_distrib nat_mult_distrib mult.commute)
  moreover obtain m3 b3 where "srandom_discard (10 * n) m2 buf1 = (m3, b3)" "gen_ok b3 t n sep ((0 + 10 * n) mod n)"
    "state b3 = state buf1" "window m3 b3 n = (lfsr_step n sep ^^ (10 * n)) (window m2 buf1 n)"
    "only_changes {state buf1..<state buf1 + 4 * n} m2 m3"
    using srandom_discard_window [OF ok1, of "10 * n" m2] by blast
  ultimately show ?thesis by (auto simp: buf1_def intro: only_changes_trans1)
qed

lemma only_changes_save_state: "only_changes {state_addr (state buf) (- 1)..<state_addr (state buf) (- 1) + 4} m (save_state m buf)"
  by (simp add: save_state_def only_changes_write_state)

lemma state_addr_header [simp]: "state_addr (a + 4) (- 1) = a"
  by (simp add: state_addr_def)

lemma random_type_for_polynomial:
  assumes "32 \<le> N"
    and "(t, n, sep) = (if N < 64 then (1, 7, 3) else if N < 128 then (2, 15, 1) else if N < 256 then (3, 31, 3) else (4, 63, 1))"
  shows "random_type_for N = Some (int t)" "1 \<le> t" "t \<le> 4" "random_degrees ! t = int n"
    "random_seps ! t = int sep" "4 * Suc n \<le> N"
  using assms by (auto simp: random_type_for_def random_degrees_def random_seps_def split: if_splits)

lemma sint_info:
  assumes "1 \<le> t" "t \<le> 4" "k < 63"
  shows "sint (of_int (MAX_TYPES * int k + int t) :: u32) = 5 * int k + int t"
  unfolding MAX_TYPES_def by (rule sint_of_int_u32) (use assms in auto)

lemma smod_int_nonneg: "0 \<le> i \<Longrightarrow> 0 < j \<Longrightarrow> i smod j = i mod (j :: int)"
  by (simp add: smod_int_alt_def sgn_if)

lemma info_decode:
  assumes "1 \<le> t" "t \<le> 4"
  shows "(5 * int k + int t) sdiv 5 = int k" "(5 * int k + int t) smod 5 = int t"
proof -
  show div: "(5 * int k + int t) sdiv 5 = int k"
    using assms by (simp add: signed_divide_int_def sgn_if)
  show "(5 * int k + int t) smod 5 = int t"
    using mult_sdiv_smod_eq [of 5 "5 * int k + int t"] div by simp
qed

lemma random_degrees_le:
  assumes "1 \<le> t" "t \<le> 4" "random_degrees ! t = int n"
  shows "n \<le> 63"
proof -
  have "t = 1 \<or> t = 2 \<or> t = 3 \<or> t = 4" using assms(1,2) by linarith
  then show ?thesis using assms(3) by (auto simp: random_degrees_def numeral_eq_Suc)
qed

lemma only_changes_cells:
  assumes "only_changes A m m'" "A \<inter> {b..<c} = {}" "b + 4 * n \<le> c"
  shows "cells m' b n = cells m b n"
proof (rule nth_equalityI)
  fix j assume "j < length (cells m' b n)"
  then have j: "j < n" by simp
  have "{b + 4 * j..<b + 4 * j + 4} \<subseteq> {b..<c}" using j assms(3) by auto
  then have "read_state m' (b + 4 * j) 0 = read_state m (b + 4 * j) 0"
    by (intro only_changes_read_state [OF assms(1)]) (use assms(2) in auto)
  then show "cells m' b n ! j = cells m b n ! j" using j by simp
qed simp

lemma setstate_r_restores:
  assumes ok: "gen_ok buf t n sep k" and a: "0 < a" "state buf = a + 4"
    and info: "read_state m' (a + 4) (- 1) = of_int (MAX_TYPES * int k + int t)"
    and words: "cells m' (a + 4) n = cells m (a + 4) n"
    and apart: "{state_addr (state b) (- 1)..<state_addr (state b) (- 1) + 4} \<inter> {a..<a + 4 * Suc n} = {}"
  shows "\<exists>m'' b'. setstate_r m' a (Some b) = (None, m'', Some b') \<and> gen_ok b' t n sep k \<and> state b' = state buf
    \<and> window m'' b' n = window m buf n"
proof -
  let ?m = "save_state m' b"
  have t: "1 \<le> t" "t \<le> 4" "random_degrees ! t = int n" "random_seps ! t = int sep" and k: "k < n"
    and f: "fptr buf = state buf + 4 * ((k + sep) mod n)" using ok by (auto simp: gen_ok_def)
  have "n \<le> 63" using t random_degrees_le by blast
  have "read_state ?m (a + 4) (- 1) = read_state m' (a + 4) (- 1)"
    using only_changes_save_state by (rule only_changes_read_state) (use apart in auto)
  then have i: "sint (read_state ?m (a + 4) (- 1)) = 5 * int k + int t"
    using sint_info [of t k] t k \<open>n \<le> 63\<close> by (simp add: info)
  have words': "cells ?m (a + 4) n = cells m (a + 4) n"
    unfolding words [symmetric] by (rule only_changes_cells [OF only_changes_save_state, of _ _ "a + 4 * Suc n"]) (use apart in auto)
  let ?b = "b\<lparr>rand_deg := int n, rand_sep := int sep, rand_type := int t, rptr := a + 4 + 4 * k,
     fptr := a + 4 + 4 * ((k + sep) mod n), state := a + 4, end_ptr := a + 4 + 4 * n\<rparr>"
  have "(int k + int sep) smod int n = int ((k + sep) mod n)"
    using k by (simp add: smod_int_nonneg of_nat_mod)
  then have "setstate_r m' a (Some b) = (None, ?m, Some ?b)"
    using a t i info_decode [OF t(1,2), of k] by (simp add: setstate_r_def MAX_TYPES_def Let_def)
  moreover have "gen_ok ?b t n sep k" using ok by (simp add: gen_ok_def)
  moreover have "window ?m ?b n = window m buf n" using words' f a by (simp add: window_def)
  ultimately show ?thesis using a by (auto intro!: exI [of _ ?m] exI [of _ ?b])
qed

end
