(* ===== verification/Random_Properties.thy ===== *)
theory Random_Properties
  imports Random_State
begin

text \<open>
  What the generators of \<open>random_r.c\<close> promise: the recurrence of the numbers, the seeding, and
  that state arrays can be created, left and resumed.
\<close>

text \<open>
  C18: a call of \<open>random_r\<close> on a polynomial generator is one step of the additive shift register
  \<open>x\<^sub>i = x\<^sub>i\<^sub>-\<^sub>n + x\<^sub>i\<^sub>-\<^sub>s\<^sub>e\<^sub>p\<close>: the new word is the oldest plus the one \<open>sep\<close> calls ago, the result is its upper 31 bits, the
  pointers keep their cyclic distance, and nothing but the state array changes.
\<close>

theorem random_r_shift_register:
  assumes "gen_ok buf t n sep k"
  shows "\<exists>m' buf'. random_r m (Some buf) True = Inr (drop_bit 1 (last (lfsr_step n sep (window m buf n))), m', buf')
    \<and> gen_ok buf' t n sep (Suc k mod n) \<and> state buf' = state buf
    \<and> window m' buf' n = lfsr_step n sep (window m buf n)
    \<and> only_changes {state buf..<state buf + 4 * n} m m'"
  using random_r_step [OF assms, of m] by (simp add: lfsr_step_def)

definition sample_generator :: random_data where
  "sample_generator = \<lparr>fptr = 116, rptr = 104, state = 104, rand_type = 1, rand_deg = 7, rand_sep = 3, end_ptr = 132\<rparr>"

lemma sample_generator_ok: "gen_ok sample_generator 1 7 3 0"
  by (simp add: gen_ok_def sample_generator_def random_degrees_def random_seps_def)

theorem random_r_shift_register_witness:
  "gen_ok sample_generator 1 7 3 0
   \<and> (\<exists>m' buf'. random_r (\<lambda>_. 1) (Some sample_generator) True
          = Inr (drop_bit 1 (last (lfsr_step 7 3 (window (\<lambda>_. 1) sample_generator 7))), m', buf')
        \<and> gen_ok buf' 1 7 3 1)"
proof -
  have "gen_ok sample_generator 1 7 3 0" by (rule sample_generator_ok)
  with random_r_shift_register [OF this, of "\<lambda>_. 1"] show ?thesis by auto
qed

text \<open>
  C21: the 32-bit division trick of \<open>srandom_r\<close> computes the Lehmer step \<open>16807 * w mod (2\<^sup>3\<^sup>1 - 1)\<close> without
  overflow, for every seed word, negative ones included.
\<close>

theorem srandom_word_lehmer: "sint (srandom_word w) = 16807 * sint w mod (2 ^ 31 - 1)"
  using srandom_word_value [of w] by simp

text \<open>
  C20: \<open>initstate_r\<close> with at least 32 bytes sets up a polynomial generator inside the array it is given, the largest one
  that fits: degree 7 below 64 bytes, 15 below 128, 31 below 256, otherwise 63.  It writes nowhere but in those \<open>N\<close> bytes
  and in the header word of the state it leaves, if there is one; it records the type in the new header, and the words are
  the seed sequence after ten rounds of the shift register.
\<close>

theorem initstate_r_establishes:
  assumes N: "32 \<le> N"
    and poly: "(t, n, sep) = (if N < 64 then (1, 7, 3) else if N < 128 then (2, 15, 1) else if N < 256 then (3, 31, 3) else (4, 63, 1))"
  shows "\<exists>m' buf'. initstate_r m seed a N (Some buf) = (None, m', Some buf')
    \<and> gen_ok buf' t n sep 0 \<and> state buf' = a + 4 \<and> 4 * Suc n \<le> N
    \<and> read_state m' (a + 4) (- 1) = of_nat t
    \<and> window m' buf' n = (lfsr_step n sep ^^ (10 * n)) (rotate sep (seed_words n (if seed = 0 then 1 else seed)))
    \<and> only_changes ({a..<a + N} \<union> (if state buf = 0 then {} else {state_addr (state buf) (- 1)..<state_addr (state buf) (- 1) + 4})) m m'"
proof -
  note t = random_type_for_polynomial [OF N poly]
  define m1 where "m1 = (if state buf \<noteq> 0 then save_state m buf else m)"
  define buf1 where "buf1 = buf\<lparr>rand_type := int t, rand_sep := int sep, rand_deg := int n,
                                  end_ptr := a + 4 + 4 * n, state := a + 4\<rparr>"
  define old where "old = (if state buf = 0 then {} else {state_addr (state buf) (- 1)..<state_addr (state buf) (- 1) + 4})"
  obtain m2 b2 where s: "srandom_r m1 seed (Some buf1) = Some (m2, b2)" "gen_ok b2 t n sep 0" "state b2 = a + 4"
    "window m2 b2 n = (lfsr_step n sep ^^ (10 * n)) (rotate sep (seed_words n (if seed = 0 then 1 else seed)))"
    "only_changes {a + 4..<a + 4 + 4 * n} m1 m2"
    using srandom_r_window [OF t(2-5), of buf1 m1 seed] by (auto simp: buf1_def)
  define m3 where "m3 = write_state (write_state m2 (a + 4) (- 1) 0) (a + 4) (- 1) (of_int (int t))"
  have "rptr b2 = a + 4" using s(2,3) by (simp add: gen_ok_def)
  then have run: "initstate_r m seed a N (Some buf) = (None, m3, Some b2)"
    using s(1) t by (cases "state buf = 0") (simp_all add: initstate_r_def m1_def buf1_def m3_def Let_def)
  have ch3: "only_changes {a..<a + 4} m2 m3"
    unfolding m3_def by (rule only_changes_trans1) (use only_changes_write_state [of "a + 4" "- 1"] in simp_all)
  have "cells m3 (a + 4) n = cells m2 (a + 4) n"
    by (rule nth_equalityI) (auto intro!: only_changes_read_state [OF ch3])
  then have "window m3 b2 n = window m2 b2 n" by (simp add: window_def s(3))
  moreover have "read_state m3 (a + 4) (- 1) = of_nat t" by (simp add: m3_def read_write_state)
  moreover have "only_changes ({a..<a + N} \<union> old) m m3"
  proof (rule only_changes_trans1)
    show "only_changes ({a..<a + N} \<union> old) m m1"
      unfolding m1_def old_def using only_changes_mono [OF only_changes_save_state] by (auto simp: only_changes_refl)
    show "only_changes ({a..<a + N} \<union> old) m1 m3"
      by (rule only_changes_mono [OF only_changes_trans [OF s(5) ch3]]) (use t(6) in auto)
  qed
  ultimately show ?thesis using run s t(6) unfolding old_def by metis
qed


theorem initstate_r_establishes_witness:
  "(32 :: nat) \<le> 70 \<and> (\<exists>m' buf'. initstate_r (\<lambda>_. 0) 42 200 70 (Some sample_generator) = (None, m', Some buf')
     \<and> gen_ok buf' 2 15 1 0 \<and> state buf' = 204 \<and> read_state m' 204 (- 1) = 2)"
  using initstate_r_establishes [of 70 2 15 1 "\<lambda>_. 0" 42 200 sample_generator] by auto

text \<open>
  C19: a generator that is left with \<open>setstate_r\<close> is resumed by a later \<open>setstate_r\<close> on its array: whatever
  happened in between outside that array, type, degree, separation and both pointers are as they were and
  the words are in the same order, so the sequence of numbers continues.
\<close>

theorem setstate_r_resumes:
  assumes ok: "gen_ok buf t n sep k" and a: "0 < a" "state buf = a + 4"
    and away: "setstate_r m arg (Some buf) = (None, m1, Some b1)"
    and other: "only_changes B m1 m2" "B \<inter> {a..<a + 4 * Suc n} = {}"
    and apart: "{state_addr (state b2) (- 1)..<state_addr (state b2) (- 1) + 4} \<inter> {a..<a + 4 * Suc n} = {}"
  shows "\<exists>m3 b3. setstate_r m2 a (Some b2) = (None, m3, Some b3) \<and> gen_ok b3 t n sep k \<and> state b3 = state buf
    \<and> window m3 b3 n = window m buf n"
proof (rule setstate_r_restores [OF ok a _ _ apart])
  have m1: "m1 = save_state m buf" using away by (auto simp: setstate_r_def Let_def split: if_splits)
  have "(int (rptr buf) - int (state buf)) div 4 = int k" using ok by (simp add: gen_ok_def)
  then have "read_state m1 (a + 4) (- 1) = of_int (MAX_TYPES * int k + int t)"
    using ok a by (simp add: m1 save_state_def gen_ok_def read_write_state)
  moreover have "read_state m2 (a + 4) (- 1) = read_state m1 (a + 4) (- 1)"
    by (rule only_changes_read_state [OF other(1)]) (use other(2) in auto)
  ultimately show "read_state m2 (a + 4) (- 1) = of_int (MAX_TYPES * int k + int t)" by simp
  have "only_changes (B \<union> {a..<a + 4}) m m2"
    using only_changes_trans [OF only_changes_save_state other(1) [unfolded m1]] a by (simp add: Un_commute)
  moreover have "(B \<union> {a..<a + 4}) \<inter> {a + 4..<a + 4 * Suc n} = {}" using other(2) by auto
  ultimately show "cells m2 (a + 4) n = cells m (a + 4) n" by (rule only_changes_cells) simp
qed

theorem setstate_r_resumes_witness:
  "\<exists>m1 b1 m3 b3. setstate_r (\<lambda>_. 0) 1000 (Some sample_generator) = (None, m1, Some b1)
     \<and> setstate_r m1 100 (Some b1) = (None, m3, Some b3)
     \<and> gen_ok b3 1 7 3 0 \<and> window m3 b3 7 = window (\<lambda>_. 0) sample_generator 7"
proof -
  let ?m = "save_state (\<lambda>_. 0) sample_generator"
  have "read_state ?m 1004 (- 1) = 0"
    by (simp add: save_state_def sample_generator_def read_state_def write_state_def state_addr_def mem_read_def mem_write_def)
  then obtain b1 where b1: "setstate_r (\<lambda>_. 0) 1000 (Some sample_generator) = (None, ?m, Some b1)" "state b1 = 1004"
    by (simp add: setstate_r_def Let_def MAX_TYPES_def)
  show ?thesis
    using setstate_r_resumes [OF sample_generator_ok, of 100 "\<lambda>_. 0" 1000 ?m b1 "{}" ?m b1] b1
    by (auto simp: sample_generator_def state_addr_def)
qed

end
