(* ===== verification/Chars.thy ===== *)
theory Chars
  imports Glibc_Prelude "HOL-Library.Monad_Syntax"
begin

text \<open>
  Characters and C strings.  A C string is the list of its characters before the NUL, so that the NUL is what
  is read at the end of the list; a buffer that holds a string has the NUL in it.  The character classes are those of the
  C locale.

  A buffer is the list of all its elements, so that it has a fixed size; reading or storing outside of it has no result
  (\<open>None\<close>), whatever the function that does so returns afterwards.
\<close>

definition NUL :: char where "NUL = CHR 0x00"

text \<open>The code of a character.\<close>

abbreviation ord :: "char \<Rightarrow> nat" where
  "ord c \<equiv> of_char c"

definition strlen :: "string \<Rightarrow> nat" where
  "strlen s = length (takeWhile (\<lambda>c. c \<noteq> NUL) s)"

definition isdigit :: "char \<Rightarrow> bool" where
  "isdigit c \<longleftrightarrow> ord CHR ''0'' \<le> ord c \<and> ord c \<le> ord CHR ''9''"

definition isupper :: "char \<Rightarrow> bool" where
  "isupper c \<longleftrightarrow> ord CHR ''A'' \<le> ord c \<and> ord c \<le> ord CHR ''Z''"

definition islower :: "char \<Rightarrow> bool" where
  "islower c \<longleftrightarrow> ord CHR ''a'' \<le> ord c \<and> ord c \<le> ord CHR ''z''"

definition isalpha :: "char \<Rightarrow> bool" where
  "isalpha c \<longleftrightarrow> isupper c \<or> islower c"

definition isspace :: "char \<Rightarrow> bool" where
  "isspace c \<longleftrightarrow> ord c = 32 \<or> (9 \<le> ord c \<and> ord c \<le> 13)"

definition isascii :: "char \<Rightarrow> bool" where
  "isascii c \<longleftrightarrow> ord c < 128"

definition toupper :: "char \<Rightarrow> char" where
  "toupper c = (if islower c then char_of (ord c - 32) else c)"

definition tolower :: "char \<Rightarrow> char" where
  "tolower c = (if isupper c then char_of (ord c + 32) else c)"

section \<open>Buffers\<close>

definition load_at :: "'a list \<Rightarrow> nat \<Rightarrow> 'a option" where
  "load_at buf i = (if i < length buf then Some (buf ! i) else None)"

definition read_at :: "'a list \<Rightarrow> nat \<Rightarrow> nat \<Rightarrow> 'a list option" where
  "read_at buf i n = (if i + n \<le> length buf then Some (take n (drop i buf)) else None)"

definition store_at :: "'a list \<Rightarrow> nat \<Rightarrow> 'a list \<Rightarrow> 'a list option" where
  "store_at buf i xs = (if i + length xs \<le> length buf then Some (take i buf @ xs @ drop (i + length xs) buf) else None)"

lemma load_at_append [simp]: "load_at (pre @ x # post) (length pre) = Some x"
  by (simp add: load_at_def)

lemma store_at_append:
  "i = length pre \<Longrightarrow> length mid = length xs \<Longrightarrow> store_at (pre @ mid @ post) i xs = Some (pre @ xs @ post)"
  by (simp add: store_at_def)

lemma store_at_one [simp]: "store_at (pre @ x # post) (length pre) [y] = Some (pre @ y # post)"
  using store_at_append [of "length pre" pre "[x]" "[y]" post] by simp

lemma store_at_Some: "store_at buf i xs = Some buf' \<longleftrightarrow> i + length xs \<le> length buf \<and> buf' = take i buf @ xs @ drop (i + length xs) buf"
  by (auto simp: store_at_def)

lemma length_store_at: "store_at buf i xs = Some buf' \<Longrightarrow> length buf' = length buf"
  by (auto simp: store_at_Some)

section \<open>Codes of characters\<close>

lemma ord_literals [simp]:
  "ord CHR ''0'' = (48 :: nat)" "ord CHR ''9'' = (57 :: nat)" "ord CHR ''a'' = (97 :: nat)" "ord CHR ''f'' = (102 :: nat)"
  "ord CHR ''z'' = (122 :: nat)" "ord CHR ''A'' = (65 :: nat)" "ord CHR ''F'' = (70 :: nat)" "ord CHR ''Z'' = (90 :: nat)"
  "ord CHR ''.'' = (46 :: nat)" "ord CHR '':'' = (58 :: nat)"
  by simp_all

lemma take_strlen: "NUL \<notin> set t \<Longrightarrow> take (strlen (t @ [NUL])) (t @ [NUL]) = t"
proof -
  assume "NUL \<notin> set t"
  then have "takeWhile (\<lambda>c. c \<noteq> NUL) (t @ [NUL]) = t" by (subst takeWhile_append2) auto
  then show ?thesis by (simp add: strlen_def)
qed

end
