(* ===== verification/Strtol.thy ===== *)
theory Strtol
  imports Chars
begin

text \<open>
  Conversion of text to integers: \<open>stdlib/strtol_l.c\<close> for narrow characters and 64-bit results, without digit
  grouping (the argument \<open>group\<close> is 0), and its callers \<open>strtol\<close>, \<open>strtoul\<close>, \<open>atol\<close>, \<open>atoi\<close>.

  A pointer into the argument is the rest of the string from there on.  White space is that of the
  locale, an argument; letters are those of the C locale, as in the source.
\<close>

section \<open>The scan\<close>

fun skip_space :: "(char \<Rightarrow> bool) \<Rightarrow> string \<Rightarrow> string" where
  "skip_space sp [] = []"
| "skip_space sp (c # s) = (if sp c then skip_space sp s else c # s)"

text \<open>The character at a pointer and behind it.\<close>

fun char_at :: "string \<Rightarrow> nat \<Rightarrow> char" where
  "char_at [] k = NUL"
| "char_at (c # s) 0 = c"
| "char_at (c # s) (Suc k) = char_at s k"

definition strtol_sign :: "string \<Rightarrow> bool \<times> string" where
  "strtol_sign s =
     (if char_at s 0 = CHR ''-'' then (True, drop 1 s)
      else if char_at s 0 = CHR ''+'' then (False, drop 1 s)
      else (False, s))"

definition strtol_prefix :: "bool \<Rightarrow> int \<Rightarrow> string \<Rightarrow> int \<times> string" where
  "strtol_prefix bin_cst base s =
     (if char_at s 0 = CHR ''0''
      then (if (base = 0 \<or> base = 16) \<and> toupper (char_at s 1) = CHR ''X'' then (16, drop 2 s)
            else if bin_cst \<and> (base = 0 \<or> base = 2) \<and> toupper (char_at s 1) = CHR ''B'' then (2, drop 2 s)
            else if base = 0 then (8, s)
            else (base, s))
      else if base = 0 then (10, s)
      else (base, s))"

section \<open>The digits\<close>

definition ULONG_MAX :: u64 where "ULONG_MAX = 0xffffffffffffffff"
definition LONG_MAX :: u64 where "LONG_MAX = 0x7fffffffffffffff"
definition LONG_MIN :: u64 where "LONG_MIN = 0x8000000000000000"

text \<open>The tables indexed by the base.\<close>

definition cutoff_tab :: "int \<Rightarrow> u64" where
  "cutoff_tab base = ULONG_MAX div of_int base"

definition cutlim_tab :: "int \<Rightarrow> u64" where
  "cutlim_tab base = ULONG_MAX mod of_int base"

definition digit_value :: "char \<Rightarrow> nat option" where
  "digit_value c =
     (if ord CHR ''0'' \<le> ord c \<and> ord c \<le> ord CHR ''9'' then Some (ord c - ord CHR ''0'')
      else if isalpha c then Some (ord (toupper c) - ord CHR ''A'' + 10)
      else None)"

fun strtol_digits :: "int \<Rightarrow> string \<Rightarrow> bool \<Rightarrow> u64 \<Rightarrow> bool \<times> u64 \<times> string" where
  "strtol_digits base [] overflow i = (overflow, i, [])"
| "strtol_digits base (c # s) overflow i =
     (case digit_value c of
        None \<Rightarrow> (overflow, i, c # s)
      | Some d \<Rightarrow>
          if base \<le> int d then (overflow, i, c # s)
          else if cutoff_tab base < i \<or> (i = cutoff_tab base \<and> cutlim_tab base < of_nat d)
          then strtol_digits base s True i
          else strtol_digits base s overflow (i * of_int base + of_nat d))"

section \<open>The conversion\<close>

text \<open>The value returned, what is stored through \<open>endptr\<close>, and the \<open>errno\<close> that is set, if any.\<close>

record strtol_result =
  strtol_value :: u64
  strtol_endptr :: "string option"
  strtol_errno :: "errno option"

text \<open>
  \<open>save\<close> is the rest of \<open>nptr\<close> after the prefix, so that the characters before it are those of \<open>nptr\<close> that it lacks.
\<close>

definition strtol_noconv :: "bool \<Rightarrow> string \<Rightarrow> string \<Rightarrow> strtol_result" where
  "strtol_noconv bin_cst nptr save =
     (let k = length nptr - length save
      in \<lparr>strtol_value = 0,
          strtol_endptr =
            Some (if 2 \<le> k
                     \<and> (toupper (char_at nptr (k - 1)) = CHR ''X''
                        \<or> (bin_cst \<and> toupper (char_at nptr (k - 1)) = CHR ''B''))
                     \<and> char_at nptr (k - 2) = CHR ''0''
                  then drop (k - 1) nptr else nptr),
          strtol_errno = None\<rparr>)"

definition strtol_finish :: "bool \<Rightarrow> bool \<Rightarrow> bool \<Rightarrow> u64 \<Rightarrow> string \<Rightarrow> strtol_result" where
  "strtol_finish UNSIGNED negative overflow i s =
     (let overflow = (if \<not> UNSIGNED \<and> \<not> overflow \<and> (if negative then - (LONG_MIN + 1) + 1 else LONG_MAX) < i
                      then True else overflow)
      in if overflow
         then \<lparr>strtol_value = (if UNSIGNED then ULONG_MAX else if negative then LONG_MIN else LONG_MAX),
               strtol_endptr = Some s, strtol_errno = Some ERANGE\<rparr>
         else \<lparr>strtol_value = (if negative then - i else i), strtol_endptr = Some s, strtol_errno = None\<rparr>)"

definition strtol_l_internal ::
  "bool \<Rightarrow> string \<Rightarrow> int \<Rightarrow> bool \<Rightarrow> (char \<Rightarrow> bool) \<Rightarrow> strtol_result" where
  "strtol_l_internal UNSIGNED nptr base bin_cst sp =
     (if base < 0 \<or> base = 1 \<or> 36 < base then \<lparr>strtol_value = 0, strtol_endptr = None, strtol_errno = Some EINVAL\<rparr>
      else
        (let s = skip_space sp nptr
         in if s = [] then strtol_noconv bin_cst nptr nptr
            else
              (let (negative, s) = strtol_sign s;
                   (base, save) = strtol_prefix bin_cst base s;
                   (overflow, i, s) = strtol_digits base save False 0
               in if s = save then strtol_noconv bin_cst nptr save
                  else strtol_finish UNSIGNED negative overflow i s)))"

definition strtol :: "string \<Rightarrow> int \<Rightarrow> strtol_result" where
  "strtol nptr base = strtol_l_internal False nptr base False isspace"

definition strtoul :: "string \<Rightarrow> int \<Rightarrow> strtol_result" where
  "strtoul nptr base = strtol_l_internal True nptr base False isspace"

definition isoc23_strtol :: "string \<Rightarrow> int \<Rightarrow> strtol_result" where
  "isoc23_strtol nptr base = strtol_l_internal False nptr base True isspace"

definition atol :: "string \<Rightarrow> c_long" where
  "atol nptr = strtol_value (strtol nptr 10)"

definition atoi :: "string \<Rightarrow> c_int" where
  "atoi nptr = ucast (strtol_value (strtol nptr 10))"

section \<open>The value of a digit string\<close>

definition digit_in :: "int \<Rightarrow> char \<Rightarrow> bool" where
  "digit_in base c \<longleftrightarrow> (case digit_value c of None \<Rightarrow> False | Some d \<Rightarrow> int d < base)"

definition digits_val :: "int \<Rightarrow> string \<Rightarrow> nat" where
  "digits_val base ds = foldl (\<lambda>v c. v * nat base + the (digit_value c)) 0 ds"

lemma overflow_criterion:
  fixes M b v d :: nat
  assumes "0 < b" "d < b"
  shows "M < v * b + d \<longleftrightarrow> M div b < v \<or> v = M div b \<and> M mod b < d"
proof -
  define q r where "q = M div b" and "r = M mod b"
  have M: "M = q * b + r" "r < b" using assms(1) by (simp_all add: q_def r_def)
  consider "v < q" | "v = q" | "q < v" by linarith
  then show ?thesis
  proof cases
    case 1
    then have "(v + 1) * b \<le> q * b" by (intro mult_right_mono) simp_all
    then show ?thesis using 1 assms(2) M unfolding q_def [symmetric] by simp
  next
    case 2
    then show ?thesis using M unfolding q_def [symmetric] r_def [symmetric] by simp
  next
    case 3
    then have "(q + 1) * b \<le> v * b" by (intro mult_right_mono) simp_all
    then show ?thesis using 3 M unfolding q_def [symmetric] by simp
  qed
qed

lemma unat_of_nat_u64: "n < 2 ^ 64 \<Longrightarrow> unat (of_nat n :: u64) = n"
  by (simp add: unat_of_nat take_bit_nat_eq_self)

lemma of_int_base:
  assumes "2 \<le> base" "base \<le> 36"
  shows "(of_int base :: u64) = of_nat (nat base)" "unat (of_int base :: u64) = nat base"
proof -
  show e: "(of_int base :: u64) = of_nat (nat base)" using assms by simp
  show "unat (of_int base :: u64) = nat base" unfolding e by (rule unat_of_nat_u64) (use assms in simp)
qed

lemma cutoff_criterion:
  assumes base: "2 \<le> base" "base \<le> 36" and d: "int d < base" and v: "v < 2 ^ 64"
  shows "cutoff_tab base < of_nat v \<or> of_nat v = cutoff_tab base \<and> cutlim_tab base < of_nat d \<longleftrightarrow> 2 ^ 64 \<le> v * nat base + d"
proof -
  let ?b = "nat base"
  have max: "unat ULONG_MAX = 2 ^ 64 - 1" by (simp add: ULONG_MAX_def)
  have c: "unat (cutoff_tab base) = (2 ^ 64 - 1) div ?b" "unat (cutlim_tab base) = (2 ^ 64 - 1) mod ?b"
    unfolding cutoff_tab_def cutlim_tab_def unat_div unat_mod max of_int_base(2) [OF base] by (rule refl)+
  have d': "unat (of_nat d :: u64) = d" using d base by (intro unat_of_nat_u64) simp
  have v': "unat (of_nat v :: u64) = v" using v by (rule unat_of_nat_u64)
  have "cutoff_tab base < of_nat v \<or> of_nat v = cutoff_tab base \<and> cutlim_tab base < of_nat d
      \<longleftrightarrow> (2 ^ 64 - 1) div ?b < v \<or> v = (2 ^ 64 - 1) div ?b \<and> (2 ^ 64 - 1) mod ?b < d"
    unfolding word_less_nat_alt word_unat_eq_iff c d' v' ..
  also have "\<dots> \<longleftrightarrow> 2 ^ 64 - 1 < v * ?b + d"
    using overflow_criterion [of ?b d "2 ^ 64 - 1" v] base d by simp
  also have "\<dots> \<longleftrightarrow> 2 ^ 64 \<le> v * ?b + d" by auto
  finally show ?thesis .
qed

lemma strtol_digits_run:
  assumes base: "2 \<le> base" "base \<le> 36" and inv: "if ov then 2 ^ 64 \<le> v else v < 2 ^ 64 \<and> i = of_nat v"
  shows "\<exists>i'. strtol_digits base s ov i = ((let v' = foldl (\<lambda>v c. v * nat base + the (digit_value c)) v (takeWhile (digit_in base) s)
     in (2 ^ 64 \<le> v', if 2 ^ 64 \<le> v' then i' else of_nat v', dropWhile (digit_in base) s)))"
  using inv
proof (induction s arbitrary: ov i v)
  case Nil
  then show ?case by (cases ov) auto
next
  case (Cons c s)
  show ?case
  proof (cases "digit_in base c")
    case False
    then show ?thesis using Cons.prems by (cases ov) (auto simp: digit_in_def split: option.splits)
  next
    case True
    then obtain d where d: "digit_value c = Some d" "int d < base" by (auto simp: digit_in_def split: option.splits)
    let ?v = "v * nat base + d"
    define ov' i' where "ov' = (if cutoff_tab base < i \<or> (i = cutoff_tab base \<and> cutlim_tab base < of_nat d) then True else ov)"
      and "i' = (if cutoff_tab base < i \<or> (i = cutoff_tab base \<and> cutlim_tab base < of_nat d) then i else i * of_int base + of_nat d)"
    have "if ov' then 2 ^ 64 \<le> ?v else ?v < 2 ^ 64 \<and> i' = of_nat ?v"
    proof (cases ov)
      case True
      then have "2 ^ 64 \<le> v" "ov'" using Cons.prems by (simp_all add: ov'_def)
      moreover have "1 \<le> nat base" using base by linarith
      then have "v \<le> v * nat base" by simp
      ultimately show ?thesis by (simp only: if_True)
    next
      case False
      then have v: "v < 2 ^ 64" and i: "i = of_nat v" using Cons.prems by simp_all
      show ?thesis
        using cutoff_criterion [OF base d(2) v] False unfolding ov'_def i'_def i of_int_base(1) [OF base]
        by (cases "2 ^ 64 \<le> ?v") (simp_all only: if_True if_False of_nat_add of_nat_mult, simp_all)
    qed
    moreover have "strtol_digits base (c # s) ov i = strtol_digits base s ov' i'" using d by (auto simp: ov'_def i'_def)
    ultimately show ?thesis using Cons.IH [of ov' ?v i'] True d by simp
  qed
qed


lemma strtol_digits_value:
  assumes "2 \<le> b" "b \<le> 36"
  shows "\<exists>i. strtol_digits b s False 0 = (2 ^ 64 \<le> digits_val b (takeWhile (digit_in b) s),
     if 2 ^ 64 \<le> digits_val b (takeWhile (digit_in b) s) then i else of_nat (digits_val b (takeWhile (digit_in b) s)),
     dropWhile (digit_in b) s)"
proof -
  have "if False then 2 ^ 64 \<le> (0 :: nat) else (0 :: nat) < 2 ^ 64 \<and> (0 :: u64) = of_nat 0" by simp
  from strtol_digits_run [OF assms this, of s] show ?thesis unfolding digits_val_def Let_def .
qed

lemma strtol_prefix_base:
  "base = 0 \<or> 2 \<le> base \<and> base \<le> 36 \<Longrightarrow> strtol_prefix bin base s = (b, s') \<Longrightarrow> 2 \<le> b \<and> b \<le> 36"
  by (auto simp: strtol_prefix_def split: if_splits)

lemma strtol_scan_Nil:
  assumes "strtol_sign [] = (neg, s1)" "strtol_prefix bin base s1 = (b, s2)"
  shows "s2 = []"
  using assms by (auto simp: strtol_sign_def strtol_prefix_def NUL_def split: if_splits)

lemma sint_u64_small: "v < 2 ^ 63 \<Longrightarrow> sint (of_nat v :: u64) = int v"
  by (simp add: signed_of_nat signed_take_bit_int_eq_self)

lemma sint_u64_neg: "v \<le> 2 ^ 63 \<Longrightarrow> sint (- of_nat v :: u64) = - int v"
proof -
  assume v: "v \<le> 2 ^ 63"
  have "(- of_nat v :: u64) = of_int (- int v)" by simp
  then have "sint (- of_nat v :: u64) = signed_take_bit 63 (- int v)" by (simp only: signed_of_int) simp
  also have "\<dots> = - int v" by (rule signed_take_bit_int_eq_self) (use v in simp_all)
  finally show ?thesis .
qed

text \<open>The bounds of \<open>long\<close>, and a number clamped to them.\<close>

definition long_range :: "int \<Rightarrow> bool" where
  "long_range x \<longleftrightarrow> - (2 ^ 63) \<le> x \<and> x < 2 ^ 63"

definition long_clamp :: "int \<Rightarrow> int" where
  "long_clamp x = max (- (2 ^ 63)) (min (2 ^ 63 - 1) x)"

text \<open>
  C29: \<open>strtol\<close> returns the number that the longest run of digits of the base, after white
  space, sign and prefix, denotes, clamped to the range of \<open>long\<close>, with ERANGE exactly when it had to be
  clamped; \<open>endptr\<close> is the character after the digits.
\<close>

theorem strtol_converts:
  assumes base: "base = 0 \<or> 2 \<le> base \<and> base \<le> 36"
    and scan: "strtol_sign (skip_space sp nptr) = (neg, s1)" "strtol_prefix bin base s1 = (b, s2)"
    and digits: "takeWhile (digit_in b) s2 \<noteq> []"
  shows "let r = strtol_l_internal False nptr base bin sp;
             v = int (digits_val b (takeWhile (digit_in b) s2));
             x = (if neg then - v else v)
         in sint (strtol_value r) = long_clamp x
          \<and> strtol_errno r = (if long_range x then None else Some ERANGE)
          \<and> strtol_endptr r = Some (dropWhile (digit_in b) s2)"
proof -
  define v where "v = digits_val b (takeWhile (digit_in b) s2)"
  have b: "2 \<le> b" "b \<le> 36" using strtol_prefix_base [OF base scan(2)] by auto
  obtain i where run: "strtol_digits b s2 False 0 = (2 ^ 64 \<le> v, if 2 ^ 64 \<le> v then i else of_nat v, dropWhile (digit_in b) s2)"
    using strtol_digits_value [OF b, of s2] unfolding v_def by blast
  have ne: "dropWhile (digit_in b) s2 \<noteq> s2"
    using digits takeWhile_dropWhile_id [of "digit_in b" s2] by (metis append_self_conv2)
  have "skip_space sp nptr \<noteq> []" using strtol_scan_Nil scan digits by fastforce
  then have "strtol_l_internal False nptr base bin sp =
    (let i = (if 2 ^ 64 \<le> v then i else of_nat v);
         ov = (if \<not> 2 ^ 64 \<le> v \<and> (if neg then - (LONG_MIN + 1) + 1 else LONG_MAX) < i then True else 2 ^ 64 \<le> v)
     in if ov then \<lparr>strtol_value = if neg then LONG_MIN else LONG_MAX, strtol_endptr = Some (dropWhile (digit_in b) s2), strtol_errno = Some ERANGE\<rparr>
        else \<lparr>strtol_value = if neg then - i else i, strtol_endptr = Some (dropWhile (digit_in b) s2), strtol_errno = None\<rparr>)"
    using base scan run ne unfolding strtol_l_internal_def strtol_finish_def by (auto simp: Let_def)
  note run = this
  have lim: "LONG_MAX < of_nat v \<longleftrightarrow> 2 ^ 63 \<le> v" "- (LONG_MIN + 1) + 1 < (of_nat v :: u64) \<longleftrightarrow> 2 ^ 63 < v" if "v < 2 ^ 64"
    using unat_of_nat_u64 [OF that] by (auto simp: word_less_nat_alt LONG_MAX_def LONG_MIN_def)
  have ends: "sint LONG_MIN = - (2 ^ 63)" "sint LONG_MAX = 2 ^ 63 - 1" by (simp_all add: LONG_MIN_def LONG_MAX_def)
  define x where "x = (if neg then - int v else int v)"
  have "sint (strtol_value (strtol_l_internal False nptr base bin sp)) = long_clamp x
      \<and> strtol_errno (strtol_l_internal False nptr base bin sp) = (if long_range x then None else Some ERANGE)
      \<and> strtol_endptr (strtol_l_internal False nptr base bin sp) = Some (dropWhile (digit_in b) s2)"
  proof (cases "long_range x")
    case True
    then have small: "v < 2 ^ 64" "neg \<longrightarrow> v \<le> 2 ^ 63" "\<not> neg \<longrightarrow> v < 2 ^ 63"
      by (auto simp: long_range_def x_def split: if_splits)
    then have "strtol_l_internal False nptr base bin sp =
      \<lparr>strtol_value = if neg then - of_nat v else of_nat v, strtol_endptr = Some (dropWhile (digit_in b) s2), strtol_errno = None\<rparr>"
      unfolding run using lim by (auto simp: Let_def)
    moreover have "long_clamp x = x" using True by (simp add: long_range_def long_clamp_def)
    ultimately show ?thesis using small True sint_u64_small [of v] sint_u64_neg [of v] by (simp add: x_def)
  next
    case False
    then have big: "neg \<longrightarrow> 2 ^ 63 < v" "\<not> neg \<longrightarrow> 2 ^ 63 \<le> v"
      by (auto simp: long_range_def x_def split: if_splits)
    then have "strtol_l_internal False nptr base bin sp =
      \<lparr>strtol_value = if neg then LONG_MIN else LONG_MAX, strtol_endptr = Some (dropWhile (digit_in b) s2), strtol_errno = Some ERANGE\<rparr>"
      unfolding run using lim by (cases "v < 2 ^ 64") (auto simp: Let_def)
    moreover have "long_clamp x = (if neg then - (2 ^ 63) else 2 ^ 63 - 1)"
      using big by (auto simp: long_clamp_def x_def)
    ultimately show ?thesis using False ends by simp
  qed
  then show ?thesis by (simp add: Let_def v_def x_def)
qed

theorem strtol_converts_witness:
  "strtol_sign (skip_space isspace ''  -0x1F;'') = (True, ''0x1F;'') \<and> strtol_prefix False 0 ''0x1F;'' = (16, ''1F;'')
   \<and> takeWhile (digit_in 16) ''1F;'' \<noteq> []
   \<and> sint (strtol_value (strtol_l_internal False ''  -0x1F;'' 0 False isspace)) = - 31
   \<and> strtol_endptr (strtol_l_internal False ''  -0x1F;'' 0 False isspace) = Some '';''"
proof -
  have 1: "strtol_sign (skip_space isspace ''  -0x1F;'') = (True, ''0x1F;'')" by code_simp
  have 2: "strtol_prefix False 0 ''0x1F;'' = (16, ''1F;'')" by code_simp
  have 3: "takeWhile (digit_in 16) ''1F;'' = ''1F''" "dropWhile (digit_in 16) ''1F;'' = '';''" "digits_val 16 ''1F'' = 31" by code_simp+
  have 4: "takeWhile (digit_in 16) ''1F;'' \<noteq> []" using 3 by simp
  show ?thesis using strtol_converts [OF _ 1 2 4] 1 2 3 4 by (simp add: Let_def long_clamp_def)
qed


lemma char_at_nth: "k < length s \<Longrightarrow> char_at s k = s ! k"
  by (induction s k rule: char_at.induct) auto

lemma skip_space_split: "\<exists>ws. s = ws @ skip_space sp s \<and> list_all sp ws"
proof (induction s)
  case (Cons c s)
  then obtain ws where "s = ws @ skip_space sp s" "list_all sp ws" by blast
  then show ?case by (cases "sp c") (auto intro: exI [of _ "c # ws"] exI [of _ "[]"])
qed simp

lemma strtol_sign_split: "strtol_sign s = (neg, s1) \<Longrightarrow> s = s1 \<or> (\<exists>c. s = c # s1 \<and> (c = CHR ''-'' \<or> c = CHR ''+''))"
  by (cases s) (auto simp: strtol_sign_def NUL_def split: if_splits)

lemma strtol_before_number:
  assumes "strtol_sign (skip_space isspace nptr) = (neg, s1)"
  obtains pre where "nptr = pre @ s1" "\<forall>c \<in> set pre. toupper c \<noteq> CHR ''X'' \<and> toupper c \<noteq> CHR ''B''"
proof -
  obtain ws where ws: "nptr = ws @ skip_space isspace nptr" "list_all isspace ws" using skip_space_split by blast
  have sp: "toupper c \<noteq> CHR ''X'' \<and> toupper c \<noteq> CHR ''B''" if "isspace c" for c
    using that by (auto simp: isspace_def toupper_def islower_def)
  have sg: "toupper c \<noteq> CHR ''X'' \<and> toupper c \<noteq> CHR ''B''" if "c = CHR ''-'' \<or> c = CHR ''+''" for c
    using that by (auto simp: toupper_def islower_def)
  show thesis
    using strtol_sign_split [OF assms] ws sp sg that [of ws] that [of "ws @ [_]"] by (auto simp: list_all_iff)
qed

lemma strtol_prefix_split:
  assumes "strtol_prefix bin base s1 = (b, s2)"
  shows "s2 = s1 \<or> (\<exists>c. s1 = CHR ''0'' # c # s2 \<and> (toupper c = CHR ''X'' \<or> bin \<and> toupper c = CHR ''B''))"
  using assms by (cases s1; cases "tl s1") (auto simp: strtol_prefix_def NUL_def toupper_def islower_def split: if_splits)

text \<open>
  C30: a base other than 0 and 2 to 36 is refused whatever the text: the result is 0 with EINVAL and \<open>endptr\<close> is not
  stored, also if there are digits.  With a valid base and no digit of that base after white space, sign and prefix the
  result is 0, no error is stored, and \<open>endptr\<close> is the argument, or the \<open>x\<close> (\<open>b\<close>) of a prefix that no digit follows.
\<close>

theorem strtol_no_conversion:
  assumes scan: "strtol_sign (skip_space isspace nptr) = (neg, s1)" "strtol_prefix bin base s1 = (b, s2)"
    and none: "base < 0 \<or> base = 1 \<or> 36 < base \<or> takeWhile (digit_in b) s2 = []"
  shows "strtol_l_internal u nptr base bin isspace =
    (if base < 0 \<or> base = 1 \<or> 36 < base then \<lparr>strtol_value = 0, strtol_endptr = None, strtol_errno = Some EINVAL\<rparr>
     else \<lparr>strtol_value = 0, strtol_endptr = Some (if s2 = s1 then nptr else drop 1 s1), strtol_errno = None\<rparr>)"
proof (cases "base < 0 \<or> base = 1 \<or> 36 < base")
  case True
  then show ?thesis by (simp add: strtol_l_internal_def)
next
  case False
  then have base: "base = 0 \<or> 2 \<le> base \<and> base \<le> 36" and nodigits: "takeWhile (digit_in b) s2 = []" using none by auto
  have b: "2 \<le> b" "b \<le> 36" using strtol_prefix_base [OF base scan(2)] by auto
  have stop: "dropWhile (digit_in b) s2 = s2" using nodigits takeWhile_dropWhile_id [of "digit_in b" s2] by simp
  obtain i where run: "strtol_digits b s2 False 0 = (False, i, s2)"
    using strtol_digits_value [OF b, of s2] nodigits stop by (auto simp: digits_val_def)
  obtain pre where pre: "nptr = pre @ s1" "\<forall>c \<in> set pre. toupper c \<noteq> CHR ''X'' \<and> toupper c \<noteq> CHR ''B''"
    using strtol_before_number [OF scan(1)] .
  have nc: "strtol_noconv bin nptr s2 = \<lparr>strtol_value = 0, strtol_endptr = Some (if s2 = s1 then nptr else drop 1 s1), strtol_errno = None\<rparr>"
    using strtol_prefix_split [OF scan(2)]
  proof
    assume s2: "s2 = s1"
    have "toupper (char_at nptr (length pre - 1)) \<noteq> CHR ''X'' \<and> toupper (char_at nptr (length pre - 1)) \<noteq> CHR ''B''" if "2 \<le> length pre"
      using that pre by (simp add: char_at_nth nth_append)
    then show ?thesis using pre(1) s2 by (auto simp: strtol_noconv_def Let_def)
  next
    assume "\<exists>c. s1 = CHR ''0'' # c # s2 \<and> (toupper c = CHR ''X'' \<or> bin \<and> toupper c = CHR ''B'')"
    then obtain c where c: "s1 = CHR ''0'' # c # s2" "toupper c = CHR ''X'' \<or> bin \<and> toupper c = CHR ''B''" by blast
    have "char_at nptr (length pre + 1) = c" "char_at nptr (length pre) = CHR ''0''"
      using pre(1) c(1) by (simp_all add: char_at_nth nth_append)
    then show ?thesis using pre(1) c by (auto simp: strtol_noconv_def Let_def)
  qed
  have "strtol_noconv bin nptr nptr = \<lparr>strtol_value = 0, strtol_endptr = Some nptr, strtol_errno = None\<rparr>"
    by (simp add: strtol_noconv_def Let_def)
  moreover have "s2 = s1" if "skip_space isspace nptr = []"
    using that scan strtol_scan_Nil [of neg s1 bin base b s2] by (auto simp: strtol_sign_def split: if_splits)
  ultimately show ?thesis
    using False scan run nc by (cases "skip_space isspace nptr = []") (simp_all add: strtol_l_internal_def Let_def)
qed

theorem strtol_no_conversion_witness:
  "strtol_sign (skip_space isspace ''0xg'') = (False, ''0xg'') \<and> strtol_prefix False 16 ''0xg'' = (16, ''g'')
   \<and> takeWhile (digit_in 16) ''g'' = [] \<and> strtol_endptr (strtol_l_internal False ''0xg'' 16 False isspace) = Some ''xg''
   \<and> strtol_l_internal False ''12'' 37 False isspace = \<lparr>strtol_value = 0, strtol_endptr = None, strtol_errno = Some EINVAL\<rparr>"
proof -
  have 1: "strtol_sign (skip_space isspace ''0xg'') = (False, ''0xg'')" "strtol_sign (skip_space isspace ''12'') = (False, ''12'')"
    by code_simp+
  have 2: "strtol_prefix False 16 ''0xg'' = (16, ''g'')" "strtol_prefix False 37 ''12'' = (37, ''12'')" by code_simp+
  have 3: "takeWhile (digit_in 16) ''g'' = []" by code_simp
  show ?thesis
    using strtol_no_conversion [OF 1(1) 2(1)] strtol_no_conversion [OF 1(2) 2(2)] 1 2 3 by simp
qed

end
