(* ===== verification/Inet.thy ===== *)
theory Inet
  imports Chars
begin

text \<open>
  Presentation and network forms of IPv4 and IPv6 addresses: \<open>resolv/inet_pton_length.c\<close>,
  \<open>resolv/inet_pton.c\<close> and \<open>resolv/inet_ntop.c\<close>.

  A source pointer with its end is the text between them, a character list; advancing the pointer takes the
  tail.  An address is its list of 4 or 16 bytes in network order.  The parsers build it in a buffer of that size; their
  result is \<open>None\<close> if they access a byte outside of it, \<open>Some None\<close> if they return 0, and otherwise the bytes
  stored at the destination.  The formatting functions return what they store, the terminating NUL included.
\<close>

section \<open>Constants\<close>

definition NS_INADDRSZ :: nat where "NS_INADDRSZ = 4"
definition NS_IN6ADDRSZ :: nat where "NS_IN6ADDRSZ = 16"
definition NS_INT16SZ :: nat where "NS_INT16SZ = 2"
definition INET_ADDRSTRLEN :: nat where "INET_ADDRSTRLEN = 16"
definition INET6_ADDRSTRLEN :: nat where "INET6_ADDRSTRLEN = 46"

definition AF_INET :: int where "AF_INET = 2"
definition AF_INET6 :: int where "AF_INET6 = 10"

section \<open>From presentation to network form\<close>

subsection \<open>IPv4\<close>

text \<open>
  \<open>tp\<close> is an index into \<open>tmp\<close>.  The bytes of \<open>tmp\<close> behind \<open>tp\<close> are not initialised in the source and 0 here; none of them
  is read before it is stored.
\<close>

fun inet_pton4_loop :: "string \<Rightarrow> bool \<Rightarrow> nat \<Rightarrow> u8 list \<Rightarrow> nat \<Rightarrow> u8 list option option" where
  "inet_pton4_loop [] saw_digit octets tmp tp = Some (if octets < 4 then None else Some tmp)"
| "inet_pton4_loop (ch # src) saw_digit octets tmp tp =
     (if ord CHR ''0'' \<le> ord ch \<and> ord ch \<le> ord CHR ''9''
      then do {
        v \<leftarrow> load_at tmp tp;
        let new = unat v * 10 + (ord ch - ord CHR ''0'');
        if saw_digit \<and> v = 0 then Some None
        else if 255 < new then Some None
        else do {
          tmp \<leftarrow> store_at tmp tp [of_nat new];
          if \<not> saw_digit
          then (if 4 < octets + 1 then Some None
                else inet_pton4_loop src True (octets + 1) tmp tp)
          else inet_pton4_loop src saw_digit octets tmp tp
        }
      }
      else if ch = CHR ''.'' \<and> saw_digit
      then (if octets = 4 then Some None
            else do {
              tmp \<leftarrow> store_at tmp (tp + 1) [0];
              inet_pton4_loop src False octets tmp (tp + 1)
            })
      else Some None)"

definition inet_pton4 :: "string \<Rightarrow> u8 list option option" where
  "inet_pton4 src = inet_pton4_loop src False 0 (replicate NS_INADDRSZ 0) 0"

subsection \<open>IPv6\<close>

definition hex_digit_value :: "char \<Rightarrow> nat option" where
  "hex_digit_value ch =
     (if ord CHR ''0'' \<le> ord ch \<and> ord ch \<le> ord CHR ''9'' then Some (ord ch - ord CHR ''0'')
      else if ord CHR ''a'' \<le> ord ch \<and> ord ch \<le> ord CHR ''f'' then Some (ord ch - ord CHR ''a'' + 10)
      else if ord CHR ''A'' \<le> ord ch \<and> ord ch \<le> ord CHR ''F'' then Some (ord ch - ord CHR ''A'' + 10)
      else None)"

text \<open>The variables of \<open>inet_pton6\<close>; \<open>tp\<close>, \<open>colonp\<close> are indices into \<open>tmp\<close>.\<close>

record pton6_state =
  p6_tmp :: "u8 list"
  p6_tp :: nat
  p6_colonp :: "nat option"
  p6_xdigits_seen :: nat
  p6_val :: u32

definition put_val :: "pton6_state \<Rightarrow> pton6_state option" where
  "put_val s =
     do {
       tmp \<leftarrow> store_at (p6_tmp s) (p6_tp s) [ucast (drop_bit 8 (p6_val s)) AND 0xff, ucast (p6_val s) AND 0xff];
       Some (s\<lparr>p6_tmp := tmp, p6_tp := p6_tp s + 2\<rparr>)
     }"

fun inet_pton6_loop :: "string \<Rightarrow> string \<Rightarrow> pton6_state \<Rightarrow> pton6_state option option" where
  "inet_pton6_loop [] curtok s = Some (Some s)"
| "inet_pton6_loop (ch # src) curtok s =
     (case hex_digit_value ch of
        Some digit \<Rightarrow>
          if p6_xdigits_seen s = 4 then Some None
          else (let val = push_bit 4 (p6_val s) OR of_nat digit
                in if 0xffff < val then Some None
                   else inet_pton6_loop src curtok
                          (s\<lparr>p6_val := val, p6_xdigits_seen := p6_xdigits_seen s + 1\<rparr>))
      | None \<Rightarrow>
          if ch = CHR '':''
          then (if p6_xdigits_seen s = 0
                then (if p6_colonp s \<noteq> None then Some None
                      else inet_pton6_loop src src (s\<lparr>p6_colonp := Some (p6_tp s)\<rparr>))
                else if src = [] then Some None
                else if NS_IN6ADDRSZ < p6_tp s + NS_INT16SZ then Some None
                else do {
                  s \<leftarrow> put_val s;
                  inet_pton6_loop src src (s\<lparr>p6_xdigits_seen := 0, p6_val := 0\<rparr>)
                })
          else if ch = CHR ''.'' \<and> p6_tp s + NS_INADDRSZ \<le> NS_IN6ADDRSZ
          then do {
            r \<leftarrow> inet_pton4 curtok;
            case r of
              None \<Rightarrow> Some None
            | Some dst \<Rightarrow>
                do {
                  tmp \<leftarrow> store_at (p6_tmp s) (p6_tp s) dst;
                  Some (Some (s\<lparr>p6_tmp := tmp, p6_tp := p6_tp s + NS_INADDRSZ, p6_xdigits_seen := 0\<rparr>))
                }
          }
          else Some None)"

text \<open>
  What follows the loop: the last group, and the zeros for the double colon, with the \<open>memmove\<close> and \<open>memset\<close> inside of
  \<open>tmp\<close>.
\<close>

definition inet_pton6_finish :: "pton6_state \<Rightarrow> u8 list option option" where
  "inet_pton6_finish s =
     (if 0 < p6_xdigits_seen s \<and> NS_IN6ADDRSZ < p6_tp s + NS_INT16SZ then Some None
      else do {
        s \<leftarrow> (if 0 < p6_xdigits_seen s then put_val s else Some s);
        case p6_colonp s of
          Some colonp \<Rightarrow>
            if p6_tp s = NS_IN6ADDRSZ then Some None
            else do {
              let n = p6_tp s - colonp;
              bs \<leftarrow> read_at (p6_tmp s) colonp n;
              tmp \<leftarrow> store_at (p6_tmp s) (NS_IN6ADDRSZ - n) bs;
              tmp \<leftarrow> store_at tmp colonp (replicate (NS_IN6ADDRSZ - n - colonp) 0);
              Some (Some tmp)
            }
        | None \<Rightarrow> Some (if p6_tp s \<noteq> NS_IN6ADDRSZ then None else Some (p6_tmp s))
      })"

text \<open>The same after a return from inside the loop.\<close>

definition inet_pton6_rest :: "pton6_state option \<Rightarrow> u8 list option option" where
  "inet_pton6_rest r = (case r of None \<Rightarrow> Some None | Some s \<Rightarrow> inet_pton6_finish s)"

definition inet_pton6 :: "string \<Rightarrow> u8 list option option" where
  "inet_pton6 src =
     (let run = (\<lambda>src. Option.bind
                   (inet_pton6_loop src src
                     \<lparr>p6_tmp = replicate NS_IN6ADDRSZ 0, p6_tp = 0, p6_colonp = None, p6_xdigits_seen = 0, p6_val = 0\<rparr>)
                   inet_pton6_rest)
      in case src of
           [] \<Rightarrow> Some None
         | c # rest \<Rightarrow>
             if c = CHR '':''
             then (case rest of [] \<Rightarrow> Some None | d # _ \<Rightarrow> if d \<noteq> CHR '':'' then Some None else run rest)
             else run src)"

text \<open>
  \<open>Inl\<close> is -1 with the error stored; \<open>Inr None\<close> is 0; \<open>Inr (Some dst)\<close> is 1 with \<open>dst\<close> stored.  The outer \<open>None\<close> is an
  access outside of a buffer.
\<close>

definition inet_pton_length :: "int \<Rightarrow> string \<Rightarrow> nat \<Rightarrow> (errno + u8 list option) option" where
  "inet_pton_length af src srclen =
     (if af = AF_INET then map_option Inr (inet_pton4 (take srclen src))
      else if af = AF_INET6 then map_option Inr (inet_pton6 (take srclen src))
      else Some (Inl EAFNOSUPPORT))"

definition inet_pton :: "int \<Rightarrow> string \<Rightarrow> (errno + u8 list option) option" where
  "inet_pton af src = inet_pton_length af src (strlen src)"

section \<open>From network to presentation form\<close>

definition put_uint8 :: "u8 \<Rightarrow> string" where
  "put_uint8 word =
     (let chr = (\<lambda>w. char_of (ord CHR ''0'' + unat w) :: char)
      in if 10 \<le> word
         then (if 100 \<le> word
               then [chr (word div 10 div 10), chr (word div 10 mod 10), chr (word mod 10)]
               else [chr (word div 10), chr (word mod 10)])
         else [chr word])"

definition itoa_lower_digits :: string where
  "itoa_lower_digits = ''0123456789abcdefghijklmnopqrstuvwxyz''"

definition put_uint16 :: "u16 \<Rightarrow> string" where
  "put_uint16 word =
     (let digit = (\<lambda>k. itoa_lower_digits ! unat (drop_bit k word AND 0xf))
      in (if 0x1000 \<le> word then [digit 12] else []) @ (if 0x100 \<le> word then [digit 8] else [])
         @ (if 0x10 \<le> word then [digit 4] else []) @ [digit 0])"

definition inet_ntop4_format :: "u8 list \<Rightarrow> string" where
  "inet_ntop4_format src =
     put_uint8 (src ! 0) @ ''.'' @ put_uint8 (src ! 1) @ ''.'' @ put_uint8 (src ! 2) @ ''.''
     @ put_uint8 (src ! 3) @ [NUL]"

definition inet_ntop4 :: "u8 list \<Rightarrow> nat \<Rightarrow> errno + string" where
  "inet_ntop4 src sz =
     (if INET_ADDRSTRLEN \<le> sz then Inr (inet_ntop4_format src)
      else (let tmp = inet_ntop4_format src
            in if sz < length tmp then Inl ENOSPC else Inr tmp))"

record best_t =
  run_base :: int
  run_len :: int

text \<open>A 16-bit group of the address, in host order.\<close>

definition in6_addr_addr16 :: "u8 list \<Rightarrow> nat \<Rightarrow> u16" where
  "in6_addr_addr16 src idx = push_bit 8 (ucast (src ! (2 * idx))) OR ucast (src ! (2 * idx + 1))"

text \<open>The body of the loop that searches the longest run of zero groups: \<open>best\<close> and \<open>cur\<close>.\<close>

definition best_run_step :: "u8 list \<Rightarrow> nat \<Rightarrow> best_t \<times> best_t \<Rightarrow> best_t \<times> best_t" where
  "best_run_step src i = (\<lambda>(best, cur).
     if in6_addr_addr16 src i = 0
     then (if run_base cur = - 1 then (best, cur\<lparr>run_base := int i, run_len := 1\<rparr>) else (best, cur\<lparr>run_len := run_len cur + 1\<rparr>))
     else (if run_base cur \<noteq> - 1
           then (if run_base best = - 1 \<or> run_len best < run_len cur then cur else best, cur\<lparr>run_base := - 1\<rparr>)
           else (best, cur)))"

definition best_run :: "u8 list \<Rightarrow> best_t" where
  "best_run src =
     (let (best, cur) = fold (best_run_step src) [0..<NS_IN6ADDRSZ div NS_INT16SZ]
                          (\<lparr>run_base = - 1, run_len = 0\<rparr>, \<lparr>run_base = - 1, run_len = 0\<rparr>);
          best = (if run_base cur \<noteq> - 1 then (if run_base best = - 1 \<or> run_len best < run_len cur then cur else best) else best)
      in if run_base best \<noteq> - 1 \<and> run_len best < 2 then best\<lparr>run_base := - 1\<rparr> else best)"

text \<open>The loop of \<open>inet_ntop6_format\<close> over the groups \<open>i\<close> still to come; \<open>tp\<close> is the text stored so far.\<close>

fun inet_ntop6_groups :: "u8 list \<Rightarrow> best_t \<Rightarrow> nat list \<Rightarrow> string \<Rightarrow> string option" where
  "inet_ntop6_groups src best [] tp = Some tp"
| "inet_ntop6_groups src best (i # is) tp =
     (if run_base best \<noteq> - 1 \<and> run_base best \<le> int i \<and> int i < run_base best + run_len best
      then inet_ntop6_groups src best is (if int i = run_base best then tp @ '':'' else tp)
      else
        (let tp = (if i \<noteq> 0 then tp @ '':'' else tp)
         in if i = 6 \<and> run_base best = 0 \<and> (run_len best = 6 \<or> (run_len best = 5 \<and> in6_addr_addr16 src 5 = 0xffff))
            then (case inet_ntop4 (drop 12 src) (INET6_ADDRSTRLEN - length tp) of
                    Inl e \<Rightarrow> None
                  | Inr s \<Rightarrow> Some (tp @ take (strlen s) s))
            else inet_ntop6_groups src best is (tp @ put_uint16 (in6_addr_addr16 src i))))"

definition inet_ntop6_format :: "u8 list \<Rightarrow> best_t \<Rightarrow> string option" where
  "inet_ntop6_format src best =
     map_option
       (\<lambda>tp. (if run_base best \<noteq> - 1 \<and> run_base best + run_len best = int (NS_IN6ADDRSZ div NS_INT16SZ) then tp @ '':'' else tp) @ [NUL])
       (inet_ntop6_groups src best [0..<NS_IN6ADDRSZ div NS_INT16SZ] [])"

text \<open>
  The text stored at the destination if it has room for any address; a null result of the formatting
  function, which is not checked there, is the outer \<open>None\<close>.
\<close>

definition inet_ntop6 :: "u8 list \<Rightarrow> nat \<Rightarrow> (errno + string) option" where
  "inet_ntop6 src sz =
     map_option
       (\<lambda>tmp. if INET6_ADDRSTRLEN \<le> sz then Inr tmp
              else if sz < length tmp then Inl ENOSPC else Inr tmp)
       (inet_ntop6_format src (best_run src))"

definition inet_ntop :: "int \<Rightarrow> u8 list \<Rightarrow> nat \<Rightarrow> (errno + string) option" where
  "inet_ntop af src sz =
     (if af = AF_INET then Some (inet_ntop4 src sz)
      else if af = AF_INET6 then inet_ntop6 src sz
      else Some (Inl EAFNOSUPPORT))"

end
