(* ===== verification/Inet_Addr.thy ===== *)
theory Inet_Addr
  imports Inet Strtol
begin

text \<open>
  The older address routines: \<open>resolv/inet_addr.c\<close> (on top of \<open>strtoul\<close>), \<open>inet/inet_ntoa.c\<close>, \<open>inet/inet_lnaof.c\<close>,
  \<open>inet_netof.c\<close>, \<open>inet_mkadr.c\<close>, \<open>inet_net.c\<close> and the network numbers of \<open>resolv/inet_neta.c\<close>, \<open>inet_net_ntop.c\<close> and
  \<open>inet_net_pton.c\<close>.

  A \<open>struct in_addr\<close> is the list of its 4 bytes in memory, so that \<open>ntohl\<close> and \<open>htonl\<close> are \<open>of_be32\<close> and \<open>be32\<close>.
\<close>

section \<open>inet_aton and inet_addr\<close>

definition aton_max :: "u32 list" where
  "aton_max = [0xffffffff, 0xffffff, 0xffff, 0xff]"

text \<open>The address and the rest of the text, or \<open>None\<close> for the return value 0.\<close>

function inet_aton_loop :: "string \<Rightarrow> nat \<Rightarrow> u8 list \<Rightarrow> (u8 list \<times> string) option" where
  "inet_aton_loop cp pp res =
     (if \<not> isdigit (char_at cp 0) then None
      else
        (let r = strtoul cp 0; ul = strtol_value r
         in if ul = ULONG_MAX \<and> strtol_errno r = Some ERANGE then None
            else if 0xffffffff < ul then None
            else
              (let val = ucast ul :: u32; endp = the (strtol_endptr r); digit = cp \<noteq> endp; c = char_at endp 0
               in if c = CHR ''.''
                  then (if 2 < pp \<or> 0xff < val then None
                        else inet_aton_loop (drop 1 endp) (pp + 1) (res[pp := ucast val]))
                  else if c \<noteq> NUL \<and> (\<not> isascii c \<or> \<not> isspace c) then None
                  else if \<not> digit then None
                  else if aton_max ! pp < val then None
                  else Some (map2 (OR) res (be32 val), endp))))"
  by pat_completeness auto
termination
  by (relation "measure (\<lambda>(cp, pp, res). 3 - pp)") auto

definition inet_aton_end :: "string \<Rightarrow> (u8 list \<times> string) option" where
  "inet_aton_end cp = inet_aton_loop cp 0 [0, 0, 0, 0]"

definition inet_aton_exact :: "string \<Rightarrow> u8 list option" where
  "inet_aton_exact cp =
     (case inet_aton_end cp of Some (val, endp) \<Rightarrow> if endp = [] then Some val else None | None \<Rightarrow> None)"

definition inet_aton_ignore_trailing :: "string \<Rightarrow> u8 list option" where
  "inet_aton_ignore_trailing cp = map_option fst (inet_aton_end cp)"

definition INADDR_NONE :: u32 where "INADDR_NONE = 0xffffffff"

definition inet_addr :: "string \<Rightarrow> u8 list" where
  "inet_addr cp = (case inet_aton_end cp of Some (val, endp) \<Rightarrow> val | None \<Rightarrow> be32 INADDR_NONE)"

text \<open>The content of the thread's buffer; the text before if nothing is stored.\<close>

definition inet_ntoa :: "u8 list \<Rightarrow> string \<Rightarrow> string" where
  "inet_ntoa inn buffer = (case inet_ntop AF_INET inn INET_ADDRSTRLEN of Some (Inr s) \<Rightarrow> s | _ \<Rightarrow> buffer)"

section \<open>Network classes\<close>

definition IN_CLASSA :: "u32 \<Rightarrow> bool" where "IN_CLASSA a \<longleftrightarrow> a AND 0x80000000 = 0"
definition IN_CLASSB :: "u32 \<Rightarrow> bool" where "IN_CLASSB a \<longleftrightarrow> a AND 0xc0000000 = 0x80000000"
definition IN_CLASSA_NET :: u32 where "IN_CLASSA_NET = 0xff000000"
definition IN_CLASSB_NET :: u32 where "IN_CLASSB_NET = 0xffff0000"
definition IN_CLASSC_NET :: u32 where "IN_CLASSC_NET = 0xffffff00"
definition IN_CLASSA_HOST :: u32 where "IN_CLASSA_HOST = 0xffffffff AND NOT IN_CLASSA_NET"
definition IN_CLASSB_HOST :: u32 where "IN_CLASSB_HOST = 0xffffffff AND NOT IN_CLASSB_NET"
definition IN_CLASSC_HOST :: u32 where "IN_CLASSC_HOST = 0xffffffff AND NOT IN_CLASSC_NET"

definition inet_lnaof :: "u8 list \<Rightarrow> u32" where
  "inet_lnaof inn =
     (let i = of_be32 inn
      in if IN_CLASSA i then i AND IN_CLASSA_HOST
         else if IN_CLASSB i then i AND IN_CLASSB_HOST
         else i AND IN_CLASSC_HOST)"

definition inet_netof :: "u8 list \<Rightarrow> u32" where
  "inet_netof inn =
     (let i = of_be32 inn
      in if IN_CLASSA i then drop_bit 24 (i AND IN_CLASSA_NET)
         else if IN_CLASSB i then drop_bit 16 (i AND IN_CLASSB_NET)
         else drop_bit 8 (i AND IN_CLASSC_NET))"

definition inet_makeaddr :: "u32 \<Rightarrow> u32 \<Rightarrow> u8 list" where
  "inet_makeaddr net host =
     be32 (if net < 128 then push_bit 24 net OR (host AND IN_CLASSA_HOST)
           else if net < 65536 then push_bit 16 net OR (host AND IN_CLASSB_HOST)
           else if net < 16777216 then push_bit 8 net OR (host AND IN_CLASSC_HOST)
           else net OR host)"

section \<open>inet_network\<close>

definition isxdigit :: "char \<Rightarrow> bool" where
  "isxdigit c \<longleftrightarrow> isdigit c \<or> (ord CHR ''a'' \<le> ord c \<and> ord c \<le> ord CHR ''f'') \<or> (ord CHR ''A'' \<le> ord c \<and> ord c \<le> ord CHR ''F'')"

text \<open>The digits of one part: \<open>None\<close> is the return of \<open>INADDR_NONE\<close>.\<close>

fun network_digits :: "u32 \<Rightarrow> string \<Rightarrow> u32 \<Rightarrow> bool \<Rightarrow> (u32 \<times> bool \<times> string) option" where
  "network_digits base [] val digit = Some (val, digit, [])"
| "network_digits base (c # cp) val digit =
     (if 0xff < val then None
      else if isdigit c
      then (if base = 8 \<and> (c = CHR ''8'' \<or> c = CHR ''9'') then None
            else network_digits base cp (val * base + of_nat (ord c - ord CHR ''0'')) True)
      else if base = 16 \<and> isxdigit c
      then network_digits base cp (push_bit 4 val + of_nat (ord (tolower c) + 10 - ord CHR ''a'')) True
      else Some (val, digit, c # cp))"

definition network_prefix :: "string \<Rightarrow> u32 \<times> bool \<times> string" where
  "network_prefix cp =
     (let (base, digit, cp) = (if char_at cp 0 = CHR ''0'' then (8, True, drop 1 cp) else (10, False, cp))
      in if char_at cp 0 = CHR ''x'' \<or> char_at cp 0 = CHR ''X'' then (16, False, drop 1 cp) else (base, digit, cp))"

function inet_network_parts :: "string \<Rightarrow> u32 list \<Rightarrow> u32 list option" where
  "inet_network_parts cp parts =
     (let (base, digit, cp) = network_prefix cp
      in case network_digits base cp 0 digit of
           None \<Rightarrow> None
         | Some (val, digit, cp) \<Rightarrow>
             if \<not> digit then None
             else if 4 \<le> length parts \<or> 0xff < val then None
             else if char_at cp 0 = CHR ''.'' then inet_network_parts (drop 1 cp) (parts @ [val])
             else if skip_space isspace cp \<noteq> [] then None
             else if 4 \<le> length parts \<or> 0xff < val then None
             else Some (parts @ [val]))"
  by pat_completeness auto
termination
  by (relation "measure (\<lambda>(cp, parts). 4 - length parts)") auto

definition inet_network :: "string \<Rightarrow> u32" where
  "inet_network cp =
     (case inet_network_parts cp [] of
        None \<Rightarrow> INADDR_NONE
      | Some parts \<Rightarrow> foldl (\<lambda>val p. push_bit 8 val OR (p AND 0xff)) 0 parts)"


section \<open>Network numbers\<close>

text \<open>What \<open>sprintf\<close> with the format \<open>%u\<close> prints.\<close>

fun dec :: "nat \<Rightarrow> string" where
  "dec n = (if n < 10 then [char_of (ord CHR ''0'' + n)] else dec (n div 10) @ [char_of (ord CHR ''0'' + n mod 10)])"

text \<open>
  The printing functions store into the caller's buffer.  \<open>buf\<close> is its content, \<open>dst\<close> an index into it, and \<open>sz\<close> the
  argument \<open>size\<close>, a word whose subtraction wraps around.  They return the content and \<open>errno\<close> if the result is a null
  pointer; a store outside of the buffer is the outer \<open>None\<close>, and so is a read behind the end of \<open>src\<close>.

  \<open>dst += SPRINTF ((dst, "%u", n))\<close>:
\<close>

definition sprintf_u :: "char list \<Rightarrow> nat \<Rightarrow> nat \<Rightarrow> (char list \<times> nat) option" where
  "sprintf_u buf dst n = do { buf \<leftarrow> store_at buf dst (dec n @ [NUL]); Some (buf, dst + length (dec n)) }"

text \<open>A character and a NUL behind it:\<close>

definition put_char :: "char list \<Rightarrow> nat \<Rightarrow> char \<Rightarrow> (char list \<times> nat) option" where
  "put_char buf dst c = do { buf \<leftarrow> store_at buf dst [c]; buf \<leftarrow> store_at buf (dst + 1) [NUL]; Some (buf, dst + 1) }"

text \<open>
  Four shifts make the number zero, so that the loop of \<open>inet_neta\<close> runs at most four times.  The inner \<open>None\<close> is the
  jump to \<open>emsgsize\<close>.
\<close>

primrec neta_loop :: "nat \<Rightarrow> u32 \<Rightarrow> char list \<Rightarrow> nat \<Rightarrow> u64 \<Rightarrow> (char list \<times> (nat \<times> u64) option) option" where
  "neta_loop 0 src buf dst sz = Some (buf, Some (dst, sz))"
| "neta_loop (Suc k) src buf dst sz =
     (if src AND 0xffffffff = 0 then Some (buf, Some (dst, sz))
      else
        (let b = ucast (drop_bit 24 (src AND 0xff000000)) :: u8; src = push_bit 8 src
         in if b \<noteq> 0
            then (if sz < 5 then Some (buf, None)
                  else do {
                    let tp = dst;
                    (buf, dst) \<leftarrow> sprintf_u buf dst (unat b);
                    (buf, dst) \<leftarrow> (if src \<noteq> 0 then put_char buf dst CHR ''.'' else Some (buf, dst));
                    neta_loop k src buf dst (sz - of_nat (dst - tp))
                  })
            else neta_loop k src buf dst sz))"

definition inet_neta :: "u32 \<Rightarrow> char list \<Rightarrow> u64 \<Rightarrow> (char list \<times> errno option) option" where
  "inet_neta src buf sz =
     do {
       (buf, r) \<leftarrow> neta_loop 4 src buf 0 sz;
       case r of
         None \<Rightarrow> Some (buf, Some EMSGSIZE)
       | Some (dst, sz) \<Rightarrow>
           if dst = 0
           then (if sz < 8 then Some (buf, Some EMSGSIZE)
                 else do { buf \<leftarrow> store_at buf dst (''0.0.0.0'' @ [NUL]); Some (buf, None) })
           else Some (buf, None)
     }"

subsection \<open>inet_net_ntop\<close>

primrec net_octets ::
  "nat \<Rightarrow> u8 list \<Rightarrow> char list \<Rightarrow> nat \<Rightarrow> u64 \<Rightarrow> (char list \<times> (u8 list \<times> nat \<times> u64) option) option" where
  "net_octets 0 src buf dst sz = Some (buf, Some (src, dst, sz))"
| "net_octets (Suc b) src buf dst sz =
     (if sz < 5 then Some (buf, None)
      else do {
        let t = dst;
        c \<leftarrow> load_at src 0;
        (buf, dst) \<leftarrow> sprintf_u buf dst (unat c);
        (buf, dst) \<leftarrow> (if 1 < Suc b then put_char buf dst CHR ''.'' else Some (buf, dst));
        net_octets b (drop 1 src) buf dst (sz - of_nat (dst - t))
      })"

definition net_mask :: "nat \<Rightarrow> u32" where
  "net_mask b = push_bit (8 - b) (push_bit b 1 - 1)"

text \<open>The octet with the last \<open>b\<close> bits of the width.\<close>

definition net_partial ::
  "nat \<Rightarrow> u8 list \<Rightarrow> char list \<Rightarrow> nat \<Rightarrow> u64 \<Rightarrow> (char list \<times> (nat \<times> u64) option) option" where
  "net_partial b src buf dst sz =
     (if 0 < b
      then (if sz < 5 then Some (buf, None)
            else do {
              let t = dst;
              (buf, dst) \<leftarrow> (if dst \<noteq> 0 then do { buf \<leftarrow> store_at buf dst ''.''; Some (buf, dst + 1) } else Some (buf, dst));
              let m = net_mask b;
              c \<leftarrow> load_at src 0;
              (buf, dst) \<leftarrow> sprintf_u buf dst (unat (ucast c AND m));
              Some (buf, Some (dst, sz - of_nat (dst - t)))
            })
      else Some (buf, Some (dst, sz)))"

definition inet_net_ntop_ipv4 :: "u8 list \<Rightarrow> int \<Rightarrow> char list \<Rightarrow> u64 \<Rightarrow> (char list \<times> errno option) option" where
  "inet_net_ntop_ipv4 src bits buf sz =
     (if bits < 0 \<or> 32 < bits then Some (buf, Some EINVAL)
      else if bits = 0 \<and> sz < 2 then Some (buf, Some EMSGSIZE)
      else do {
        (buf, dst, sz) \<leftarrow>
          (if bits = 0 then do { (buf, dst) \<leftarrow> put_char buf 0 CHR ''0''; Some (buf, dst, sz - 1) } else Some (buf, 0, sz));
        (buf, r) \<leftarrow> net_octets (nat (bits div 8)) src buf dst sz;
        case r of
          None \<Rightarrow> Some (buf, Some EMSGSIZE)
        | Some (src, dst, sz) \<Rightarrow>
            do {
              (buf, r) \<leftarrow> net_partial (nat (bits mod 8)) src buf dst sz;
              case r of
                None \<Rightarrow> Some (buf, Some EMSGSIZE)
              | Some (dst, sz) \<Rightarrow>
                  if sz < 4 then Some (buf, Some EMSGSIZE)
                  else do { buf \<leftarrow> store_at buf dst (''/'' @ dec (nat bits) @ [NUL]); Some (buf, None) }
            }
      })"

definition inet_net_ntop :: "int \<Rightarrow> u8 list \<Rightarrow> int \<Rightarrow> char list \<Rightarrow> u64 \<Rightarrow> (char list \<times> errno option) option" where
  "inet_net_ntop af src bits buf sz =
     (if af = AF_INET then inet_net_ntop_ipv4 src bits buf sz else Some (buf, Some EAFNOSUPPORT))"

subsection \<open>inet_net_pton\<close>

definition xdigits :: string where "xdigits = ''0123456789abcdef''"

text \<open>The position \<open>rawmemchr\<close> finds.\<close>

definition xdigit_pos :: "char \<Rightarrow> nat" where
  "xdigit_pos ch = length (takeWhile (\<lambda>c. c \<noteq> ch) xdigits)"

text \<open>
  The character read, the rest of the text behind it, the space left and the bytes stored; \<open>EMSGSIZE\<close> if
  there is no space.
\<close>

fun net_hex :: "string \<Rightarrow> nat \<Rightarrow> int \<Rightarrow> u32 \<Rightarrow> u8 list \<Rightarrow> errno + (char \<times> string \<times> nat \<times> u8 list)" where
  "net_hex [] sz dirty tmp dst =
     (if dirty \<noteq> 0 then (if sz = 0 then Inl EMSGSIZE else Inr (NUL, [], sz - 1, dst @ [ucast (push_bit 4 tmp)]))
      else Inr (NUL, [], sz, dst))"
| "net_hex (ch # src) sz dirty tmp dst =
     (if isxdigit ch
      then (let n = of_nat (xdigit_pos (tolower ch)); tmp = (if dirty = 0 then n else push_bit 4 tmp OR n)
            in if dirty + 1 = 2
               then (if sz = 0 then Inl EMSGSIZE else net_hex src (sz - 1) 0 tmp (dst @ [ucast tmp]))
               else net_hex src sz (dirty + 1) tmp dst)
      else if dirty \<noteq> 0 then (if sz = 0 then Inl EMSGSIZE else Inr (ch, src, sz - 1, dst @ [ucast (push_bit 4 tmp)]))
      else Inr (ch, src, sz, dst))"

text \<open>One decimal octet from its first digit \<open>ch\<close>.\<close>

fun net_octet :: "string \<Rightarrow> char \<Rightarrow> nat \<Rightarrow> (nat \<times> char \<times> string) option" where
  "net_octet [] ch tmp =
     (let tmp = tmp * 10 + xdigit_pos ch in if 255 < tmp then None else Some (tmp, NUL, []))"
| "net_octet (c # src) ch tmp =
     (let tmp = tmp * 10 + xdigit_pos ch
      in if 255 < tmp then None
         else if isascii c \<and> isdigit c then net_octet src c tmp
         else Some (tmp, c, src))"

lemma net_octet_length: "net_octet src ch tmp = Some (t, c, rest) \<Longrightarrow> length rest \<le> length src"
  by (induction src ch tmp rule: net_octet.induct) (auto simp: Let_def split: if_splits)

function net_decimal :: "string \<Rightarrow> char \<Rightarrow> nat \<Rightarrow> u8 list \<Rightarrow> errno + (char \<times> string \<times> nat \<times> u8 list)" where
  "net_decimal src ch sz dst =
     (case net_octet src ch 0 of
        None \<Rightarrow> Inl ENOENT
      | Some (tmp, ch, src) \<Rightarrow>
          if sz = 0 then Inl EMSGSIZE
          else if ch = NUL \<or> ch = CHR ''/'' then Inr (ch, src, sz - 1, dst @ [of_nat tmp])
          else if ch \<noteq> CHR ''.'' then Inl ENOENT
          else (case src of
                  [] \<Rightarrow> Inl ENOENT
                | ch # src \<Rightarrow>
                    if \<not> isascii ch \<or> \<not> isdigit ch then Inl ENOENT
                    else net_decimal src ch (sz - 1) (dst @ [of_nat tmp])))"
  by pat_completeness auto
termination
  by (relation "measure (\<lambda>(src, ch, sz, dst). length src)") (auto dest!: net_octet_length)

text \<open>The width after the slash; an \<open>int\<close>, which can wrap around.\<close>

fun net_width :: "string \<Rightarrow> char \<Rightarrow> c_int \<Rightarrow> c_int \<times> char" where
  "net_width [] ch bits = (bits * 10 + of_nat (xdigit_pos ch), NUL)"
| "net_width (c # src) ch bits =
     (let bits = bits * 10 + of_nat (xdigit_pos ch)
      in if isascii c \<and> isdigit c then net_width src c bits else (bits, c))"

definition net_class_width :: "u8 list \<Rightarrow> int" where
  "net_class_width dst =
     (let b0 = hd dst;
          bits = (if 240 \<le> b0 then 32 else if 224 \<le> b0 then 4 else if 192 \<le> b0 then 24 else if 128 \<le> b0 then 16 else 8)
      in if 8 \<le> bits \<and> bits < int (length dst) * 8 then int (length dst) * 8 else bits)"

function net_extend :: "int \<Rightarrow> nat \<Rightarrow> u8 list \<Rightarrow> u8 list option" where
  "net_extend bits sz dst =
     (if int (length dst) * 8 < bits
      then (if sz = 0 then None else net_extend bits (sz - 1) (dst @ [0]))
      else Some dst)"
  by pat_completeness auto
termination
  by (relation "measure (\<lambda>(bits, sz, dst). sz)") auto

text \<open>The width and the bytes stored.\<close>

definition inet_net_pton_ipv4 :: "string \<Rightarrow> nat \<Rightarrow> errno + (int \<times> u8 list)" where
  "inet_net_pton_ipv4 src sz =
     (let ch = char_at src 0; src = drop 1 src;
          read = (if ch = CHR ''0'' \<and> (char_at src 0 = CHR ''x'' \<or> char_at src 0 = CHR ''X'')
                     \<and> isascii (char_at src 1) \<and> isxdigit (char_at src 1)
                  then (if sz = 0 then Inl EMSGSIZE else net_hex (drop 1 src) sz 0 0 [])
                  else if isascii ch \<and> isdigit ch then net_decimal src ch sz []
                  else Inl ENOENT)
      in case read of
           Inl e \<Rightarrow> Inl e
         | Inr (ch, src, sz, dst) \<Rightarrow>
             (let cidr = ch = CHR ''/'' \<and> isascii (char_at src 0) \<and> isdigit (char_at src 0) \<and> dst \<noteq> [];
                  (bits, ch) = (if cidr then net_width (drop 1 src) (char_at src 0) 0 else (- 1, ch))
              in if cidr \<and> ch \<noteq> NUL then Inl ENOENT
                 else if cidr \<and> 32 < sint bits then Inl EMSGSIZE
                 else if ch \<noteq> NUL then Inl ENOENT
                 else if dst = [] then Inl ENOENT
                 else
                   (let bits = (if sint bits = - 1 then net_class_width dst else sint bits)
                    in case net_extend bits sz dst of
                         None \<Rightarrow> Inl EMSGSIZE
                       | Some dst \<Rightarrow> Inr (bits, dst))))"

definition inet_net_pton :: "int \<Rightarrow> string \<Rightarrow> nat \<Rightarrow> errno + (int \<times> u8 list)" where
  "inet_net_pton af src sz =
     (if af = AF_INET then inet_net_pton_ipv4 src sz else Inl EAFNOSUPPORT)"

end
