(* ===== verification/Inet_Parse.thy ===== *)
theory Inet_Parse
  imports Inet
begin

text \<open>
  The parsers of presentation forms on printed text: dotted quads, hexadecimal groups, the double colon
  and embedded IPv4 addresses.
\<close>

lemma unat_le_u8: "unat (w :: u8) \<le> 255"
  using unsigned_less [of w, where ?'a = nat] by simp

section \<open>Dotted quads\<close>

lemma pton4_digit:
  assumes "d < 10" "10 * unat v + d \<le> 255" "saw \<longrightarrow> v \<noteq> 0" "\<not> saw \<longrightarrow> oc < 4"
  shows "inet_pton4_loop (char_of (48 + d) # rest) saw oc (pre @ v # post) (length pre)
    = inet_pton4_loop rest True (if saw then oc else oc + 1) (pre @ of_nat (10 * unat v + d) # post) (length pre)"
  using assms by (auto simp: Let_def mult.commute)

lemma put_uint8_digits:
  "put_uint8 w = (let n = unat w in
     if n < 10 then [char_of (48 + n)]
     else if n < 100 then [char_of (48 + n div 10), char_of (48 + n mod 10)]
     else [char_of (48 + n div 10 div 10), char_of (48 + n div 10 mod 10), char_of (48 + n mod 10)])"
  by (simp add: put_uint8_def Let_def word_le_nat_alt unat_div unat_mod not_le)

lemma pton4_octet:
  assumes oc: "oc < 4"
  shows "inet_pton4_loop (put_uint8 w @ rest) False oc (pre @ 0 # post) (length pre)
    = inet_pton4_loop rest True (oc + 1) (pre @ w # post) (length pre)"
proof -
  define n where "n = unat w"
  define q d where "q = n div 10" and "d = n mod 10"
  define h e where "h = q div 10" and "e = q mod 10"
  have n: "n \<le> 255" and w: "w = of_nat n" by (simp_all add: n_def unat_le_u8)
  have nq: "10 * q + d = n" "d < 10" and qh: "10 * h + e = q" "e < 10" unfolding d_def q_def h_def e_def by simp_all
  have small: "unat (of_nat k :: u8) = k" if "k \<le> 255" for k
    using that by (simp add: unat_of_nat take_bit_nat_eq_self)
  have nz: "(of_nat k :: u8) \<noteq> 0" if "0 < k" "k \<le> 255" for k
    using small [OF that(2)] that(1) by (metis unsigned_0 less_numeral_extra(3))
  have put: "put_uint8 w = (if n < 10 then [char_of (48 + n)]
     else if n < 100 then [char_of (48 + q), char_of (48 + d)]
     else [char_of (48 + h), char_of (48 + e), char_of (48 + d)])"
    by (simp only: put_uint8_digits Let_def n_def q_def d_def h_def e_def)
  consider "n < 10" | "10 \<le> n" "n < 100" | "100 \<le> n" by linarith
  then show ?thesis
  proof cases
    case 1
    then show ?thesis unfolding put using oc by (simp add: pton4_digit w del: inet_pton4_loop.simps)
  next
    case 2
    then have "0 < q" "q < 10" using nq by linarith+
    then show ?thesis unfolding put using 2 oc n nq nz [of q] small [of q]
      by (simp add: pton4_digit w del: inet_pton4_loop.simps of_nat_add of_nat_mult)
  next
    case 3
    then have "0 < h" "h < 10" "0 < q" "q \<le> 255" using n nq qh by linarith+
    then show ?thesis unfolding put using 3 oc n nq qh nz [of q] small [of q] nz [of h] small [of h]
      by (simp add: pton4_digit w del: inet_pton4_loop.simps of_nat_add of_nat_mult)
  qed
qed

lemma pton4_dot:
  "oc < 4 \<Longrightarrow> inet_pton4_loop (CHR ''.'' # rest) True oc (pre @ v # z # post) (length pre)
    = inet_pton4_loop rest False oc ((pre @ [v]) @ 0 # post) (length (pre @ [v]))"
  using store_at_one [of "pre @ [v]" z post 0] by simp

lemma inet_pton4_quad:
  "inet_pton4 (put_uint8 a @ ''.'' @ put_uint8 b @ ''.'' @ put_uint8 c @ ''.'' @ put_uint8 d) = Some (Some [a, b, c, d])"
proof -
  have d: "inet_pton4_loop (put_uint8 d) False 3 [a, b, c, 0] 3 = Some (Some [a, b, c, d])"
    using pton4_octet [of 3 d "[]" "[a, b, c]" "[]"] by (simp add: numeral_3_eq_3)
  have c: "inet_pton4_loop (put_uint8 c @ ''.'' @ put_uint8 d) False 2 [a, b, 0, 0] 2 = Some (Some [a, b, c, d])"
    using pton4_octet [of 2 c "''.'' @ put_uint8 d" "[a, b]" "[0]"] pton4_dot [of 3 "put_uint8 d" "[a, b]" c 0 "[]"] d
    by (simp add: numeral_2_eq_2 numeral_3_eq_3)
  have b: "inet_pton4_loop (put_uint8 b @ ''.'' @ put_uint8 c @ ''.'' @ put_uint8 d) False 1 [a, 0, 0, 0] 1 = Some (Some [a, b, c, d])"
    using pton4_octet [of 1 b "''.'' @ put_uint8 c @ ''.'' @ put_uint8 d" "[a]" "[0, 0]"]
      pton4_dot [of 2 "put_uint8 c @ ''.'' @ put_uint8 d" "[a]" b 0 "[0]"] c by (simp add: numeral_2_eq_2)
  show ?thesis
    using pton4_octet [of 0 a "''.'' @ put_uint8 b @ ''.'' @ put_uint8 c @ ''.'' @ put_uint8 d" "[]" "[0, 0, 0]"]
      pton4_dot [of 1 "put_uint8 b @ ''.'' @ put_uint8 c @ ''.'' @ put_uint8 d" "[]" a 0 "[0, 0]"] b
    by (simp add: inet_pton4_def NS_INADDRSZ_def numeral_eq_Suc)
qed

section \<open>Hexadecimal groups\<close>

text \<open>The state of the IPv6 parser after the bytes \<open>gs\<close> are stored.\<close>

definition p6 :: "u8 list \<Rightarrow> nat option \<Rightarrow> nat \<Rightarrow> nat \<Rightarrow> pton6_state" where
  "p6 gs c x v = \<lparr>p6_tmp = gs @ replicate (16 - length gs) 0, p6_tp = length gs, p6_colonp = c,
                   p6_xdigits_seen = x, p6_val = of_nat v\<rparr>"

lemma store_at_fill:
  "length gs + length bs \<le> 16 \<Longrightarrow>
   store_at (gs @ replicate (16 - length gs) 0) (length gs) bs = Some ((gs @ bs) @ replicate (16 - length (gs @ bs)) (0 :: u8))"
  by (simp add: store_at_def)

lemma shift_in_digit:
  assumes "k < 16"
  shows "push_bit 4 (of_nat m) OR of_nat k = (of_nat (16 * m + k) :: u32)"
proof -
  have "take_bit 4 k = k" using assms by (simp add: take_bit_nat_eq_self)
  then have k: "take_bit 4 (of_nat k :: u32) = of_nat k" by (simp only: take_bit_of_nat)
  have "push_bit 4 (of_nat m) AND (of_nat k :: u32) = 0"
    by (subst k [symmetric], rule bit_word_eqI) (auto simp: bit_simps)
  then show ?thesis by (simp add: disjunctive_add_eq_or [symmetric] push_bit_eq_mult mult.commute)
qed

lemma hex_digit_value_lower:
  assumes "k < 16"
  shows "hex_digit_value (itoa_lower_digits ! k) = Some k"
proof -
  have "k \<in> set [0..<16]" using assms by simp
  then show ?thesis by (auto simp: upt_rec hex_digit_value_def itoa_lower_digits_def)
qed

lemma hex_digit_value_decimal: "d < 10 \<Longrightarrow> hex_digit_value (char_of (48 + d)) = Some d"
  by (simp add: hex_digit_value_def)

lemma pton6_digit:
  assumes "hex_digit_value ch = Some k" "k < 16" "x < 4" "16 * m + k < 65536"
  shows "inet_pton6_loop (ch # rest) cur (p6 gs c x m) = inet_pton6_loop rest cur (p6 gs c (x + 1) (16 * m + k))"
proof -
  have "\<not> (0xffff :: u32) < of_nat (16 * m + k)"
    using assms(4) by (simp only: word_less_nat_alt unat_of_nat) (simp add: take_bit_nat_eq_self)
  then show ?thesis
    using assms by (simp add: Let_def p6_def shift_in_digit del: of_nat_add of_nat_mult)
qed

lemma unat_digit: "unat (drop_bit k (w :: u16) AND 0xf) = unat w div 2 ^ k mod 16"
proof -
  have m: "(0xf :: u16) = mask 4" by (simp add: mask_eq_exp_minus_1)
  show ?thesis
    using unsigned_less [of w, where ?'a = nat]
    unfolding m take_bit_eq_mask [symmetric] unsigned_take_bit_eq unsigned_drop_bit_eq
    by (simp add: take_bit_eq_mod drop_bit_eq_div)
qed

lemma put_uint16_digits:
  "put_uint16 w = (let n = unat w; D = (\<lambda>k. itoa_lower_digits ! k) in
     (if 4096 \<le> n then [D (n div 4096 mod 16)] else []) @ (if 256 \<le> n then [D (n div 256 mod 16)] else [])
      @ (if 16 \<le> n then [D (n div 16 mod 16)] else []) @ [D (n mod 16)])"
  unfolding put_uint16_def Let_def unat_digit by (simp add: word_le_nat_alt)

lemma pton6_hex:
  obtains x where "0 < x"
    "\<And>rest. inet_pton6_loop (put_uint16 w @ rest) cur (p6 gs c 0 0) = inet_pton6_loop rest cur (p6 gs c x (unat w))"
proof -
  define n where "n = unat w"
  define q3 q2 q1 where "q3 = n div 16" and "q2 = q3 div 16" and "q1 = q2 div 16"
  have n: "n < 65536" unfolding n_def using unsigned_less [of w, where ?'a = nat] by simp
  define d3 d2 d1 where "d3 = n mod 16" and "d2 = q3 mod 16" and "d1 = q2 mod 16"
  have e: "16 * q3 + d3 = n" "16 * q2 + d2 = q3" "16 * q1 + d1 = q2" "d3 < 16" "d2 < 16" "d1 < 16" "q1 < 16"
    using n unfolding d3_def d2_def d1_def q1_def q2_def q3_def by simp_all
  have put: "put_uint16 w = (if 4096 \<le> n then [itoa_lower_digits ! q1] else []) @ (if 256 \<le> n then [itoa_lower_digits ! d1] else [])
      @ (if 16 \<le> n then [itoa_lower_digits ! d2] else []) @ [itoa_lower_digits ! d3]"
    using n unfolding put_uint16_digits Let_def n_def [symmetric] d3_def d2_def d1_def q1_def q2_def q3_def
    by (simp add: div_mult2_eq [symmetric])
  note [simp] = pton6_digit hex_digit_value_lower and [simp del] = inet_pton6_loop.simps
  consider "n < 16" | "16 \<le> n" "n < 256" | "256 \<le> n" "n < 4096" | "4096 \<le> n" by linarith
  then show thesis
  proof cases
    case 1
    then have "d3 = n" by (simp add: d3_def)
    then show ?thesis using that [of 1] e(4-) n 1 unfolding put n_def [symmetric] by simp
  next
    case 2
    then have "q3 < 16" using e by linarith
    then have "d2 = q3" by (simp add: d2_def)
    then show ?thesis using that [of "Suc (Suc 0)"] e(1,4-) n 2 unfolding put n_def [symmetric] by simp
  next
    case 3
    then have "q2 < 16" using e by linarith
    then have "d1 = q2" by (simp add: d1_def)
    then show ?thesis using that [of "Suc (Suc (Suc 0))"] e(1,2,4-) n 3 unfolding put n_def [symmetric] by simp
  next
    case 4
    then show ?thesis using that [of "Suc (Suc (Suc (Suc 0)))"] e n 4 unfolding put n_def [symmetric] by simp
  qed
qed

definition group_bytes :: "u16 \<Rightarrow> u8 list" where
  "group_bytes w = [ucast (drop_bit 8 w), ucast w]"

lemma put_val_p6:
  assumes "length gs + 2 \<le> 16"
  shows "put_val (p6 gs c x (unat w)) = Some (p6 (gs @ group_bytes w) c x (unat w))"
proof -
  have m: "(0xff :: u8) = mask 8" by (simp add: mask_eq_exp_minus_1)
  have lo: "ucast (ucast w :: u32) AND 0xff = (ucast w :: u8)"
    unfolding m by (rule bit_word_eqI) (auto simp: bit_simps)
  have hi: "ucast (drop_bit 8 (ucast w :: u32)) AND 0xff = (ucast (drop_bit 8 w) :: u8)"
    unfolding m by (rule bit_word_eqI) (auto simp: bit_simps)
  show ?thesis using assms store_at_fill [of gs "group_bytes w"]
    by (simp add: put_val_def p6_def lo hi group_bytes_def)
qed

lemma length_group_bytes [simp]: "length (group_bytes w) = 2"
  by (simp add: group_bytes_def)

subsection \<open>Sequences of groups\<close>

fun colon_join :: "u16 list \<Rightarrow> string" where
  "colon_join [] = []"
| "colon_join [w] = put_uint16 w"
| "colon_join (w # v # ws) = put_uint16 w @ '':'' @ colon_join (v # ws)"

abbreviation groups_bytes :: "u16 list \<Rightarrow> u8 list" where
  "groups_bytes ws \<equiv> concat (map group_bytes ws)"

lemma length_groups_bytes [simp]: "length (groups_bytes ws) = 2 * length ws"
  by (induction ws) simp_all

lemma hex_colon: "hex_digit_value CHR '':'' = None" and hex_dot: "hex_digit_value CHR ''.'' = None"
  by (simp_all add: hex_digit_value_def)

lemma pton6_group_colon:
  assumes "length gs + 2 \<le> 16" "rest \<noteq> []"
  shows "inet_pton6_loop (put_uint16 w @ '':'' @ rest) cur (p6 gs c 0 0) = inet_pton6_loop rest rest (p6 (gs @ group_bytes w) c 0 0)"
proof -
  obtain x where x: "0 < x" "\<And>rest. inet_pton6_loop (put_uint16 w @ rest) cur (p6 gs c 0 0)
      = inet_pton6_loop rest cur (p6 gs c x (unat w))" using pton6_hex by blast
  have "(p6 (gs @ group_bytes w) c x (unat w))\<lparr>p6_xdigits_seen := 0, p6_val := 0\<rparr> = p6 (gs @ group_bytes w) c 0 0"
    by (simp add: p6_def)
  moreover have "put_val (p6 gs c x (unat w)) = Some (p6 (gs @ group_bytes w) c x (unat w))" using assms by (intro put_val_p6)
  moreover have "p6_xdigits_seen (p6 gs c x (unat w)) = x" "p6_tp (p6 gs c x (unat w)) = length gs" by (simp_all add: p6_def)
  ultimately show ?thesis
    using assms x by (simp add: hex_colon NS_IN6ADDRSZ_def NS_INT16SZ_def)
qed

lemma pton6_groups_colon:
  "ws \<noteq> [] \<Longrightarrow> length gs + 2 * length ws \<le> 16 \<Longrightarrow> rest \<noteq> [] \<Longrightarrow>
   inet_pton6_loop (colon_join ws @ '':'' @ rest) cur (p6 gs c 0 0) = inet_pton6_loop rest rest (p6 (gs @ groups_bytes ws) c 0 0)"
proof (induction ws arbitrary: gs cur rule: colon_join.induct)
  case (2 w)
  then show ?case using pton6_group_colon [of gs rest w cur c] by simp
next
  case (3 w v ws)
  have "colon_join (v # ws) @ '':'' @ rest \<noteq> []" by simp
  then show ?case
    using 3 pton6_group_colon [of gs "colon_join (v # ws) @ '':'' @ rest" w cur c] by (simp del: append_Cons)
qed simp

lemma finish_p6_digits:
  assumes "0 < x" "length gs + 2 \<le> 16"
  shows "inet_pton6_finish (p6 gs c x (unat w)) = inet_pton6_finish (p6 (gs @ group_bytes w) c 0 0)"
proof -
  have f: "p6_xdigits_seen (p6 gs c x (unat w)) = x" "p6_tp (p6 gs c x (unat w)) = length gs" by (simp_all add: p6_def)
  show ?thesis
    using assms unfolding inet_pton6_finish_def f put_val_p6 [OF assms(2)]
    by (cases c) (simp_all add: p6_def NS_IN6ADDRSZ_def NS_INT16SZ_def Let_def)
qed

lemma pton6_groups_end:
  "ws \<noteq> [] \<Longrightarrow> length gs + 2 * length ws \<le> 16 \<Longrightarrow>
   Option.bind (inet_pton6_loop (colon_join ws) cur (p6 gs c 0 0)) inet_pton6_rest = inet_pton6_finish (p6 (gs @ groups_bytes ws) c 0 0)"
proof (induction ws arbitrary: gs cur rule: colon_join.induct)
  case (2 w)
  obtain x where "0 < x" "\<And>rest. inet_pton6_loop (put_uint16 w @ rest) cur (p6 gs c 0 0)
      = inet_pton6_loop rest cur (p6 gs c x (unat w))" using pton6_hex by blast
  from this(1) this(2) [of "[]"] show ?case using 2 finish_p6_digits [of x gs c w] by (simp add: inet_pton6_rest_def)
next
  case (3 w v ws)
  have "colon_join (v # ws) \<noteq> []" by (cases ws) (auto simp: put_uint16_def Let_def)
  then show ?case
    using 3 pton6_group_colon [of gs "colon_join (v # ws)" w cur c] by (simp del: append_Cons)
qed simp

lemma finish_none: "length gs = 16 \<Longrightarrow> inet_pton6_finish (p6 gs None 0 0) = Some (Some gs)"
  by (simp add: inet_pton6_finish_def p6_def NS_IN6ADDRSZ_def)

lemma finish_colon:
  assumes "length (as @ bs) < 16"
  shows "inet_pton6_finish (p6 (as @ bs) (Some (length as)) 0 v) = Some (Some (as @ replicate (16 - length (as @ bs)) 0 @ bs))"
proof -
  let ?z = "replicate (16 - length (as @ bs)) (0 :: u8)"
  let ?t = "take (16 - length bs) ((as @ bs) @ ?z)"
  have r: "read_at ((as @ bs) @ ?z) (length as) (length bs) = Some bs" using assms by (simp add: read_at_def)
  have s: "store_at ((as @ bs) @ ?z) (16 - length bs) bs = Some (?t @ bs)" using assms by (simp add: store_at_Some)
  have "store_at (?t @ bs) (length as) (replicate (16 - length bs - length as) 0) = Some (as @ ?z @ bs)"
    using assms by (simp add: store_at_Some diff_diff_add add.commute)
  then show ?thesis
    using assms r s by (simp add: inet_pton6_finish_def p6_def NS_IN6ADDRSZ_def Let_def)
qed

lemma pton6_double_colon:
  "inet_pton6_loop (CHR '':'' # rest) cur (p6 gs None 0 0) = inet_pton6_loop rest rest (p6 gs (Some (length gs)) 0 0)"
  by (simp add: hex_colon p6_def)

lemma pton6_octet:
  obtains x v where "\<And>rest. inet_pton6_loop (put_uint8 w @ rest) cur (p6 gs c 0 0) = inet_pton6_loop rest cur (p6 gs c x v)"
proof -
  define n where "n = unat w"
  define q d where "q = n div 10" and "d = n mod 10"
  define h e where "h = q div 10" and "e = q mod 10"
  have n: "n \<le> 255" by (simp add: n_def unat_le_u8)
  have b: "d < 10" "e < 10" "h < 10" using n unfolding d_def q_def h_def e_def by simp_all
  have put: "put_uint8 w = (if n < 10 then [char_of (48 + n)]
     else if n < 100 then [char_of (48 + q), char_of (48 + d)]
     else [char_of (48 + h), char_of (48 + e), char_of (48 + d)])"
    by (simp only: put_uint8_digits Let_def n_def q_def d_def h_def e_def)
  note [simp] = pton6_digit hex_digit_value_decimal and [simp del] = inet_pton6_loop.simps
  consider "n < 10" | "10 \<le> n" "n < 100" | "100 \<le> n" by linarith
  then show thesis
  proof cases
    case 1
    then show ?thesis using that [of 1 n] unfolding put by simp
  next
    case 2
    then have "q < 10" by (simp add: q_def)
    then show ?thesis using that [of "Suc (Suc 0)" "16 * q + d"] b 2 unfolding put by simp
  next
    case 3
    then show ?thesis using that [of "Suc (Suc (Suc 0))" "16 * (16 * h + e) + d"] b unfolding put by simp
  qed
qed

lemma pton6_quad:
  assumes "length gs + 4 \<le> 16"
  shows "\<exists>v. inet_pton6_loop (put_uint8 a @ ''.'' @ put_uint8 b @ ''.'' @ put_uint8 c @ ''.'' @ put_uint8 d)
     (put_uint8 a @ ''.'' @ put_uint8 b @ ''.'' @ put_uint8 c @ ''.'' @ put_uint8 d) (p6 gs cp 0 0)
     = Some (Some (p6 (gs @ [a, b, c, d]) cp 0 v))"
proof -
  let ?quad = "put_uint8 a @ ''.'' @ put_uint8 b @ ''.'' @ put_uint8 c @ ''.'' @ put_uint8 d"
  obtain x v where "\<And>rest. inet_pton6_loop (put_uint8 a @ rest) ?quad (p6 gs cp 0 0) = inet_pton6_loop rest ?quad (p6 gs cp x v)"
    using pton6_octet by blast
  note 1 = this [of "''.'' @ put_uint8 b @ ''.'' @ put_uint8 c @ ''.'' @ put_uint8 d"]
  have "inet_pton6_loop (CHR ''.'' # rest) ?quad (p6 gs cp x v) = Some (Some (p6 (gs @ [a, b, c, d]) cp 0 v))" for rest
    using assms store_at_fill [of gs "[a, b, c, d]"] inet_pton4_quad [of a b c d]
    by (simp add: hex_dot p6_def NS_IN6ADDRSZ_def NS_INADDRSZ_def)
  with 1 show ?thesis by auto
qed

end
