(* ===== verification/Inet_Print.thy ===== *)
theory Inet_Print
  imports Inet_Parse
begin

text \<open>
  What \<open>inet_ntop6\<close> prints, by the run of zero groups it shortens, and that the parser reads it back.
\<close>

section \<open>Printing\<close>

subsection \<open>The run of zero groups\<close>

definition zero_run :: "u8 list \<Rightarrow> nat \<Rightarrow> nat \<Rightarrow> bool" where
  "zero_run src k l \<longleftrightarrow> (\<forall>j. k \<le> j \<and> j < k + l \<longrightarrow> in6_addr_addr16 src j = 0)"

definition run_ok :: "u8 list \<Rightarrow> nat \<Rightarrow> best_t \<Rightarrow> bool" where
  "run_ok src n b \<longleftrightarrow> run_base b = - 1 \<or> (\<exists>k l. run_base b = int k \<and> run_len b = int l \<and> k + l \<le> n \<and> zero_run src k l)"

definition cur_ok :: "u8 list \<Rightarrow> nat \<Rightarrow> best_t \<Rightarrow> bool" where
  "cur_ok src n b \<longleftrightarrow> run_base b = - 1 \<or> (\<exists>k l. run_base b = int k \<and> run_len b = int l \<and> k + l = n \<and> zero_run src k l)"

lemma cur_okI: "run_base b = int k \<Longrightarrow> run_len b = int l \<Longrightarrow> k + l = n \<Longrightarrow> zero_run src k l \<Longrightarrow> cur_ok src n b"
  by (auto simp: cur_ok_def)

lemma run_ok_Suc: "run_ok src n b \<Longrightarrow> run_ok src (Suc n) b"
  by (force simp: run_ok_def)

lemma cur_ok_run_ok: "cur_ok src n b \<Longrightarrow> run_ok src n b"
  by (auto simp: run_ok_def cur_ok_def)

lemma best_run_step_ok:
  assumes "run_ok src n best" "cur_ok src n cur" "best_run_step src n (best, cur) = (best', cur')"
  shows "run_ok src (Suc n) best' \<and> cur_ok src (Suc n) cur'"
proof (cases "in6_addr_addr16 src n = 0")
  case True
  have "cur_ok src (Suc n) cur'"
  proof (cases "run_base cur = - 1")
    case neg: True
    then have "cur' = cur\<lparr>run_base := int n, run_len := 1\<rparr>" using True assms(3) by (auto simp: best_run_step_def)
    then show ?thesis using True by (intro cur_okI [of _ n 1]) (auto simp: zero_run_def le_less_Suc_eq)
  next
    case False
    then obtain k l where kl: "run_base cur = int k" "run_len cur = int l" "k + l = n" "zero_run src k l"
      using assms(2) by (auto simp: cur_ok_def)
    have "cur' = cur\<lparr>run_len := run_len cur + 1\<rparr>" using True False assms(3) by (auto simp: best_run_step_def)
    moreover have "zero_run src k (Suc l)" using kl(3,4) True unfolding zero_run_def by (metis add_Suc_right less_Suc_eq)
    ultimately show ?thesis using kl by (intro cur_okI [of _ k "Suc l"]) auto
  qed
  moreover have "best' = best" using True assms(3) by (auto simp: best_run_step_def split: if_splits)
  ultimately show ?thesis using run_ok_Suc [OF assms(1)] by simp
next
  case False
  then have "best' = best \<or> best' = cur" "run_base cur' = - 1"
    using assms(3) by (auto simp: best_run_step_def split: if_splits)
  then show ?thesis
    using run_ok_Suc [OF assms(1)] run_ok_Suc [OF cur_ok_run_ok [OF assms(2)]] by (auto simp: cur_ok_def)
qed

lemma best_run_fold_ok:
  assumes "fold (best_run_step src) [0..<n] (\<lparr>run_base = - 1, run_len = 0\<rparr>, \<lparr>run_base = - 1, run_len = 0\<rparr>) = (best, cur)"
  shows "run_ok src n best \<and> cur_ok src n cur"
  using assms
proof (induction n arbitrary: best cur)
  case 0
  then show ?case by (auto simp: run_ok_def cur_ok_def)
next
  case (Suc n)
  obtain b c where bc: "fold (best_run_step src) [0..<n] (\<lparr>run_base = - 1, run_len = 0\<rparr>, \<lparr>run_base = - 1, run_len = 0\<rparr>) = (b, c)" by fastforce
  then show ?case using Suc best_run_step_ok [of src n b c] by simp
qed

lemma best_run_cases:
  obtains "run_base (best_run src) = - 1"
    | k l where "run_base (best_run src) = int k" "run_len (best_run src) = int l" "2 \<le> l" "k + l \<le> 8" "zero_run src k l"
proof -
  obtain best cur where bc: "fold (best_run_step src) [0..<8] (\<lparr>run_base = - 1, run_len = 0\<rparr>, \<lparr>run_base = - 1, run_len = 0\<rparr>) = (best, cur)" by fastforce
  define b where "b = (if run_base cur \<noteq> - 1 then (if run_base best = - 1 \<or> run_len best < run_len cur then cur else best) else best)"
  have "run_ok src 8 b" using best_run_fold_ok [OF bc] cur_ok_run_ok by (auto simp: b_def)
  moreover have "best_run src = (if run_base b \<noteq> - 1 \<and> run_len b < 2 then b\<lparr>run_base := - 1\<rparr> else b)"
    unfolding best_run_def NS_IN6ADDRSZ_def NS_INT16SZ_def b_def using bc by simp
  ultimately show thesis using that by (fastforce simp: run_ok_def split: if_splits)
qed

subsection \<open>The text\<close>

definition in_run :: "best_t \<Rightarrow> nat \<Rightarrow> bool" where
  "in_run best i \<longleftrightarrow> run_base best \<noteq> - 1 \<and> run_base best \<le> int i \<and> int i < run_base best + run_len best"

definition embeds4 :: "u8 list \<Rightarrow> best_t \<Rightarrow> nat \<Rightarrow> bool" where
  "embeds4 src best i \<longleftrightarrow> i = 6 \<and> run_base best = 0 \<and> (run_len best = 6 \<or> (run_len best = 5 \<and> in6_addr_addr16 src 5 = 0xffff))"

definition sep_group :: "u8 list \<Rightarrow> nat \<Rightarrow> string" where
  "sep_group src i = (if i \<noteq> 0 then '':'' else []) @ put_uint16 (in6_addr_addr16 src i)"

lemma groups_Cons:
  "inet_ntop6_groups src best (i # is) tp =
     (if in_run best i then inet_ntop6_groups src best is (if int i = run_base best then tp @ '':'' else tp)
      else if embeds4 src best i
      then (case inet_ntop4 (drop 12 src) (INET6_ADDRSTRLEN - length (tp @ '':'')) of
              Inl e \<Rightarrow> None | Inr s \<Rightarrow> Some (tp @ '':'' @ take (strlen s) s))
      else inet_ntop6_groups src best is (tp @ sep_group src i))"
  by (auto simp: in_run_def embeds4_def sep_group_def Let_def split: sum.split)

declare inet_ntop6_groups.simps(2) [simp del] groups_Cons [simp]

lemma groups_plain:
  "\<forall>i\<in>set is. \<not> in_run best i \<and> \<not> embeds4 src best i \<Longrightarrow>
   inet_ntop6_groups src best (is @ js) tp = inet_ntop6_groups src best js (tp @ concat (map (sep_group src) is))"
proof (induction "is" arbitrary: tp)
  case (Cons i "is")
  then show ?case by simp
qed simp

lemma groups_in_run:
  "\<forall>i\<in>set is. in_run best i \<and> int i \<noteq> run_base best \<Longrightarrow> inet_ntop6_groups src best (is @ js) tp = inet_ntop6_groups src best js tp"
  by (induction "is" arbitrary: tp) simp_all

lemma groups_run:
  assumes "run_base best = int k" "run_len best = int l" "0 < l"
  shows "inet_ntop6_groups src best ([k..<k + l] @ js) tp = inet_ntop6_groups src best js (tp @ '':'')"
proof -
  have "[k..<k + l] = k # [Suc k..<k + l]" using assms(3) by (simp add: upt_conv_Cons)
  moreover have "inet_ntop6_groups src best (k # [Suc k..<k + l] @ js) tp = inet_ntop6_groups src best ([Suc k..<k + l] @ js) (tp @ '':'')"
    using assms by (simp add: in_run_def)
  moreover have "\<dots> = inet_ntop6_groups src best js (tp @ '':'')"
    by (rule groups_in_run) (use assms in \<open>auto simp: in_run_def\<close>)
  ultimately show ?thesis by simp
qed

lemma sep_groups_join:
  assumes "0 < i"
  shows "concat (map (sep_group src) [i..<i + Suc n]) = '':'' @ colon_join (map (in6_addr_addr16 src) [i..<i + Suc n])"
  using assms
proof (induction n arbitrary: i)
  case 0
  then show ?case by (simp add: sep_group_def)
next
  case (Suc n)
  have l: "[i..<i + Suc (Suc n)] = i # Suc i # [Suc (Suc i)..<i + Suc (Suc n)]" "[Suc i..<Suc i + Suc n] = Suc i # [Suc (Suc i)..<i + Suc (Suc n)]"
    by (simp_all add: upt_conv_Cons)
  show ?case using Suc.IH [of "Suc i"] Suc.prems unfolding l by (simp add: sep_group_def [of _ i])
qed

lemma sep_groups_join0:
  "concat (map (sep_group src) [0..<n]) = colon_join (map (in6_addr_addr16 src) [0..<n])"
proof (cases n)
  case (Suc m)
  show ?thesis
  proof (cases m)
    case m: (Suc p)
    have l: "[0..<n] = 0 # 1 # [2..<n]" "[1..<1 + Suc p] = 1 # [2..<n]"
      using Suc m by (simp_all add: upt_conv_Cons numeral_2_eq_2)
    show ?thesis using sep_groups_join [of 1 src p] unfolding l by (simp add: sep_group_def [of _ 0])
  qed (simp add: Suc sep_group_def)
qed simp

subsection \<open>Parsing what was printed\<close>

lemma put_uint16_first: "\<exists>k rest. k < 16 \<and> put_uint16 w = itoa_lower_digits ! k # rest"
proof -
  have "unat (drop_bit k w AND 0xf) < 16" for k by (simp add: unat_digit)
  moreover from this [of 0] have "unat (w AND 0xf) < 16" by simp
  ultimately show ?thesis unfolding put_uint16_def Let_def by auto
qed

lemma colon_join_first: "\<exists>c cs. colon_join (w # ws) = c # cs \<and> c \<noteq> CHR '':''"
proof -
  obtain k cs where k: "k < 16" "put_uint16 w = itoa_lower_digits ! k # cs" using put_uint16_first by blast
  then have "itoa_lower_digits ! k \<noteq> CHR '':''" using hex_digit_value_lower hex_colon by fastforce
  with k show ?thesis by (cases ws) auto
qed

lemma pton6_prefix:
  assumes "2 * length ws \<le> 16"
  shows "inet_pton6 (colon_join ws @ ''::'' @ rest)
    = Option.bind (inet_pton6_loop rest rest (p6 (groups_bytes ws) (Some (2 * length ws)) 0 0)) inet_pton6_rest"
proof -
  let ?run = "\<lambda>src. Option.bind (inet_pton6_loop src src (p6 [] None 0 0)) inet_pton6_rest"
  have init: "\<lparr>p6_tmp = replicate NS_IN6ADDRSZ 0, p6_tp = 0, p6_colonp = None, p6_xdigits_seen = 0, p6_val = 0\<rparr> = p6 [] None 0 0"
    by (simp add: p6_def NS_IN6ADDRSZ_def)
  show ?thesis
  proof (cases ws)
    case Nil
    then show ?thesis
      unfolding inet_pton6_def init by (simp add: pton6_double_colon del: inet_pton6_loop.simps)
  next
    case (Cons w ws')
    obtain c cs where c: "colon_join ws = c # cs" "c \<noteq> CHR '':''"
      using colon_join_first [of w ws'] Cons by blast
    have "inet_pton6 (colon_join ws @ ''::'' @ rest) = ?run (colon_join ws @ '':'' @ '':'' @ rest)"
      unfolding inet_pton6_def init using c by simp
    then show ?thesis
      using pton6_groups_colon [of ws "[]" "'':'' @ rest" _ None] Cons assms
      by (simp add: pton6_double_colon del: inet_pton6_loop.simps)
  qed
qed


lemma pton6_all:
  assumes "length ws = 8"
  shows "inet_pton6 (colon_join ws) = Some (Some (groups_bytes ws))"
proof -
  obtain w ws' where ws: "ws = w # ws'" using assms by (cases ws) auto
  obtain c cs where c: "colon_join ws = c # cs" "c \<noteq> CHR '':''" using colon_join_first [of w ws'] ws by blast
  have init: "\<lparr>p6_tmp = replicate NS_IN6ADDRSZ 0, p6_tp = 0, p6_colonp = None, p6_xdigits_seen = 0, p6_val = 0\<rparr> = p6 [] None 0 0"
    by (simp add: p6_def NS_IN6ADDRSZ_def)
  have "inet_pton6 (colon_join ws) = Option.bind (inet_pton6_loop (colon_join ws) (colon_join ws) (p6 [] None 0 0)) inet_pton6_rest"
    unfolding inet_pton6_def init using c by simp
  also have "\<dots> = Some (Some (groups_bytes ws))"
    using pton6_groups_end [of ws "[]" _ None] assms ws finish_none [of "groups_bytes ws"] by auto
  finally show ?thesis .
qed

lemma pton6_run:
  assumes "length ws + length vs < 8"
  shows "inet_pton6 (colon_join ws @ ''::'' @ colon_join vs)
    = Some (Some (groups_bytes ws @ replicate (16 - 2 * (length ws + length vs)) 0 @ groups_bytes vs))"
proof -
  have "Option.bind (inet_pton6_loop (colon_join vs) (colon_join vs) (p6 (groups_bytes ws) (Some (2 * length ws)) 0 0)) inet_pton6_rest
    = inet_pton6_finish (p6 (groups_bytes ws @ groups_bytes vs) (Some (2 * length ws)) 0 0)"
    using pton6_groups_end [of vs "groups_bytes ws" "colon_join vs" "Some (2 * length ws)"] assms
    by (cases vs) (simp_all add: inet_pton6_rest_def)
  then show ?thesis
    using pton6_prefix [of ws "colon_join vs"] finish_colon [of "groups_bytes ws" "groups_bytes vs" 0] assms by simp
qed

definition quad :: "u8 list \<Rightarrow> string" where
  "quad bs = put_uint8 (bs ! 0) @ ''.'' @ put_uint8 (bs ! 1) @ ''.'' @ put_uint8 (bs ! 2) @ ''.'' @ put_uint8 (bs ! 3)"

lemma quad_first: "quad bs \<noteq> []"
  by (simp add: quad_def)

lemma pton6_embedded:
  assumes "length bs = 4" "length vs \<le> 1"
  shows "inet_pton6 (''::'' @ concat (map (\<lambda>v. put_uint16 v @ '':'') vs) @ quad bs)
    = Some (Some (replicate (12 - 2 * length vs) 0 @ groups_bytes vs @ bs))"
proof -
  have bs: "[bs ! 0, bs ! 1, bs ! 2, bs ! 3] = bs" using assms(1) by (auto simp: numeral_eq_Suc length_Suc_conv)
  obtain v where v: "inet_pton6_loop (quad bs) (quad bs) (p6 (groups_bytes vs) (Some 0) 0 0)
      = Some (Some (p6 (groups_bytes vs @ bs) (Some 0) 0 v))"
    using pton6_quad [of "groups_bytes vs" "bs ! 0" "bs ! 1" "bs ! 2" "bs ! 3" "Some 0"] assms bs unfolding quad_def by auto
  let ?t = "concat (map (\<lambda>v. put_uint16 v @ '':'') vs) @ quad bs"
  have "inet_pton6_loop ?t ?t (p6 [] (Some 0) 0 0) = Some (Some (p6 (groups_bytes vs @ bs) (Some 0) 0 v))"
  proof (cases vs)
    case Nil
    then show ?thesis using v by simp
  next
    case (Cons w ws)
    then have "vs = [w]" using assms by simp
    then show ?thesis using v pton6_group_colon [of "[]" "quad bs" w ?t "Some 0"] quad_first by simp
  qed
  then show ?thesis
    using pton6_prefix [of "[]" ?t] finish_colon [of "[]" "groups_bytes vs @ bs" v] assms by (simp add: inet_pton6_rest_def)
qed

subsection \<open>The groups of an address\<close>

lemma group_bytes_addr16: "2 * i + 1 < length src \<Longrightarrow> group_bytes (in6_addr_addr16 src i) = [src ! (2 * i), src ! (2 * i + 1)]"
  unfolding group_bytes_def in6_addr_addr16_def by (auto intro!: bit_word_eqI simp: bit_simps)

lemma groups_bytes_addr16:
  assumes "2 * (i + n) \<le> length src"
  shows "groups_bytes (map (in6_addr_addr16 src) [i..<i + n]) = take (2 * n) (drop (2 * i) src)"
  using assms
proof (induction n)
  case (Suc n)
  have "take (2 * Suc n) (drop (2 * i) src) = take (2 * n) (drop (2 * i) src) @ [src ! (2 * (i + n)), src ! (2 * (i + n) + 1)]"
    using Suc.prems by (simp add: take_Suc_conv_app_nth algebra_simps)
  then show ?case using Suc by (simp add: group_bytes_addr16)
qed simp

lemma groups_bytes_zero:
  assumes "zero_run src k l"
  shows "groups_bytes (map (in6_addr_addr16 src) [k..<k + l]) = replicate (2 * l) 0"
  using assms
proof (induction l)
  case (Suc l)
  then have "zero_run src k l" "in6_addr_addr16 src (k + l) = 0" by (auto simp: zero_run_def)
  moreover have "replicate (2 * Suc l) (0 :: u8) = replicate (2 * l) 0 @ replicate (Suc (Suc 0)) 0"
    unfolding replicate_add [symmetric] by simp
  ultimately show ?case using Suc.IH by (simp add: group_bytes_def del: replicate_Suc mult_Suc_right) simp
qed simp

lemma upt_split3: "k + l \<le> n \<Longrightarrow> [0..<n] = [0..<k] @ [k..<k + l] @ [k + l..<n]"
  using upt_add_eq_append [of 0 k l] upt_add_eq_append [of 0 "k + l" "n - (k + l)"] by simp

lemma address_split:
  assumes "length src = 16" "k + l \<le> 8" "zero_run src k l"
  shows "src = groups_bytes (map (in6_addr_addr16 src) [0..<k]) @ replicate (2 * l) 0 @ groups_bytes (map (in6_addr_addr16 src) [k + l..<8])"
proof -
  have "[0..<8] = [0..<k] @ [k..<k + l] @ [k + l..<8]"
    by (rule upt_split3 [OF assms(2)])
  moreover have "groups_bytes (map (in6_addr_addr16 src) [0..<8]) = src"
    using groups_bytes_addr16 [of 0 8 src] assms(1) by simp
  ultimately show ?thesis using groups_bytes_zero [OF assms(3)] by (metis concat_append map_append)
qed


section \<open>The printed text\<close>

lemma put_uint8_chars: "set (put_uint8 w) \<subseteq> {c. ord c \<noteq> (0 :: nat)}" "length (put_uint8 w) \<le> 3" "0 < length (put_uint8 w)"
proof -
  have "unat w div 10 div 10 < 10" using unat_le_u8 [of w] by linarith
  then show "set (put_uint8 w) \<subseteq> {c. ord c \<noteq> (0 :: nat)}" by (auto simp: put_uint8_digits Let_def)
  show "length (put_uint8 w) \<le> 3" "0 < length (put_uint8 w)" by (auto simp: put_uint8_def Let_def)
qed

lemma put_uint16_chars: "NUL \<notin> set (put_uint16 w)" "length (put_uint16 w) \<le> 4"
proof -
  have d: "itoa_lower_digits ! k \<noteq> NUL" if "k < 16" for k
    using hex_digit_value_lower [OF that] by (auto simp: hex_digit_value_def NUL_def)
  then show "NUL \<notin> set (put_uint16 w)" by (auto simp: put_uint16_digits Let_def d [symmetric])
  show "length (put_uint16 w) \<le> 4" by (auto simp: put_uint16_def Let_def)
qed

lemma colon_join_chars: "NUL \<notin> set (colon_join ws)" "length (colon_join ws) \<le> 5 * length ws"
proof -
  have "NUL \<notin> set (colon_join ws) \<and> length (colon_join ws) \<le> 5 * length ws"
  proof (induction ws rule: colon_join.induct)
    case (2 w)
    then show ?case using put_uint16_chars [of w] by simp
  next
    case (3 w v ws)
    then show ?case using put_uint16_chars [of w] by (simp add: NUL_def)
  qed simp
  then show "NUL \<notin> set (colon_join ws)" "length (colon_join ws) \<le> 5 * length ws" by auto
qed

lemma quad_chars: "NUL \<notin> set (quad bs)" "length (quad bs) \<le> 15"
proof -
  have "NUL \<notin> set (put_uint8 w)" for w using put_uint8_chars(1) [of w] by (auto simp: NUL_def)
  then show "NUL \<notin> set (quad bs)" by (simp add: quad_def NUL_def)
  show "length (quad bs) \<le> 15"
    using put_uint8_chars(2) [of "bs ! 0"] put_uint8_chars(2) [of "bs ! 1"] put_uint8_chars(2) [of "bs ! 2"] put_uint8_chars(2) [of "bs ! 3"]
    by (simp add: quad_def)
qed

lemma inet_ntop4_format_quad: "inet_ntop4_format bs = quad bs @ [NUL]"
  by (simp add: inet_ntop4_format_def quad_def)

text \<open>What \<open>inet_ntop6\<close> prints before the NUL.\<close>

definition prints6 :: "u8 list \<Rightarrow> string \<Rightarrow> bool" where
  "prints6 src t \<longleftrightarrow> inet_ntop6_format src (best_run src) = Some (t @ [NUL]) \<and> NUL \<notin> set t \<and> length t < INET6_ADDRSTRLEN
     \<and> inet_pton6 t = Some (Some src)"

lemma prints6_plain:
  assumes "length src = 16" "run_base (best_run src) = - 1"
  shows "prints6 src (colon_join (map (in6_addr_addr16 src) [0..<8]))"
proof -
  let ?ws = "map (in6_addr_addr16 src) [0..<8]"
  have "inet_ntop6_groups src (best_run src) ([0..<8] @ []) [] = inet_ntop6_groups src (best_run src) [] ([] @ concat (map (sep_group src) [0..<8]))"
    by (rule groups_plain) (simp add: assms(2) in_run_def embeds4_def)
  then have "inet_ntop6_groups src (best_run src) [0..<8] [] = Some (colon_join ?ws)"
    by (simp only: sep_groups_join0) simp
  moreover have "inet_pton6 (colon_join ?ws) = Some (Some src)"
    using pton6_all [of ?ws] groups_bytes_addr16 [of 0 8 src] assms(1) by simp
  ultimately show ?thesis
    using assms(2) colon_join_chars [of ?ws]
    by (simp add: prints6_def inet_ntop6_format_def NS_IN6ADDRSZ_def NS_INT16SZ_def INET6_ADDRSTRLEN_def)
qed

end
