(* ===== verification/Inet_Properties.thy ===== *)
theory Inet_Properties
  imports Inet_Print
begin

text \<open>
  Round trips between the network and the presentation form, the texts accepted, and the bounds of the
  parsers' buffers.
\<close>

lemma groups_upto_run:
  assumes run: "run_base (best_run src) = int k" "run_len (best_run src) = int l" "2 \<le> l" "k + l \<le> 8"
  shows "inet_ntop6_groups src (best_run src) [0..<8] []
    = inet_ntop6_groups src (best_run src) [k + l..<8] (colon_join (map (in6_addr_addr16 src) [0..<k]) @ '':'')"
proof -
  have "inet_ntop6_groups src (best_run src) ([0..<k] @ [k..<k + l] @ [k + l..<8]) []
      = inet_ntop6_groups src (best_run src) ([k..<k + l] @ [k + l..<8]) ([] @ concat (map (sep_group src) [0..<k]))"
    by (rule groups_plain) (use run in \<open>auto simp: in_run_def embeds4_def\<close>)
  then show ?thesis
    using groups_run [OF run(1,2), of src "[k + l..<8]"] run(3) upt_split3 [OF run(4)] by (simp add: sep_groups_join0)
qed

lemma prints6_run:
  assumes src: "length src = 16"
    and run: "run_base (best_run src) = int k" "run_len (best_run src) = int l" "2 \<le> l" "k + l \<le> 8" "zero_run src k l"
    and no4: "\<not> embeds4 src (best_run src) 6"
  shows "prints6 src (colon_join (map (in6_addr_addr16 src) [0..<k]) @ ''::'' @ colon_join (map (in6_addr_addr16 src) [k + l..<8]))"
proof -
  let ?pre = "colon_join (map (in6_addr_addr16 src) [0..<k])" and ?post = "colon_join (map (in6_addr_addr16 src) [k + l..<8])"
  have "inet_ntop6_groups src (best_run src) ([k + l..<8] @ []) (?pre @ '':'')
      = inet_ntop6_groups src (best_run src) [] ((?pre @ '':'') @ concat (map (sep_group src) [k + l..<8]))"
    by (rule groups_plain) (use run no4 in \<open>auto simp: in_run_def embeds4_def\<close>)
  then have g: "inet_ntop6_groups src (best_run src) [0..<8] [] = Some (?pre @ '':'' @ concat (map (sep_group src) [k + l..<8]))"
    using groups_upto_run [OF run(1-4)] by simp
  have "inet_ntop6_format src (best_run src) = Some ((?pre @ ''::'' @ ?post) @ [NUL])"
  proof (cases "k + l = 8")
    case True
    then show ?thesis using g run(1,2) by (simp add: inet_ntop6_format_def NS_IN6ADDRSZ_def NS_INT16SZ_def)
  next
    case False
    then have "concat (map (sep_group src) [k + l..<8]) = '':'' @ ?post"
      using sep_groups_join [of "k + l" src "7 - (k + l)"] run(3,4) by simp
    then show ?thesis using g run(1,2) False by (simp add: inet_ntop6_format_def NS_IN6ADDRSZ_def NS_INT16SZ_def)
  qed
  moreover have "inet_pton6 (?pre @ ''::'' @ ?post) = Some (Some src)"
  proof -
    have "k + (8 - (k + l)) < 8" "16 - (2 * k + 2 * (8 - (k + l))) = 2 * l" "16 - 2 * (8 - l) = 2 * l" using run(3,4) by simp_all
    then show ?thesis
      using pton6_run [of "map (in6_addr_addr16 src) [0..<k]" "map (in6_addr_addr16 src) [k + l..<8]"]
        address_split [OF src run(4,5)] by simp
  qed
  moreover have "length (?pre @ ''::'' @ ?post) < INET6_ADDRSTRLEN"
    using colon_join_chars(2) [of "map (in6_addr_addr16 src) [0..<k]"] colon_join_chars(2) [of "map (in6_addr_addr16 src) [k + l..<8]"] run(3,4)
    by (simp add: INET6_ADDRSTRLEN_def)
  ultimately show ?thesis using colon_join_chars(1) by (simp add: prints6_def NUL_def)
qed

lemma prints6_embedded:
  assumes src: "length src = 16"
    and run: "run_base (best_run src) = 0" "run_len (best_run src) = int l" "zero_run src 0 l"
    and four: "l = 6 \<or> l = 5 \<and> in6_addr_addr16 src 5 = 0xffff"
  shows "prints6 src (''::'' @ concat (map (\<lambda>v. put_uint16 v @ '':'') (map (in6_addr_addr16 src) [l..<6])) @ quad (drop 12 src))"
proof -
  let ?vs = "map (in6_addr_addr16 src) [l..<6]"
  let ?mid = "concat (map (\<lambda>v. put_uint16 v @ '':'') ?vs)"
  have run': "run_base (best_run src) = int 0" "2 \<le> l" "0 + l \<le> 8" using run(1) four by auto
  have ntop4: "inet_ntop4 (drop 12 src) (46 - j) = Inr (quad (drop 12 src) @ [NUL])" if "j \<le> 30" for j
    using that by (simp add: inet_ntop4_def INET_ADDRSTRLEN_def inet_ntop4_format_quad)
  have six: "inet_ntop6_groups src (best_run src) [6, 7] tp = Some (tp @ '':'' @ quad (drop 12 src))" if "length tp \<le> 20" for tp
    using that run four ntop4 [of "length tp + 1"] take_strlen [OF quad_chars(1), of "drop 12 src"]
    by (auto simp: in_run_def embeds4_def INET6_ADDRSTRLEN_def)
  have "inet_ntop6_groups src (best_run src) [l..<8] '':'' = Some (''::'' @ ?mid @ quad (drop 12 src))"
  proof (cases "l = 6")
    case True
    then show ?thesis using six [of "'':''"] by (simp add: upt_rec)
  next
    case False
    then have l: "l = 5" "[l..<8] = [5, 6, 7]" "[l..<6] = [5]" using four by (simp_all add: upt_rec)
    then have "inet_ntop6_groups src (best_run src) [l..<8] '':'' = inet_ntop6_groups src (best_run src) [6, 7] ('':'' @ sep_group src 5)"
      using run by (simp add: in_run_def embeds4_def del: groups_Cons) (simp add: in_run_def embeds4_def)
    moreover have "length ('':'' @ sep_group src 5) \<le> 20"
      using put_uint16_chars(2) [of "in6_addr_addr16 src 5"] by (simp add: sep_group_def)
    ultimately show ?thesis using six l by (simp add: sep_group_def)
  qed
  then have "inet_ntop6_format src (best_run src) = Some ((''::'' @ ?mid @ quad (drop 12 src)) @ [NUL])"
    using groups_upto_run [OF run'(1) run(2) run'(2,3)] run four by (auto simp: inet_ntop6_format_def NS_IN6ADDRSZ_def NS_INT16SZ_def)
  moreover have "inet_pton6 (''::'' @ ?mid @ quad (drop 12 src)) = Some (Some src)"
  proof -
    have "12 - 2 * length ?vs = 2 * l" "length ?vs \<le> 1" "0 + l \<le> 8" using four by auto
    moreover have "groups_bytes (map (in6_addr_addr16 src) [l..<8]) = groups_bytes ?vs @ drop 12 src"
      using groups_bytes_addr16 [of l "6 - l" src] groups_bytes_addr16 [of l "8 - l" src] four src
        append_take_drop_id [of 2 "drop 10 src"] by auto
    ultimately show ?thesis
      using pton6_embedded [of "drop 12 src" ?vs] address_split [OF src _ run(3)] src by simp
  qed
  moreover have "length ?mid \<le> 5" "NUL \<notin> set ?mid"
    using four put_uint16_chars [of "in6_addr_addr16 src 5"] by (auto simp: upt_rec NUL_def)
  ultimately show ?thesis using quad_chars [of "drop 12 src"] by (simp add: prints6_def INET6_ADDRSTRLEN_def NUL_def)
qed

lemma inet_ntop6_prints:
  assumes "length src = 16"
  obtains t where "prints6 src t"
proof (rule best_run_cases [of src])
  assume "run_base (best_run src) = - 1"
  then show thesis using that prints6_plain [OF assms] by blast
next
  fix k l assume run: "run_base (best_run src) = int k" "run_len (best_run src) = int l" "2 \<le> l" "k + l \<le> 8" "zero_run src k l"
  show thesis
  proof (cases "embeds4 src (best_run src) 6")
    case True
    then have "k = 0" "l = 6 \<or> l = 5 \<and> in6_addr_addr16 src 5 = 0xffff" using run by (auto simp: embeds4_def)
    then show thesis using that prints6_embedded [OF assms] run by auto
  next
    case False
    then show thesis using that prints6_run [OF assms run] by blast
  qed
qed


section \<open>The texts accepted as IPv4 addresses\<close>

lemma put_uint8_first: "d < 10 \<Longrightarrow> put_uint8 (of_nat d) = [char_of (48 + d)]"
  by (simp add: put_uint8_digits Let_def unat_of_nat take_bit_nat_eq_self)

lemma put_uint8_more:
  assumes "v \<noteq> 0" "d < 10" "unat v * 10 + d \<le> 255"
  shows "put_uint8 (of_nat (unat v * 10 + d)) = put_uint8 v @ [char_of (48 + d)]"
proof -
  have n: "unat (of_nat (unat v * 10 + d) :: u8) = unat v * 10 + d"
    using assms(3) by (simp only: unat_of_nat) (simp add: take_bit_nat_eq_self)
  have v: "0 < unat v" using assms(1) by (simp add: unat_gt_0)
  then show ?thesis using assms(2,3) unfolding put_uint8_digits Let_def n by auto
qed

lemma quad_concat:
  assumes "length pre = 3"
  shows "quad (pre @ [v]) = concat (map (\<lambda>b. put_uint8 b @ ''.'') pre) @ put_uint8 v"
  using assms by (auto simp: quad_def numeral_eq_Suc length_Suc_conv)

text \<open>The loop keeps inside the four bytes of \<open>tmp\<close> whatever the text, and accepts printed text only.\<close>

lemma inet_pton4_loop_result:
  assumes "oc = length pre + (if saw then 1 else 0)" "\<not> saw \<longrightarrow> v = 0" "length pre + length post = 3"
  shows "\<exists>r. inet_pton4_loop src saw oc (pre @ v # post) (length pre) = Some r
    \<and> (\<forall>bs. r = Some bs \<longrightarrow>
          quad bs = concat (map (\<lambda>b. put_uint8 b @ ''.'') pre) @ (if saw then put_uint8 v else []) @ src \<and> length bs = 4)"
  using assms
proof (induction src arbitrary: saw oc pre v post)
  case Nil
  show ?case
  proof (cases "oc < 4")
    case False
    then have pre: "length pre = 3" "saw" using Nil by (auto split: if_splits)
    then have "post = []" using Nil(3) by simp
    then show ?thesis using quad_concat [of pre v] Nil pre by simp
  qed simp
next
  case (Cons ch src)
  let ?d = "ord ch - 48 :: nat"
  consider "48 \<le> ord ch \<and> ord ch \<le> (57 :: nat)" | "ch = CHR ''.''" "saw" "oc \<noteq> 4"
    | "\<not> (48 \<le> ord ch \<and> ord ch \<le> (57 :: nat))" "\<not> (ch = CHR ''.'' \<and> saw) \<or> oc = 4" by blast
  then show ?case
  proof cases
    case 1
    then have ch: "ch = char_of (48 + ?d)" "?d < 10" by auto
    let ?new = "of_nat (unat v * 10 + ?d) :: u8"
    show ?thesis
    proof (cases "(saw \<and> v = 0) \<or> 255 < unat v * 10 + ?d")
      case True
      then show ?thesis using 1 by (auto simp: Let_def)
    next
      case False
      then have le: "unat v * 10 + ?d \<le> 255" and nz: "saw \<longrightarrow> v \<noteq> 0" by auto
      have put: "put_uint8 ?new = (if saw then put_uint8 v else []) @ [ch]"
        using put_uint8_more [OF _ ch(2) le] put_uint8_first [OF ch(2)] nz ch(1) Cons.prems(2) by (cases saw) simp_all
      have step: "inet_pton4_loop (ch # src) saw oc (pre @ v # post) (length pre)
          = inet_pton4_loop src True (length pre + 1) (pre @ ?new # post) (length pre)"
        using False 1 Cons.prems by (auto simp: Let_def)
      show ?thesis unfolding step
        using Cons.IH [of "length pre + 1" pre True ?new post] Cons.prems(3) put by (simp del: of_nat_add of_nat_mult)
    qed
  next
    case 2
    then obtain z post' where post: "post = z # post'" using Cons.prems by (cases post) auto
    then show ?thesis
      using Cons.IH [of oc "pre @ [v]" False 0 post'] pton4_dot [of oc src pre v z post'] Cons.prems 2 by simp
  next
    case 3
    then show ?thesis by auto
  qed
qed

lemma inet_pton4_result:
  obtains "inet_pton4 s = Some None"
    | bs where "inet_pton4 s = Some (Some bs)" "quad bs = s" "length bs = 4"
proof -
  have "replicate NS_INADDRSZ 0 = [] @ 0 # [0, 0, 0 :: u8]" by (simp add: NS_INADDRSZ_def numeral_eq_Suc)
  then obtain r where "inet_pton4 s = Some r" "\<forall>bs. r = Some bs \<longrightarrow> quad bs = s \<and> length bs = 4"
    using inet_pton4_loop_result [of 0 "[]" False 0 "[0, 0, 0]" s] by (auto simp: inet_pton4_def)
  then show thesis using that by (cases r) auto
qed

section \<open>Properties\<close>

text \<open>
  C26: every IPv6 address survives printing and parsing: the text \<open>inet_ntop\<close> stores takes at most
  \<open>INET6_ADDRSTRLEN\<close> bytes, \<open>inet_pton\<close> of it is the address, whether it has a run of zeros shortened to a
  double colon, an embedded IPv4 address or neither, and every buffer is either large enough for
  that text or refused with ENOSPC.
\<close>

theorem inet6_roundtrip:
  assumes "length src = 16"
  shows "\<exists>s. length s \<le> INET6_ADDRSTRLEN \<and> inet_pton AF_INET6 s = Some (Inr (Some src))
    \<and> (\<forall>n. inet_ntop AF_INET6 src n = Some (if length s \<le> n then Inr s else Inl ENOSPC))"
proof -
  obtain t where t: "prints6 src t" using inet_ntop6_prints [OF assms(1)] .
  then have nul: "NUL \<notin> set t" and p: "inet_pton6 t = Some (Some src)" by (simp_all add: prints6_def)
  have "inet_pton AF_INET6 (t @ [NUL]) = Some (Inr (Some src))"
    unfolding inet_pton_def inet_pton_length_def take_strlen [OF nul] by (simp add: AF_INET6_def AF_INET_def p)
  moreover have "inet_ntop AF_INET6 src n = Some (if length (t @ [NUL]) \<le> n then Inr (t @ [NUL]) else Inl ENOSPC)" for n
    using t by (auto simp: inet_ntop_def inet_ntop6_def prints6_def AF_INET6_def AF_INET_def)
  ultimately show ?thesis using t by (intro exI [of _ "t @ [NUL]"]) (simp add: prints6_def)
qed

theorem inet6_roundtrip_witness:
  "length (replicate 10 0 @ [0xff, 0xff, 192, 0, 2, 1] :: u8 list) = 16
   \<and> (\<exists>s. inet_ntop AF_INET6 (replicate 10 0 @ [0xff, 0xff, 192, 0, 2, 1]) 46 = Some (Inr s)
        \<and> inet_pton AF_INET6 s = Some (Inr (Some (replicate 10 0 @ [0xff, 0xff, 192, 0, 2, 1]))))"
proof -
  have "length (replicate 10 0 @ [0xff, 0xff, 192, 0, 2, 1] :: u8 list) = 16" by simp
  from inet6_roundtrip [OF this] this show ?thesis by (auto simp: INET6_ADDRSTRLEN_def)
qed

text \<open>
  C27: \<open>inet_pton\<close> accepts as an IPv4 address exactly the texts \<open>inet_ntop\<close> prints: four decimal numbers up to
  255 without leading zeros, separated by dots.
\<close>

theorem inet4_exact:
  "inet_pton4 s = Some (Some bs) \<longleftrightarrow> length bs = 4 \<and> inet_ntop4 bs INET_ADDRSTRLEN = Inr (s @ [NUL])"
proof
  assume "inet_pton4 s = Some (Some bs)"
  then have "quad bs = s \<and> length bs = 4" by (cases rule: inet_pton4_result [of s]) auto
  then show "length bs = 4 \<and> inet_ntop4 bs INET_ADDRSTRLEN = Inr (s @ [NUL])"
    by (simp add: inet_ntop4_def inet_ntop4_format_quad)
next
  assume b: "length bs = 4 \<and> inet_ntop4 bs INET_ADDRSTRLEN = Inr (s @ [NUL])"
  then have "[bs ! 0, bs ! 1, bs ! 2, bs ! 3] = bs" by (auto simp: numeral_eq_Suc length_Suc_conv)
  then have "inet_pton4 (quad bs) = Some (Some bs)" using inet_pton4_quad unfolding quad_def by metis
  then show "inet_pton4 s = Some (Some bs)" using b by (simp add: inet_ntop4_def inet_ntop4_format_quad)
qed

section \<open>The buffer of the IPv6 parser\<close>

definition p6_ok :: "pton6_state \<Rightarrow> bool" where
  "p6_ok s \<longleftrightarrow> length (p6_tmp s) = 16 \<and> p6_tp s \<le> 16 \<and> (\<forall>c. p6_colonp s = Some c \<longrightarrow> c \<le> p6_tp s)"

lemma put_val_ok:
  assumes "p6_ok s" "p6_tp s + 2 \<le> 16"
  obtains s' where "put_val s = Some s'" "p6_ok s'" "p6_colonp s' = p6_colonp s"
  using assms that by (fastforce simp: p6_ok_def put_val_def store_at_def)

lemma inet_pton6_loop_ok:
  "p6_ok s \<Longrightarrow> \<exists>r. inet_pton6_loop src cur s = Some r \<and> (\<forall>s'. r = Some s' \<longrightarrow> p6_ok s')"
proof (induction src arbitrary: cur s)
  case (Cons ch src)
  show ?case
  proof (cases "hex_digit_value ch")
    case (Some digit)
    have "p6_ok (s\<lparr>p6_val := v, p6_xdigits_seen := x\<rparr>)" for v x using Cons.prems by (simp add: p6_ok_def)
    then show ?thesis using Some Cons.IH by (simp add: Let_def)
  next
    case None
    consider "ch = CHR '':''" "p6_xdigits_seen s = 0" | "ch = CHR '':''" "p6_xdigits_seen s \<noteq> 0" "src \<noteq> []" "p6_tp s + 2 \<le> 16"
      | "ch = CHR '':''" "p6_xdigits_seen s \<noteq> 0" "\<not> (src \<noteq> [] \<and> p6_tp s + 2 \<le> 16)" | "ch \<noteq> CHR '':''" by blast
    then show ?thesis
    proof cases
      case 1
      have "p6_ok (s\<lparr>p6_colonp := Some (p6_tp s)\<rparr>)" using Cons.prems by (simp add: p6_ok_def)
      then show ?thesis using 1 None Cons.IH by simp
    next
      case 2
      obtain s1 where s1: "put_val s = Some s1" "p6_ok s1" using put_val_ok [OF Cons.prems 2(4)] .
      have "p6_ok (s1\<lparr>p6_xdigits_seen := 0, p6_val := 0\<rparr>)" using s1(2) by (simp add: p6_ok_def)
      then show ?thesis using 2 None s1(1) Cons.IH by (simp add: NS_IN6ADDRSZ_def NS_INT16SZ_def)
    next
      case 3
      then show ?thesis using None by (auto simp: NS_IN6ADDRSZ_def NS_INT16SZ_def)
    next
      case 4
      show ?thesis
      proof (rule inet_pton4_result [of cur])
        fix dst assume "inet_pton4 cur = Some (Some dst)" "length dst = 4"
        then show ?thesis using 4 None Cons.prems
          by (force simp: p6_ok_def store_at_def NS_IN6ADDRSZ_def NS_INADDRSZ_def)
      qed (use 4 None in simp)
    qed
  qed
qed simp

lemma inet_pton6_finish_ok:
  assumes "p6_ok s"
  shows "\<exists>r. inet_pton6_finish s = Some r \<and> (\<forall>bs. r = Some bs \<longrightarrow> length bs = 16)"
proof (cases "0 < p6_xdigits_seen s \<and> NS_IN6ADDRSZ < p6_tp s + NS_INT16SZ")
  case True
  then show ?thesis by (simp add: inet_pton6_finish_def)
next
  case False
  then obtain s1 where s1: "(if 0 < p6_xdigits_seen s then put_val s else Some s) = Some s1" "p6_ok s1"
    using put_val_ok [OF assms] assms by (cases "0 < p6_xdigits_seen s") (auto simp: NS_IN6ADDRSZ_def NS_INT16SZ_def)
  show ?thesis
  proof (cases "p6_colonp s1")
    case None
    then show ?thesis using False s1 by (simp add: inet_pton6_finish_def p6_ok_def)
  next
    case (Some c)
    then have b: "c \<le> p6_tp s1" "p6_tp s1 \<le> 16" "length (p6_tmp s1) = 16" using s1(2) by (auto simp: p6_ok_def)
    then show ?thesis using False s1(1) Some
      by (auto simp: inet_pton6_finish_def NS_IN6ADDRSZ_def NS_INT16SZ_def read_at_def store_at_def Let_def)
  qed
qed

lemma inet_pton6_result: "\<exists>r. inet_pton6 s = Some r \<and> (\<forall>bs. r = Some bs \<longrightarrow> length bs = 16)"
proof -
  let ?init = "\<lparr>p6_tmp = replicate NS_IN6ADDRSZ 0, p6_tp = 0, p6_colonp = None, p6_xdigits_seen = 0, p6_val = 0\<rparr>"
  have init: "p6_ok ?init" by (simp add: p6_ok_def NS_IN6ADDRSZ_def)
  have run: "\<exists>r. Option.bind (inet_pton6_loop t t ?init) inet_pton6_rest = Some r \<and> (\<forall>bs. r = Some bs \<longrightarrow> length bs = 16)" for t
    using inet_pton6_loop_ok [OF init, of t t] inet_pton6_finish_ok
    by (auto simp: inet_pton6_rest_def simp del: inet_pton6_loop.simps split: option.split)
  show ?thesis
    using run [of s] run [of "tl s"] unfolding inet_pton6_def Let_def
    by (cases s; cases "tl s") (auto simp del: inet_pton6_loop.simps)
qed

text \<open>
  C28: whatever the text, accepted or not, the parsers never access a byte outside of their 4 and 16 byte buffers, and
  they return.  An address that is accepted has exactly the 4 or 16 bytes of its family, and another family is refused
  with EAFNOSUPPORT.
\<close>

theorem inet_pton_in_bounds:
  "\<exists>r. inet_pton af s = Some r
    \<and> (case r of
          Inl e \<Rightarrow> e = EAFNOSUPPORT \<and> af \<notin> {AF_INET, AF_INET6}
        | Inr None \<Rightarrow> af \<in> {AF_INET, AF_INET6}
        | Inr (Some bs) \<Rightarrow> (af, length bs) \<in> {(AF_INET, 4), (AF_INET6, 16)})"
proof -
  let ?t = "take (strlen s) s"
  have ne: "AF_INET6 \<noteq> AF_INET" by (simp add: AF_INET6_def AF_INET_def)
  obtain r4 where r4: "inet_pton4 ?t = Some r4" "\<forall>bs. r4 = Some bs \<longrightarrow> length bs = 4" by (rule inet_pton4_result [of ?t]) auto
  obtain r6 where r6: "inet_pton6 ?t = Some r6" "\<forall>bs. r6 = Some bs \<longrightarrow> length bs = 16" using inet_pton6_result by blast
  show ?thesis
    using r4 r6 ne by (auto simp: inet_pton_def inet_pton_length_def split: option.split)
qed

end
