(* ===== verification/Inet_Addr_Properties.thy ===== *)
theory Inet_Addr_Properties
  imports Inet_Addr Inet_Properties
begin

text \<open>
  \<open>inet_aton\<close> and \<open>inet_addr\<close> on dotted quads, by way of \<open>strtoul\<close> on decimal numbers, and the parts of
  classful addresses.
\<close>

section \<open>Numbers in text\<close>

declare dec.simps [simp del] inet_aton_loop.simps [simp del] inet_network_parts.simps [simp del]
  net_decimal.simps [simp del] net_extend.simps [simp del]

lemma digit_value_dec: "(d :: nat) < 10 \<Longrightarrow> digit_value (char_of (48 + d)) = Some d"
  by (simp add: digit_value_def)

lemma digit_in_dec: "(d :: nat) < 10 \<Longrightarrow> digit_in 10 (char_of (48 + d))"
  by (simp add: digit_in_def digit_value_dec)

lemma char_of_48: "char_of (48 :: nat) = CHR ''0''"
  by code_simp

lemma char_zero:
  assumes "(k :: nat) < 10"
  shows "char_of (48 + k) = CHR ''0'' \<longleftrightarrow> k = 0"
proof
  assume "char_of (48 + k) = CHR ''0''"
  then have "ord (char_of (48 + k)) = (48 :: nat)" by simp
  then show "k = 0" using assms by simp
qed (simp add: char_of_48)

lemma dec_rec: "dec n = (if n < 10 then [char_of (48 + n)] else dec (n div 10) @ [char_of (48 + n mod 10)])"
  by (subst dec.simps) simp

lemma digits_val_snoc: "digits_val b (ds @ [c]) = digits_val b ds * nat b + the (digit_value c)"
  by (simp add: digits_val_def)

lemma dec_digits: "list_all (digit_in 10) (dec n) \<and> digits_val 10 (dec n) = n"
proof (induction n rule: dec.induct)
  case (1 n)
  show ?case
  proof (cases "n < 10")
    case True
    then show ?thesis by (simp add: dec_rec [of n] digit_in_dec digits_val_def digit_value_dec)
  next
    case False
    then show ?thesis using 1 by (simp add: dec_rec [of n] digit_in_dec digits_val_snoc digit_value_dec)
  qed
qed

lemma dec_first: "dec n \<noteq> [] \<and> isdigit (hd (dec n)) \<and> (hd (dec n) = CHR ''0'' \<longleftrightarrow> n = 0)"
proof (induction n rule: dec.induct)
  case (1 n)
  show ?case
  proof (cases "n < 10")
    case True
    then show ?thesis by (simp add: dec_rec [of n] isdigit_def char_zero)
  next
    case False
    then show ?thesis using 1 by (simp add: dec_rec [of n])
  qed
qed

lemma dec_0: "dec 0 = ''0''"
  by (simp add: dec_rec [of 0] char_of_48)

lemma put_uint8_dec: "put_uint8 w = dec (unat w)"
proof -
  have "unat w div 10 div 10 < 10" using unat_le_u8 [of w] by linarith
  moreover have "unat w div 10 < 10 \<longleftrightarrow> unat w < 100" by (simp add: div_less_iff_less_mult)
  ultimately show ?thesis
    by (simp add: put_uint8_digits Let_def dec_rec [of "unat w"] dec_rec [of "unat w div 10"] dec_rec [of "unat w div 10 div 10"])
qed


lemma unat_ucast_small: "unat (w :: 'a::len word) < 2 ^ LENGTH('b::len) \<Longrightarrow> unat (ucast w :: 'b word) = unat w"
  by (simp add: unsigned_ucast_eq take_bit_nat_eq_self)

definition number_end :: "string \<Rightarrow> bool" where
  "number_end rest \<longleftrightarrow> rest = [] \<or> hd rest = CHR ''.''"

lemma number_end_stops: "number_end rest \<Longrightarrow> takeWhile (digit_in b) rest = []" "number_end rest \<Longrightarrow> dropWhile (digit_in b) rest = rest"
  by (cases rest; simp add: number_end_def digit_in_def digit_value_def isalpha_def isupper_def islower_def)+

lemma strtoul_dec:
  assumes n: "n < 2 ^ 64" and rest: "number_end rest"
  shows "strtoul (dec n @ rest) 0 = \<lparr>strtol_value = of_nat n, strtol_endptr = Some rest, strtol_errno = None\<rparr>"
proof -
  obtain c cs where c: "dec n = c # cs" "isdigit c" "c = CHR ''0'' \<longleftrightarrow> n = 0"
    using dec_first [of n] by (cases "dec n") auto
  have "\<not> isspace c" "c \<noteq> CHR ''-''" "c \<noteq> CHR ''+''" using c(2) by (auto simp: isdigit_def isspace_def)
  then have skip: "skip_space isspace (dec n @ rest) = dec n @ rest" "strtol_sign (dec n @ rest) = (False, dec n @ rest)"
    by (simp_all add: c strtol_sign_def)
  define b :: int where "b = (if n = 0 then 8 else 10)"
  have "toupper (char_at rest 0) \<noteq> CHR ''X''"
    using rest by (cases rest) (auto simp: number_end_def toupper_def islower_def NUL_def)
  then have prefix: "strtol_prefix False 0 (dec n @ rest) = (b, dec n @ rest)"
    using c dec_0 by (cases "n = 0") (auto simp: strtol_prefix_def b_def)
  have "list_all (digit_in b) (dec n) \<and> digits_val b (dec n) = n"
    using dec_digits [of n] by (simp add: b_def dec_0 digits_val_def digit_in_def digit_value_def)
  then have tw: "takeWhile (digit_in b) (dec n @ rest) = dec n" "dropWhile (digit_in b) (dec n @ rest) = rest" and v: "digits_val b (dec n) = n"
    using number_end_stops [OF rest] by (simp_all add: list_all_iff)
  have "2 \<le> b" "b \<le> 36" by (simp_all add: b_def)
  from strtol_digits_value [OF this, of "dec n @ rest"] n
  have run: "strtol_digits b (dec n @ rest) False 0 = (False, of_nat n, rest)" by (auto simp: tw v)
  have "dec n @ rest \<noteq> []" "rest \<noteq> dec n @ rest" using c by auto
  then show ?thesis by (simp add: strtoul_def strtol_l_internal_def strtol_finish_def skip prefix run)
qed

lemma aton_step:
  assumes "n \<le> 255" "pp \<le> 2"
  shows "inet_aton_loop (dec n @ ''.'' @ rest) pp res = inet_aton_loop rest (pp + 1) (res[pp := of_nat n])"
proof -
  obtain c cs where c: "dec n = c # cs" "isdigit c" using dec_first [of n] by (cases "dec n") auto
  have su: "strtoul (dec n @ ''.'' @ rest) 0 = \<lparr>strtol_value = of_nat n, strtol_endptr = Some (''.'' @ rest), strtol_errno = None\<rparr>"
    by (rule strtoul_dec) (use assms in \<open>simp_all add: number_end_def\<close>)
  have u: "unat (of_nat n :: u64) = n" using assms(1) by (intro unat_of_nat_u64) simp
  have "\<not> (0xffffffff :: u64) < of_nat n" using assms(1) u by (simp add: word_less_nat_alt)
  moreover have "\<not> (0xff :: u32) < ucast (of_nat n :: u64)"
    using assms(1) u by (simp add: word_less_nat_alt unsigned_ucast_eq take_bit_nat_eq_self)
  moreover have "ucast (ucast (of_nat n :: u64) :: u32) = (of_nat n :: u8)"
    unfolding word_unat_eq_iff using assms(1) u
    by (subst unat_ucast_small; subst unat_ucast_small) (simp_all add: unat_of_nat take_bit_nat_eq_self)
  ultimately show ?thesis using su c assms(2) by (subst inet_aton_loop.simps) (simp add: Let_def)
qed


lemma be32_small:
  assumes "unat (x :: u32) \<le> 255"
  shows "be32 x = [0, 0, 0, of_nat (unat x)]"
proof -
  have "drop_bit k x = 0" if "8 \<le> k" for k
  proof -
    have "unat x < 2 ^ 8" using assms by simp
    also have "\<dots> \<le> 2 ^ k" using that by (rule power_increasing) simp
    finally have "unat (drop_bit k x) = 0"
      using unsigned_less [of x, where ?'a = nat] unfolding unsigned_drop_bit_eq
      by (simp add: take_bit_nat_eq_self drop_bit_eq_div)
    then show ?thesis by (simp add: unsigned_eq_0_iff)
  qed
  then show ?thesis by (simp add: be32_def)
qed

lemma aton_last:
  assumes "n \<le> 255"
  shows "inet_aton_loop (dec n) 3 [a, b, c, 0] = Some ([a, b, c, of_nat n], [])"
proof -
  obtain d ds where d: "dec n = d # ds" "isdigit d" using dec_first [of n] by (cases "dec n") auto
  have su: "strtoul (dec n) 0 = \<lparr>strtol_value = of_nat n, strtol_endptr = Some [], strtol_errno = None\<rparr>"
    using strtoul_dec [of n "[]"] assms by (simp add: number_end_def)
  have u: "unat (of_nat n :: u64) = n" using assms(1) by (intro unat_of_nat_u64) simp
  have "\<not> (0xffffffff :: u64) < of_nat n" using assms(1) u by (simp add: word_less_nat_alt)
  moreover have v: "unat (ucast (of_nat n :: u64) :: u32) = n"
    using assms(1) u by (simp add: unsigned_ucast_eq take_bit_nat_eq_self)
  moreover have "be32 (ucast (of_nat n :: u64)) = [0, 0, 0, of_nat n]"
    using be32_small [of "ucast (of_nat n :: u64)"] assms by (simp only: v)
  ultimately show ?thesis using su d assms
    by (subst inet_aton_loop.simps) (simp add: Let_def aton_max_def word_less_nat_alt NUL_def)
qed

lemma inet_aton_quad:
  assumes "length bs = 4"
  shows "inet_aton_end (quad bs) = Some (bs, [])"
proof -
  obtain a b c d where bs: "bs = [a, b, c, d]" using assms by (auto simp: numeral_eq_Suc length_Suc_conv)
  have q: "quad bs = dec (unat a) @ ''.'' @ dec (unat b) @ ''.'' @ dec (unat c) @ ''.'' @ dec (unat d)"
    by (simp add: quad_def bs put_uint8_dec)
  have 1: "inet_aton_loop (dec (unat a) @ ''.'' @ t) 0 [0, 0, 0, 0] = inet_aton_loop t 1 [a, 0, 0, 0]" for t
    using aton_step [OF unat_le_u8, of 0 a t] by simp
  have 2: "inet_aton_loop (dec (unat b) @ ''.'' @ t) 1 [a, 0, 0, 0] = inet_aton_loop t 2 [a, b, 0, 0]" for t
    using aton_step [OF unat_le_u8, of 1 b t] by (simp add: numeral_2_eq_2)
  have 3: "inet_aton_loop (dec (unat c) @ ''.'' @ t) 2 [a, b, 0, 0] = inet_aton_loop t 3 [a, b, c, 0]" for t
    using aton_step [OF unat_le_u8, of 2 c t] by (simp add: numeral_eq_Suc)
  show ?thesis
    unfolding inet_aton_end_def q 1 2 3 using aton_last [OF unat_le_u8, of d a b c] by (simp add: bs)
qed

text \<open>
  C31: on every text \<open>inet_pton\<close> accepts as an IPv4 address, \<open>inet_aton\<close>, \<open>inet_addr\<close> and the exact variant give the
  same address, although they go through \<open>strtoul\<close>; in particular they read back what \<open>inet_ntoa\<close> prints.
\<close>

theorem inet_aton_agrees:
  assumes "inet_pton4 s = Some (Some bs)"
  shows "inet_aton_exact s = Some bs \<and> inet_aton_ignore_trailing s = Some bs \<and> inet_addr s = bs \<and> inet_ntoa bs buf = s @ [NUL]"
proof -
  have "quad bs = s \<and> length bs = 4" using assms by (cases rule: inet_pton4_result [of s]) auto
  then show ?thesis
    using inet_aton_quad [of bs]
    by (auto simp: inet_aton_exact_def inet_aton_ignore_trailing_def inet_addr_def inet_ntoa_def inet_ntop_def inet_ntop4_def inet_ntop4_format_quad)
qed

theorem inet_aton_agrees_witness:
  "inet_pton4 ''10.0.200.1'' = Some (Some [10, 0, 200, 1]) \<and> inet_addr ''10.0.200.1'' = [10, 0, 200, 1]"
proof -
  have p: "inet_pton4 ''10.0.200.1'' = Some (Some [10, 0, 200, 1])" by code_simp
  with inet_aton_agrees [OF p] show ?thesis by simp
qed

section \<open>Classes\<close>

lemma no_bit_31:
  assumes "\<not> bit (i :: u32) 31"
  shows "unat i < 2 ^ 31"
proof -
  have "take_bit 31 i = i"
  proof (rule bit_word_eqI)
    fix n assume "n < LENGTH(32)"
    then show "bit (take_bit 31 i) n = bit i n" using assms by (cases "n = 31") (auto simp: bit_simps)
  qed
  then have "unat i = take_bit 31 (unat i)" by (metis unsigned_take_bit_eq)
  then show ?thesis by (metis take_bit_nat_less_exp)
qed

lemma has_bit_31:
  assumes "bit (i :: u32) 31"
  shows "2 ^ 31 \<le> unat i"
proof -
  have "bit (unat i) 31" using assms by (simp add: bit_unsigned_iff)
  then have "odd (unat i div 2 ^ 31)" unfolding bit_iff_odd .
  then show ?thesis by (metis div_less even_zero not_le)
qed

lemma IN_CLASSA_bit: "IN_CLASSA i \<longleftrightarrow> \<not> bit i 31"
  using and_exp_eq_0_iff_not_bit [of i 31] by (simp add: IN_CLASSA_def)

lemma net_masks:
  "IN_CLASSA_NET = NOT (mask 24)" "IN_CLASSB_NET = NOT (mask 16)" "IN_CLASSC_NET = NOT (mask 8)"
  "IN_CLASSA_HOST = mask 24" "IN_CLASSB_HOST = mask 16" "IN_CLASSC_HOST = mask 8"
  unfolding IN_CLASSA_HOST_def IN_CLASSB_HOST_def IN_CLASSC_HOST_def IN_CLASSA_NET_def IN_CLASSB_NET_def IN_CLASSC_NET_def
  by code_simp+

lemma join_net_host: "k \<le> 32 \<Longrightarrow> push_bit k (drop_bit k (i AND NOT (mask k))) OR (i AND mask k AND mask k) = (i :: u32)"
  by (rule bit_word_eqI) (auto simp: bit_simps)

lemma unat_net: "unat (drop_bit k (i AND NOT (mask k) :: u32)) = unat i div 2 ^ k"
proof -
  have "drop_bit k (i AND NOT (mask k)) = drop_bit k i"
    by (rule bit_word_eqI) (auto simp: bit_simps dest: bit_imp_le_length)
  then show ?thesis
    using unsigned_less [of i, where ?'a = nat] by (simp only: unsigned_drop_bit_eq) (simp add: take_bit_nat_eq_self drop_bit_eq_div)
qed

text \<open>
  C34: an address is put together again from its network number and its host part, whatever its
  class.
\<close>

theorem inet_makeaddr_parts:
  assumes "length a = 4"
  shows "inet_makeaddr (inet_netof a) (inet_lnaof a) = a"
proof -
  define i where "i = of_be32 a"
  have a: "be32 i = a" unfolding i_def by (rule be32_of_be32 [OF assms])
  have i: "unat i < 2 ^ 32" using unsigned_less [of i, where ?'a = nat] by simp
  show ?thesis
  proof (cases "IN_CLASSA i")
    case True
    then have "unat i < 2 ^ 31" unfolding IN_CLASSA_bit by (rule no_bit_31)
    then have "unat i div 2 ^ 24 < 128" by (simp add: less_mult_imp_div_less)
    then have "drop_bit 24 (i AND NOT (mask 24)) < 128" unfolding word_less_nat_alt unat_net by simp
    then show ?thesis
      using True a join_net_host [of 24 i] by (simp add: inet_makeaddr_def inet_netof_def inet_lnaof_def i_def [symmetric] net_masks)
  next
    case False
    then have big: "2 ^ 31 \<le> unat i" unfolding IN_CLASSA_bit by (intro has_bit_31) simp
    have "\<not> unat i div 2 ^ 16 < 128" "unat i div 2 ^ 16 < 65536" "\<not> unat i div 2 ^ 8 < 128" "\<not> unat i div 2 ^ 8 < 65536" "unat i div 2 ^ 8 < 16777216"
      using big i by (simp_all add: less_mult_imp_div_less div_less_iff_less_mult)
    then have "\<not> drop_bit 16 (i AND NOT (mask 16)) < 128" "drop_bit 16 (i AND NOT (mask 16)) < 65536"
      "\<not> drop_bit 8 (i AND NOT (mask 8)) < 128" "\<not> drop_bit 8 (i AND NOT (mask 8)) < 65536" "drop_bit 8 (i AND NOT (mask 8)) < 16777216"
      unfolding word_less_nat_alt unat_net by simp_all
    then show ?thesis
      using False a join_net_host [of 16 i] join_net_host [of 8 i]
      by (simp add: inet_makeaddr_def inet_netof_def inet_lnaof_def i_def [symmetric] net_masks)
  qed
qed

theorem inet_makeaddr_parts_witness:
  "length [172, 16, 5, 9 :: u8] = 4 \<and> inet_makeaddr (inet_netof [172, 16, 5, 9]) (inet_lnaof [172, 16, 5, 9]) = [172, 16, 5, 9]"
proof -
  have l: "length [172, 16, 5, 9 :: u8] = 4" by simp
  show ?thesis using inet_makeaddr_parts [OF l] l by simp
qed

end
