(* ===== verification/Inet_Net_Properties.thy ===== *)
theory Inet_Net_Properties
  imports Inet_Addr_Properties
begin

text \<open>
  Network numbers: the round trip through the text with a width, the bounds of the printed text, and the value of
  \<open>inet_network\<close>.
\<close>

section \<open>Network numbers\<close>

subsection \<open>Parsing\<close>

lemma isdigit_of_digit_in: "digit_in 10 c \<Longrightarrow> isdigit c \<and> isascii c \<and> xdigit_pos c = the (digit_value c)"
proof -
  assume d: "digit_in 10 c"
  define k where "k = ord c - (48 :: nat)"
  have k: "48 \<le> ord c" "ord c \<le> (57 :: nat)" using d
    by (auto simp: digit_in_def digit_value_def isalpha_def isupper_def islower_def toupper_def split: if_splits)
  then have c: "c = char_of (48 + k)" "k < 10" by (simp_all add: k_def)
  have "xdigit_pos (char_of (48 + k)) = k"
  proof -
    have "list_all (\<lambda>k. xdigit_pos (char_of (48 + k)) = k) [0..<10]" by code_simp
    then show ?thesis using c(2) by (simp add: list_all_iff)
  qed
  then show ?thesis using k c digit_value_dec [OF c(2)] by (simp add: isdigit_def isascii_def)
qed

lemma foldl_digits_ge: "v \<le> foldl (\<lambda>v c. v * 10 + the (digit_value c)) (v :: nat) cs"
proof (induction cs arbitrary: v)
  case (Cons c cs)
  have "v \<le> v * 10 + the (digit_value c)" by simp
  also have "\<dots> \<le> foldl (\<lambda>v c. v * 10 + the (digit_value c)) (v * 10 + the (digit_value c)) cs" by (rule Cons)
  finally show ?case by simp
qed simp

lemma net_octet_digits:
  assumes "list_all (digit_in 10) (ch # cs)" "foldl (\<lambda>v c. v * 10 + the (digit_value c)) tmp (ch # cs) \<le> 255" "\<not> isdigit c"
  shows "net_octet (cs @ c # rest) ch tmp = Some (foldl (\<lambda>v c. v * 10 + the (digit_value c)) tmp (ch # cs), c, rest)"
  using assms
proof (induction cs arbitrary: ch tmp)
  case Nil
  then show ?case using isdigit_of_digit_in [of ch] by (simp add: Let_def)
next
  case (Cons d cs)
  have "tmp * 10 + the (digit_value ch) \<le> foldl (\<lambda>v c. v * 10 + the (digit_value c)) tmp (ch # d # cs)"
    using foldl_digits_ge [of "tmp * 10 + the (digit_value ch)" "d # cs"] by simp
  then have "tmp * 10 + the (digit_value ch) \<le> 255" using Cons.prems(2) by linarith
  then show ?case
    using Cons isdigit_of_digit_in [of ch] isdigit_of_digit_in [of d] by (simp add: Let_def)
qed

lemma net_octet_dec:
  assumes "n \<le> 255" "\<not> isdigit c"
  shows "net_octet (tl (dec n) @ c # rest) (hd (dec n)) 0 = Some (n, c, rest)"
proof -
  obtain d ds where d: "dec n = d # ds" using dec_first [of n] by (cases "dec n") auto
  have "foldl (\<lambda>v c. v * 10 + the (digit_value c)) 0 (d # ds) = n"
    using dec_digits [of n] by (simp add: d digits_val_def)
  then show ?thesis using net_octet_digits [of d ds 0 c rest] dec_digits [of n] assms by (simp add: d)
qed

fun dot_join :: "nat list \<Rightarrow> string" where
  "dot_join [] = []"
| "dot_join [n] = dec n"
| "dot_join (n # m # ns) = dec n @ ''.'' @ dot_join (m # ns)"

lemma dot_join_first: "dot_join (n # ns) = hd (dec n) # tl (dot_join (n # ns))"
  using dec_first [of n] by (cases ns; cases "dec n") auto

lemma dot_join_Nil [simp]: "dot_join ns = [] \<longleftrightarrow> ns = []"
proof (cases ns)
  case (Cons n ns')
  then show ?thesis using dot_join_first [of n ns'] by (metis list.distinct(1))
qed simp

lemma net_decimal_join:
  assumes "ns \<noteq> []" "list_all (\<lambda>n. n \<le> 255) ns" "length ns \<le> sz"
  shows "net_decimal (tl (dot_join ns) @ CHR ''/'' # rest) (hd (dot_join ns)) sz dst
    = Inr (CHR ''/'', rest, sz - length ns, dst @ map of_nat ns)"
  using assms
proof (induction ns arbitrary: sz dst rule: dot_join.induct)
  case (2 n)
  then show ?case
    using net_octet_dec [of n "CHR ''/''" rest] dec_first [of n] by (subst net_decimal.simps) (simp add: isdigit_def)
next
  case (3 n m ns)
  obtain d ds where d: "dec n = d # ds" using dec_first [of n] by (cases "dec n") auto
  obtain e es where e: "dot_join (m # ns) = e # es" "e = hd (dec m)" using dot_join_first [of m ns] by blast
  have dig: "isascii e \<and> isdigit e" using dec_first [of m] dec_digits [of m] isdigit_of_digit_in e(2) by (cases "dec m") auto
  have "net_octet (ds @ CHR ''.'' # (e # es) @ CHR ''/'' # rest) d 0 = Some (n, CHR ''.'', (e # es) @ CHR ''/'' # rest)"
    using net_octet_dec [of n "CHR ''.''"] 3(3) d by (simp add: isdigit_def)
  then have "net_decimal (tl (dot_join (n # m # ns)) @ CHR ''/'' # rest) (hd (dot_join (n # m # ns))) sz dst
     = net_decimal (es @ CHR ''/'' # rest) e (sz - 1) (dst @ [of_nat n])"
    using 3(4) d e dig by (subst net_decimal.simps) (simp add: NUL_def)
  then show ?case using 3(1) [of "sz - 1" "dst @ [of_nat n]"] 3(3,4) e by simp
qed simp

lemma net_width_digits:
  "list_all (digit_in 10) (ch # cs) \<Longrightarrow>
   net_width cs ch (of_nat v) = (of_nat (foldl (\<lambda>v c. v * 10 + the (digit_value c)) v (ch # cs)), NUL)"
proof (induction cs arbitrary: ch v)
  case Nil
  then show ?case using isdigit_of_digit_in [of ch] by simp
next
  case (Cons d cs)
  then show ?case
    using isdigit_of_digit_in [of ch] isdigit_of_digit_in [of d] Cons.IH [of d "v * 10 + the (digit_value ch)"] by (simp add: Let_def)
qed

lemma net_width_dec: "net_width (tl (dec n)) (hd (dec n)) 0 = (of_nat n, NUL)"
proof -
  obtain d ds where d: "dec n = d # ds" using dec_first [of n] by (cases "dec n") auto
  have "foldl (\<lambda>v c. v * 10 + the (digit_value c)) 0 (d # ds) = n"
    using dec_digits [of n] by (simp add: d digits_val_def)
  then show ?thesis using net_width_digits [of d ds 0] dec_digits [of n] by (simp add: d)
qed


subsection \<open>Printing\<close>

lemma length_dec: "n < 1000 \<Longrightarrow> length (dec n) \<le> 3" "n < 100 \<Longrightarrow> length (dec n) \<le> 2"
proof -
  have "n div 10 div 10 < 10" if "n < 1000" using that by linarith
  then show "n < 1000 \<Longrightarrow> length (dec n) \<le> 3"
    by (simp add: dec_rec [of n] dec_rec [of "n div 10"] dec_rec [of "n div 10 div 10"])
  have "n div 10 < 10" if "n < 100" using that by linarith
  then show "n < 100 \<Longrightarrow> length (dec n) \<le> 2" by (simp add: dec_rec [of n] dec_rec [of "n div 10"])
qed

lemma length_dec_u8: "length (dec (unat (w :: u8))) \<le> 3"
  by (rule length_dec) (use unat_le_u8 [of w] in simp)

text \<open>
  \<open>printed N buf0 buf dst sz t\<close>: the first \<open>N\<close> bytes of a buffer that had the content \<open>buf0\<close> are the space of the call; the
  text \<open>t\<close> fills them up to \<open>dst\<close>, \<open>sz\<close> bytes of them are left, and the bytes behind them are as they were.
\<close>

definition printed :: "nat \<Rightarrow> char list \<Rightarrow> char list \<Rightarrow> nat \<Rightarrow> u64 \<Rightarrow> string \<Rightarrow> bool" where
  "printed N buf0 buf dst sz t \<longleftrightarrow>
     N \<le> length buf0 \<and> length buf = length buf0 \<and> drop N buf = drop N buf0
     \<and> dst + unat sz = N \<and> length t = dst \<and> take dst buf = t"

definition kept :: "nat \<Rightarrow> char list \<Rightarrow> char list \<Rightarrow> bool" where
  "kept N buf0 buf \<longleftrightarrow> length buf = length buf0 \<and> drop N buf = drop N buf0"

lemma printed_kept: "printed N buf0 buf dst sz t \<Longrightarrow> kept N buf0 buf"
  by (simp add: printed_def kept_def)

lemma unat_sub_len: "k \<le> unat (sz :: u64) \<Longrightarrow> unat (sz - of_nat k) = unat sz - k"
  by (metis le_unat_uoi unat_sub word_le_nat_alt)

lemma printed_store:
  assumes p: "printed N buf0 buf dst sz t" and y: "length (x @ y) \<le> unat sz"
  obtains buf' where "store_at buf dst (x @ y) = Some buf'"
    "printed N buf0 buf' (dst + length x) (sz - of_nat (length x)) (t @ x)" "buf' = t @ x @ y @ drop (dst + length (x @ y)) buf"
proof -
  let ?b = "take dst buf @ (x @ y) @ drop (dst + length (x @ y)) buf"
  have fit: "dst + length (x @ y) \<le> N" "N \<le> length buf" using p y by (simp_all add: printed_def)
  then have "store_at buf dst (x @ y) = Some ?b" by (simp add: store_at_Some)
  moreover have "drop N ?b = drop N buf" using fit by (simp add: min_absorb2)
  moreover have "unat (sz - of_nat (length x)) = unat sz - length x" using y by (intro unat_sub_len) simp
  ultimately show thesis using p y fit by (intro that [of ?b]) (simp_all add: printed_def)
qed

lemma sprintf_u_printed:
  assumes "printed N buf0 buf dst sz t" "length (dec n) < unat sz"
  obtains buf' where "sprintf_u buf dst n = Some (buf', dst + length (dec n))"
    "printed N buf0 buf' (dst + length (dec n)) (sz - of_nat (length (dec n))) (t @ dec n)" "buf' ! (dst + length (dec n)) = NUL"
proof -
  have "length (dec n @ [NUL]) \<le> unat sz" using assms(2) by simp
  from printed_store [OF assms(1) this] obtain buf' where b: "store_at buf dst (dec n @ [NUL]) = Some buf'"
    "printed N buf0 buf' (dst + length (dec n)) (sz - of_nat (length (dec n))) (t @ dec n)"
    "buf' = t @ dec n @ [NUL] @ drop (dst + length (dec n @ [NUL])) buf" .
  moreover have "length t = dst" using assms(1) by (simp add: printed_def)
  then have "buf' ! (dst + length (dec n)) = NUL" unfolding b(3) by (auto simp: nth_append)
  ultimately show thesis by (intro that) (simp_all add: sprintf_u_def)
qed

lemma put_char_printed:
  assumes p: "printed N buf0 buf dst sz t" and room: "1 < unat sz"
  obtains buf' where "put_char buf dst c = Some (buf', dst + 1)" "printed N buf0 buf' (dst + 1) (sz - 1) (t @ [c])"
    "buf' ! (dst + 1) = NUL"
proof -
  have "length ([c] @ []) \<le> unat sz" using room by simp
  from printed_store [OF p this] obtain b1 where b1: "store_at buf dst [c] = Some b1" "printed N buf0 b1 (dst + 1) (sz - 1) (t @ [c])"
    unfolding append_Nil2 One_nat_def [symmetric] list.size add_0 of_nat_1 .
  have "unat (sz - 1) = unat sz - 1" using unat_sub_len [of 1 sz] room by simp
  then have "length ([] @ [NUL]) \<le> unat (sz - 1)" using room by simp
  from printed_store [OF b1(2) this] obtain b2 where b2: "store_at b1 (dst + 1) ([] @ [NUL]) = Some b2"
    "printed N buf0 b2 (dst + 1 + length ([] :: string)) (sz - 1 - of_nat (length ([] :: string))) ((t @ [c]) @ [])"
    "b2 = (t @ [c]) @ [] @ [NUL] @ drop (dst + 1 + length ([] @ [NUL])) b1" .
  have "length t = dst" using p by (simp add: printed_def)
  then have "b2 ! (dst + 1) = NUL" unfolding b2(3) by (auto simp: nth_append)
  then show thesis using that b1(1) b2 by (simp add: put_char_def)
qed

lemma word_less_5: "sz < 5 \<longleftrightarrow> unat (sz :: u64) < 5" "sz < 4 \<longleftrightarrow> unat sz < 4" "sz < 2 \<longleftrightarrow> unat sz < 2" "sz < 8 \<longleftrightarrow> unat sz < 8"
  by (simp_all add: word_less_nat_alt)

text \<open>One octet and the dot behind it, if there is one.\<close>

lemma octet_printed:
  assumes p: "printed N buf0 buf dst sz t" and room: "5 \<le> unat sz" and n: "n < 1000"
  obtains b1 buf' where "sprintf_u buf dst n = Some (b1, dst + length (dec n))"
    "(if d then put_char b1 (dst + length (dec n)) CHR ''.'' else Some (b1, dst + length (dec n)))
       = Some (buf', dst + length (dec n @ (if d then ''.'' else [])))"
    "printed N buf0 buf' (dst + length (dec n @ (if d then ''.'' else [])))
       (sz - of_nat (length (dec n @ (if d then ''.'' else [])))) (t @ dec n @ (if d then ''.'' else []))"
    "buf' ! (dst + length (dec n @ (if d then ''.'' else []))) = NUL"
proof -
  have l: "length (dec n) \<le> 3" using n by (rule length_dec)
  then have "length (dec n) < unat sz" using room by simp
  from sprintf_u_printed [OF p this] obtain b1 where b1: "sprintf_u buf dst n = Some (b1, dst + length (dec n))"
    "printed N buf0 b1 (dst + length (dec n)) (sz - of_nat (length (dec n))) (t @ dec n)" "b1 ! (dst + length (dec n)) = NUL" .
  show thesis
  proof (cases d)
    case True
    have "1 < unat (sz - of_nat (length (dec n)))" using unat_sub_len [of "length (dec n)" sz] l room by simp
    from put_char_printed [OF b1(2) this] obtain b2 where "put_char b1 (dst + length (dec n)) CHR ''.'' = Some (b2, dst + length (dec n) + 1)"
      "printed N buf0 b2 (dst + length (dec n) + 1) (sz - of_nat (length (dec n)) - 1) ((t @ dec n) @ ''.'')"
      "b2 ! (dst + length (dec n) + 1) = NUL" .
    then show ?thesis using that b1(1) True by (simp add: algebra_simps)
  qed (use that b1 in simp)
qed

lemma net_octets_run:
  assumes "b \<le> length src" "printed N buf0 buf dst sz t"
  shows "\<exists>buf' r. net_octets b src buf dst sz = Some (buf', r)
    \<and> (case r of
          None \<Rightarrow> kept N buf0 buf' \<and> unat sz \<le> 4 * b
        | Some (src', dst', sz') \<Rightarrow> src' = drop b src \<and> printed N buf0 buf' dst' sz' (t @ dot_join (map unat (take b src)))
            \<and> length (dot_join (map unat (take b src))) \<le> 4 * b - 1)"
  using assms
proof (induction b arbitrary: src buf dst sz t)
  case (Suc b)
  then obtain w ws where src: "src = w # ws" by (cases src) auto
  let ?d = "1 < Suc b"
  let ?t = "dec (unat w) @ (if ?d then ''.'' else [])"
  show ?case
  proof (cases "unat sz < 5")
    case True
    then show ?thesis using printed_kept [OF Suc.prems(2)] by (simp add: word_less_5)
  next
    case False
    then have room: "5 \<le> unat sz" by simp
    have w: "unat w < 1000" using unat_le_u8 [of w] by simp
    obtain b0 b1 where b0: "sprintf_u buf dst (unat w) = Some (b0, dst + length (dec (unat w)))"
      "(if ?d then put_char b0 (dst + length (dec (unat w))) CHR ''.'' else Some (b0, dst + length (dec (unat w))))
        = Some (b1, dst + length ?t)" and b1: "printed N buf0 b1 (dst + length ?t) (sz - of_nat (length ?t)) (t @ ?t)"
      using octet_printed [OF Suc.prems(2) room w, of ?d] by blast
    have step: "net_octets (Suc b) src buf dst sz = net_octets b ws b1 (dst + length ?t) (sz - of_nat (length ?t))"
      using b0 False unfolding src by (simp add: word_less_5 load_at_def Let_def)
    have l: "length ?t \<le> (if 0 < b then 4 else 3)" "length ?t \<le> 4" using length_dec_u8 [of w] by simp_all
    have j: "dot_join (map unat (take (Suc b) src)) = ?t @ dot_join (map unat (take b ws))"
      using Suc.prems src by (cases b; cases ws) auto
    have "unat sz \<le> 4 * Suc b" if "unat (sz - of_nat (length ?t)) \<le> 4 * b"
      using that unat_sub_len [of "length ?t" sz] l(2) room by simp
    moreover have "length (dot_join (map unat (take (Suc b) src))) \<le> 4 * Suc b - 1"
      if "length (dot_join (map unat (take b ws))) \<le> 4 * b - 1" using that l(1) unfolding j by (cases b) auto
    ultimately show ?thesis unfolding step j
      using Suc.IH [of ws b1 "dst + length ?t" "sz - of_nat (length ?t)" "t @ ?t"] Suc.prems(1) b1 src
      by (fastforce split: option.splits prod.splits)
  qed
qed (use printed_kept in simp)

lemma masked_le: "unat (ucast (w :: u8) AND (m :: u32)) \<le> 255"
proof -
  have "unat (ucast w AND m) \<le> unat (ucast w :: u32)" by (simp add: word_le_nat_alt [symmetric] word_and_le2)
  also have "\<dots> = unat w" using unat_le_u8 [of w] by (intro unat_ucast_small) simp
  finally show ?thesis using unat_le_u8 [of w] by linarith
qed

lemma net_partial_run:
  assumes p: "printed N buf0 buf dst sz t" and src: "0 < b \<longrightarrow> src \<noteq> []"
  shows "\<exists>buf' r. net_partial b src buf dst sz = Some (buf', r)
    \<and> (case r of
          None \<Rightarrow> kept N buf0 buf' \<and> unat sz < 5 \<and> 0 < b
        | Some (dst', sz') \<Rightarrow> printed N buf0 buf' dst' sz'
            (t @ (if 0 < b then (if t \<noteq> [] then ''.'' else []) @ dec (unat (ucast (hd src) AND net_mask b)) else [])))"
proof (cases "0 < b \<and> 5 \<le> unat sz")
  case False
  then show ?thesis using p printed_kept [OF p] by (cases "0 < b") (simp_all add: net_partial_def word_less_5)
next
  case True
  let ?n = "unat (ucast (hd src) AND net_mask b)" and ?dot = "if t \<noteq> [] then ''.'' else []"
  obtain c cs where c: "src = c # cs" using True src by (cases src) auto
  have l: "length (dec ?n) \<le> 3" using masked_le [of "hd src" "net_mask b"] by (intro length_dec) simp
  have dst: "dst = 0 \<longleftrightarrow> t = []" using p by (auto simp: printed_def)
  have "length (?dot @ []) \<le> unat sz" using True by simp
  from printed_store [OF p this] obtain b1 where b1: "store_at buf dst (?dot @ []) = Some b1"
    "printed N buf0 b1 (dst + length ?dot) (sz - of_nat (length ?dot)) (t @ ?dot)" .
  have "unat (sz - of_nat (length ?dot)) = unat sz - length ?dot" using True by (intro unat_sub_len) simp
  moreover have "length ?dot \<le> 1" by simp
  ultimately have "length (dec ?n) < unat (sz - of_nat (length ?dot))" using True l by linarith
  from sprintf_u_printed [OF b1(2) this] obtain b2 where b2: "sprintf_u b1 (dst + length ?dot) ?n = Some (b2, dst + length ?dot + length (dec ?n))"
    "printed N buf0 b2 (dst + length ?dot + length (dec ?n)) (sz - of_nat (length ?dot) - of_nat (length (dec ?n))) ((t @ ?dot) @ dec ?n)" by blast
  have first: "(if dst \<noteq> 0 then do { buf \<leftarrow> store_at buf dst ''.''; Some (buf, dst + 1) } else Some (buf, dst)) = Some (b1, dst + length ?dot)"
    using b1(1) dst p by (cases "t = []") (auto simp: store_at_def printed_def split: if_splits)
  have "net_partial b src buf dst sz = Some (b2, Some (dst + length ?dot + length (dec ?n), sz - of_nat (length ?dot) - of_nat (length (dec ?n))))"
    unfolding net_partial_def first using True b2(1) c by (simp add: word_less_5 load_at_def Let_def algebra_simps)
  then show ?thesis using b2(2) True by simp
qed

text \<open>The bytes of a network number: the whole octets and the significant bits of the next one.\<close>

definition net_bytes :: "u8 list \<Rightarrow> nat \<Rightarrow> nat list" where
  "net_bytes src bits =
     (if bits = 0 then [0]
      else map unat (take (bits div 8) src)
        @ (if 0 < bits mod 8 then [unat (ucast (src ! (bits div 8)) AND net_mask (bits mod 8))] else []))"

lemma net_bytes_le: "list_all (\<lambda>n. n \<le> 255) (net_bytes src bits)"
  by (auto simp: net_bytes_def list_all_iff unat_le_u8 masked_le)

lemma length_net_bytes:
  assumes "bits \<le> 8 * length src"
  shows "length (net_bytes src bits) = (if bits = 0 then 1 else (bits + 7) div 8)"
proof -
  define q r where "q = bits div 8" and "r = bits mod 8"
  have "8 * q + r = bits" "r < 8" by (simp_all add: q_def r_def)
  then show ?thesis using assms by (auto simp: net_bytes_def q_def [symmetric] r_def [symmetric])
qed

lemma dot_join_snoc: "ns \<noteq> [] \<Longrightarrow> dot_join (ns @ [n]) = dot_join ns @ ''.'' @ dec n"
proof (induction ns rule: dot_join.induct)
  case (3 k m ns)
  then show ?case by (cases ns) auto
qed auto

lemma length_dot_join: "list_all (\<lambda>n. n \<le> 255) ns \<Longrightarrow> length (dot_join ns) \<le> 4 * length ns - 1"
proof (induction ns rule: dot_join.induct)
  case (2 n)
  then show ?case using length_dec(1) [of n] by simp
next
  case (3 n m ns)
  then show ?case using length_dec(1) [of n] by simp
qed simp

lemma net_bytes_text:
  assumes "bits \<le> 8 * length src"
  defines "ot \<equiv> dot_join (map unat (take (bits div 8) src))"
  shows "dot_join (net_bytes src bits) = (if bits = 0 then ''0'' else []) @ ot
    @ (if 0 < bits mod 8 then (if (if bits = 0 then ''0'' else []) @ ot \<noteq> [] then ''.'' else [])
        @ dec (unat (ucast (hd (drop (bits div 8) src)) AND net_mask (bits mod 8))) else [])"
proof (cases "bits mod 8 = 0")
  case True
  then show ?thesis by (auto simp: net_bytes_def ot_def dec_0)
next
  case False
  then have lt: "bits div 8 < length src" using assms(1) mult_div_mod_eq [of 8 bits] by linarith
  have "ot = [] \<longleftrightarrow> bits div 8 = 0" using lt by (auto simp: ot_def)
  moreover have "bits \<noteq> 0" using False by (cases bits) simp_all
  ultimately show ?thesis
    unfolding hd_drop_conv_nth [OF lt] net_bytes_def
    using False dot_join_snoc [of "map unat (take (bits div 8) src)"] by (cases "bits div 8 = 0") (simp_all add: ot_def)
qed

text \<open>The width behind the slash.\<close>

lemma net_width_run:
  assumes p: "printed (unat sz0) buf0 buf dst sz (dot_join (net_bytes src bits))" and bits: "bits \<le> 32" "bits \<le> 8 * length src"
  defines "t \<equiv> dot_join (net_bytes src bits) @ ''/'' @ dec bits"
  shows "\<exists>buf' e. (if sz < 4 then Some (buf, Some EMSGSIZE)
      else do { buf \<leftarrow> store_at buf dst (''/'' @ dec bits @ [NUL]); Some (buf, None) }) = Some (buf', e) \<and> kept (unat sz0) buf0 buf'
    \<and> (case e of None \<Rightarrow> length t < unat sz0 \<and> take (Suc (length t)) buf' = t @ [NUL] | Some e \<Rightarrow> e = EMSGSIZE \<and> unat sz0 < 19)"
proof (cases "unat sz < 4")
  case True
  have "length (net_bytes src bits) \<le> 4" using bits by (auto simp: length_net_bytes [OF bits(2)])
  then have "dst \<le> 15" using length_dot_join [OF net_bytes_le, of src bits] p by (simp add: printed_def)
  then have "unat sz0 < 19" using p True by (simp add: printed_def)
  then show ?thesis using True printed_kept [OF p] by (simp add: word_less_5)
next
  case False
  let ?tail = "''/'' @ dec bits"
  have l: "length (?tail @ [NUL]) \<le> unat sz" using False length_dec(2) [of bits] bits by simp
  from printed_store [OF p l] obtain b where b: "store_at buf dst (?tail @ [NUL]) = Some b"
    "printed (unat sz0) buf0 b (dst + length ?tail) (sz - of_nat (length ?tail)) (dot_join (net_bytes src bits) @ ?tail)"
    "b = dot_join (net_bytes src bits) @ ?tail @ [NUL] @ drop (dst + length (?tail @ [NUL])) buf" .
  have "length t < unat sz0" using p l by (simp add: printed_def t_def)
  moreover have "take (Suc (length t)) b = t @ [NUL]" unfolding b(3) t_def by simp
  ultimately show ?thesis using False b(1) printed_kept [OF b(2)] by (simp add: word_less_5)
qed

lemma inet_net_ntop_text:
  assumes bits: "bits \<le> 32" "bits \<le> 8 * length src" and sz: "unat sz \<le> length buf"
  defines "t \<equiv> dot_join (net_bytes src bits) @ ''/'' @ dec bits"
  shows "\<exists>buf' e. inet_net_ntop_ipv4 src (int bits) buf sz = Some (buf', e) \<and> kept (unat sz) buf buf'
    \<and> (case e of None \<Rightarrow> length t < unat sz \<and> take (Suc (length t)) buf' = t @ [NUL] | Some e \<Rightarrow> e = EMSGSIZE \<and> unat sz < 19)"
proof (cases "bits = 0 \<and> sz < 2")
  case True
  then show ?thesis by (simp add: inet_net_ntop_ipv4_def kept_def word_less_5)
next
  case no: False
  let ?N = "unat sz" and ?b = "bits div 8" and ?r = "bits mod 8" and ?t0 = "if bits = 0 then ''0'' else []"
  let ?ot = "dot_join (map unat (take ?b src))" and ?tail = "''/'' @ dec bits"
  have qr: "8 * ?b + ?r = bits" by simp
  then have b: "?b \<le> 4" "0 < ?r \<Longrightarrow> ?b < 4" using bits(1) by linarith+
  have ints: "nat (int bits div 8) = ?b" "nat (int bits mod 8) = ?r" by (simp_all add: nat_div_distrib nat_mod_distrib)
  have neg: "\<not> (int bits < 0 \<or> 32 < int bits)" "\<not> (int bits = 0 \<and> sz < 2)" using bits no by simp_all
  have p0: "printed ?N buf buf 0 sz []" using sz by (simp add: printed_def)
  obtain b0 d0 z0 where start: "(if int bits = 0 then do { (buf, dst) \<leftarrow> put_char buf 0 CHR ''0''; Some (buf, dst, sz - 1) } else Some (buf, 0, sz))
      = Some (b0, d0, z0)" "printed ?N buf b0 d0 z0 ?t0"
  proof (cases "bits = 0")
    case True
    then have "1 < unat sz" using no by (simp add: word_less_5)
    from put_char_printed [OF p0 this] obtain b1 where "put_char buf 0 CHR ''0'' = Some (b1, 0 + 1)" "printed ?N buf b1 (0 + 1) (sz - 1) ([] @ ''0'')" by blast
    then show ?thesis by (intro that [of b1 1 "sz - 1"]) (simp_all add: True)
  qed (use that p0 in simp)
  note run = inet_net_ntop_ipv4_def [of src "int bits" buf sz, unfolded if_not_P [OF neg(1)] if_not_P [OF neg(2)] start(1) ints]
  have z0: "d0 + unat z0 = ?N" "d0 = length ?t0" using start(2) by (auto simp: printed_def)
  have "?b \<le> length src" using bits qr by linarith
  from net_octets_run [OF this start(2)] obtain b1 r1 where oct: "net_octets ?b src b0 d0 z0 = Some (b1, r1)"
    "case r1 of None \<Rightarrow> kept ?N buf b1 \<and> unat z0 \<le> 4 * ?b
      | Some (src', dst', sz') \<Rightarrow> src' = drop ?b src \<and> printed ?N buf b1 dst' sz' (?t0 @ ?ot) \<and> length ?ot \<le> 4 * ?b - 1" by blast
  show ?thesis
  proof (cases r1)
    case None
    then have "?N < 19" using oct(2) z0 b(1) by (simp split: if_splits)
    then show ?thesis using oct None by (simp add: run)
  next
    case (Some x)
    then obtain d1 z1 where r1: "r1 = Some (drop ?b src, d1, z1)" and p1: "printed ?N buf b1 d1 z1 (?t0 @ ?ot)" "length ?ot \<le> 4 * ?b - 1"
      using oct(2) by (cases x) auto
    have "0 < ?r \<Longrightarrow> ?b < length src" using bits(2) qr by linarith
    then have "0 < ?r \<longrightarrow> drop ?b src \<noteq> []" by (simp add: not_le)
    from net_partial_run [OF p1(1) this] obtain b2 r2 where part: "net_partial ?r (drop ?b src) b1 d1 z1 = Some (b2, r2)"
      "case r2 of None \<Rightarrow> kept ?N buf b2 \<and> unat z1 < 5 \<and> 0 < ?r
        | Some (dst', sz') \<Rightarrow> printed ?N buf b2 dst' sz' (dot_join (net_bytes src bits))"
      unfolding net_bytes_text [OF bits(2)] append_assoc by blast
    show ?thesis
    proof (cases r2)
      case None
      have "d1 + unat z1 = ?N" "d1 = length (?t0 @ ?ot)" using p1(1) by (auto simp: printed_def)
      then have "?N < 19" using part(2) None p1(2) b by (simp split: if_splits)
      then show ?thesis using oct(1) part r1 None by (simp add: run)
    next
      case (Some y)
      then obtain d2 z2 where r2: "r2 = Some (d2, z2)" and p2: "printed ?N buf b2 d2 z2 (dot_join (net_bytes src bits))"
        using part(2) by (cases y) auto
      have "inet_net_ntop_ipv4 src (int bits) buf sz = (if z2 < 4 then Some (b2, Some EMSGSIZE)
          else do { buf \<leftarrow> store_at b2 d2 (''/'' @ dec bits @ [NUL]); Some (buf, None) })"
        using oct(1) part(1) r1 r2 by (simp add: run)
      then show ?thesis unfolding t_def by (simp only: net_width_run [OF p2 bits])
    qed
  qed
qed

text \<open>The bytes read back, bit by bit: bit \<open>i\<close> of a network number, the first one highest.\<close>

definition net_bit :: "u8 list \<Rightarrow> nat \<Rightarrow> bool" where
  "net_bit bs i \<longleftrightarrow> bit (bs ! (i div 8)) (7 - i mod 8)"

lemma bit_net_mask: "bit (net_mask r) k \<longleftrightarrow> 8 - r \<le> k \<and> k < 32 \<and> k - (8 - r) < r"
proof -
  have "push_bit r 1 - 1 = (mask r :: u32)" by (simp add: mask_eq_exp_minus_1 push_bit_eq_mult)
  then show ?thesis by (auto simp: net_mask_def bit_simps)
qed

lemma net_bit_net_bytes:
  assumes "bits \<le> 8 * length src" "i < 8 * length (net_bytes src bits)"
  shows "net_bit (map of_nat (net_bytes src bits)) i \<longleftrightarrow> i < bits \<and> net_bit src i"
proof (cases "bits = 0")
  case True
  then show ?thesis using assms(2) by (simp add: net_bit_def net_bytes_def)
next
  case False
  define q r j k where "q = bits div 8" and "r = bits mod 8" and "j = i div 8" and "k = i mod 8"
  have d: "8 * q + r = bits" "r < 8" "8 * j + k = i" "k < 8" by (simp_all add: q_def r_def j_def k_def)
  have b: "net_bytes src bits = map unat (take q src) @ (if 0 < r then [unat (ucast (src ! q) AND net_mask r)] else [])"
    using False by (simp add: net_bytes_def q_def r_def)
  have q: "q \<le> length src" using d assms(1) by linarith
  have j: "j < length (net_bytes src bits)" using assms(2) d by linarith
  show ?thesis
  proof (cases "j < q")
    case True
    then have "map of_nat (net_bytes src bits) ! j = src ! j" using q by (simp add: b nth_append)
    moreover have "i < bits" using True d by linarith
    ultimately show ?thesis by (simp add: net_bit_def j_def [symmetric])
  next
    case False
    then have jq: "j = q" "0 < r" using j q by (auto simp: b split: if_splits)
    have "map of_nat (net_bytes src bits) ! j = (ucast (ucast (src ! q) AND net_mask r) :: u8)"
      using q jq by (simp add: b nth_append min_absorb2)
    moreover have "i < bits \<longleftrightarrow> 8 - r \<le> 7 - k \<and> 7 - k < 32 \<and> 7 - k - (8 - r) < r" using d jq by auto
    ultimately show ?thesis using d jq
      by (auto simp: net_bit_def j_def [symmetric] k_def [symmetric] bit_simps bit_net_mask)
  qed
qed

text \<open>The octets that \<open>inet_neta\<close> prints: those that are not zero.\<close>

definition neta_bytes :: "u32 \<Rightarrow> nat list" where
  "neta_bytes src = filter (\<lambda>n. n \<noteq> 0) (map (\<lambda>i. unat (ucast (drop_bit i src) :: u8)) [24, 16, 8, 0])"

primrec neta_octets :: "nat \<Rightarrow> u32 \<Rightarrow> nat list" where
  "neta_octets 0 src = []"
| "neta_octets (Suc k) src =
     (let b = unat (ucast (drop_bit 24 src) :: u8) in (if b \<noteq> 0 then [b] else []) @ neta_octets k (push_bit 8 src))"

lemma neta_octet: "ucast (drop_bit 24 (src AND 0xff000000)) = (ucast (drop_bit 24 (src :: u32)) :: u8)"
proof -
  have m: "(0xff000000 :: u32) = push_bit 24 (mask 8)" by (simp add: mask_eq_exp_minus_1 push_bit_eq_mult)
  show ?thesis unfolding m by (rule bit_word_eqI) (auto simp: bit_simps)
qed

lemma neta_octets_bytes: "neta_octets 4 src = neta_bytes src"
proof -
  have "(ucast (drop_bit 24 (push_bit 8 src)) :: u8) = ucast (drop_bit 16 src)"
    "(ucast (drop_bit 24 (push_bit 16 src)) :: u8) = ucast (drop_bit 8 src)"
    "(ucast (drop_bit 24 (push_bit 24 src)) :: u8) = ucast src"
    by (rule bit_word_eqI; auto simp: bit_simps)+
  then show ?thesis by (simp add: neta_bytes_def numeral_eq_Suc Let_def)
qed

lemma neta_octets_zero: "push_bit (8 * k) src = 0 \<Longrightarrow> neta_octets k src = [] \<longleftrightarrow> src = 0"
proof (induction k arbitrary: src)
  case (Suc k)
  have "src = 0" if hi: "(ucast (drop_bit 24 src) :: u8) = 0" and lo: "push_bit 8 src = 0"
  proof (rule bit_word_eqI)
    fix n
    assume "n < LENGTH(32)"
    then show "bit src n \<longleftrightarrow> bit 0 n"
      using arg_cong [OF hi, of "\<lambda>w. bit w (n - 24)"] arg_cong [OF lo, of "\<lambda>w. bit w (n + 8)"] by (cases "24 \<le> n") (auto simp: bit_simps)
  qed
  moreover have "push_bit (8 * k) (push_bit 8 src) = 0" using Suc.prems by (simp add: add.commute)
  ultimately show ?case using Suc.IH [of "push_bit 8 src"] by (auto simp: Let_def unat_eq_0)
qed simp

text \<open>A text is followed by its NUL.\<close>

definition ended :: "char list \<Rightarrow> nat \<Rightarrow> u64 \<Rightarrow> bool" where
  "ended buf dst sz \<longleftrightarrow> dst = 0 \<or> 0 < unat sz \<and> buf ! dst = NUL"

lemma and_all_ones: "src AND 0xffffffff = (src :: u32)"
proof -
  have m: "(0xffffffff :: u32) = mask 32" by (simp add: mask_eq_exp_minus_1)
  show ?thesis unfolding m by (rule bit_word_eqI) (auto simp: bit_simps)
qed

lemma neta_loop_run:
  assumes "printed N buf0 buf dst sz t" "ended buf dst sz" "push_bit (8 * k) src = 0"
  shows "\<exists>buf' r. neta_loop k src buf dst sz = Some (buf', r)
    \<and> (case r of
          None \<Rightarrow> kept N buf0 buf' \<and> unat sz \<le> 4 * k
        | Some (dst', sz') \<Rightarrow> printed N buf0 buf' dst' sz' (t @ dot_join (neta_octets k src)) \<and> ended buf' dst' sz')"
  using assms
proof (induction k arbitrary: src buf dst sz t)
  case (Suc k)
  let ?b = "ucast (drop_bit 24 src) :: u8" and ?s = "push_bit 8 src"
  let ?t = "dec (unat ?b) @ (if ?s \<noteq> 0 then ''.'' else [])"
  note run = neta_loop.simps(2) [of k src buf dst sz, unfolded and_all_ones neta_octet Let_def]
  have zero: "push_bit (8 * k) ?s = 0" using Suc.prems(3) by (simp add: add.commute)
  consider "src = 0" | "src \<noteq> 0" "?b = 0" | "src \<noteq> 0" "?b \<noteq> 0" "unat sz < 5" | "src \<noteq> 0" "?b \<noteq> 0" "5 \<le> unat sz" by linarith
  then show ?case
  proof cases
    case 1
    then have "neta_octets (Suc k) src = []" using neta_octets_zero [OF Suc.prems(3)] by blast
    then show ?thesis using 1 Suc.prems by (simp del: neta_octets.simps)
  next
    case 2
    have "neta_loop (Suc k) src buf dst sz = neta_loop k ?s buf dst sz" unfolding run using 2 by simp
    moreover have "neta_octets (Suc k) src = neta_octets k ?s" using 2 by simp
    ultimately show ?thesis using Suc.IH [OF Suc.prems(1,2) zero] by (fastforce split: option.splits prod.splits)
  next
    case 3
    then show ?thesis unfolding run using printed_kept [OF Suc.prems(1)] by (simp add: word_less_5)
  next
    case 4
    have w: "unat ?b < 1000" using unat_le_u8 [of ?b] by simp
    from octet_printed [OF Suc.prems(1) 4(3) w, of "?s \<noteq> 0"] obtain b0 b1
      where b0: "sprintf_u buf dst (unat ?b) = Some (b0, dst + length (dec (unat ?b)))"
      "(if ?s \<noteq> 0 then put_char b0 (dst + length (dec (unat ?b))) CHR ''.'' else Some (b0, dst + length (dec (unat ?b))))
        = Some (b1, dst + length ?t)" and b1: "printed N buf0 b1 (dst + length ?t) (sz - of_nat (length ?t)) (t @ ?t)"
      "b1 ! (dst + length ?t) = NUL" .
    have step: "neta_loop (Suc k) src buf dst sz = neta_loop k ?s b1 (dst + length ?t) (sz - of_nat (length ?t))"
      unfolding run using b0 4 by (simp add: word_less_5)
    have l: "length ?t \<le> 4" using length_dec_u8 [of ?b] by simp
    then have u: "unat (sz - of_nat (length ?t)) = unat sz - length ?t" using 4(3) by (intro unat_sub_len) simp
    then have e: "ended b1 (dst + length ?t) (sz - of_nat (length ?t))" using b1(2) l 4(3) by (simp add: ended_def)
    have "dot_join (neta_octets (Suc k) src) = ?t @ dot_join (neta_octets k ?s)"
      using 4 neta_octets_zero [OF zero] by (cases "neta_octets k ?s") (auto simp: Let_def unat_eq_0)
    moreover have "unat sz \<le> 4 * Suc k" if "unat (sz - of_nat (length ?t)) \<le> 4 * k" using that u l 4(3) by simp
    ultimately show ?thesis unfolding step using Suc.IH [OF b1(1) e zero] by (fastforce split: option.splits prod.splits)
  qed
qed simp

definition neta_text :: "u32 \<Rightarrow> string" where
  "neta_text src = (if src = 0 then ''0.0.0.0'' else dot_join (neta_bytes src))"

lemma inet_neta_text:
  fixes src :: u32
  assumes sz: "unat sz \<le> length buf"
  defines "t \<equiv> neta_text src"
  shows "\<exists>buf' e. inet_neta src buf sz = Some (buf', e) \<and> kept (unat sz) buf buf'
    \<and> (case e of None \<Rightarrow> length t < unat sz \<and> take (Suc (length t)) buf' = t @ [NUL] | Some e \<Rightarrow> e = EMSGSIZE \<and> unat sz < 17)"
proof -
  have p: "printed (unat sz) buf buf 0 sz []" and e: "ended buf 0 sz" using sz by (simp_all add: printed_def ended_def)
  have z: "push_bit (8 * 4) src = 0" by (rule bit_word_eqI) (auto simp: bit_simps)
  from neta_loop_run [OF p e z] obtain b1 r where run: "neta_loop 4 src buf 0 sz = Some (b1, r)"
    "case r of None \<Rightarrow> kept (unat sz) buf b1 \<and> unat sz \<le> 4 * 4
      | Some (dst', sz') \<Rightarrow> printed (unat sz) buf b1 dst' sz' ([] @ dot_join (neta_bytes src)) \<and> ended b1 dst' sz'"
    unfolding neta_octets_bytes by blast
  have nil: "neta_bytes src = [] \<longleftrightarrow> src = 0" using neta_octets_zero [OF z] by (simp add: neta_octets_bytes)
  show ?thesis
  proof (cases r)
    case None
    then show ?thesis using run by (simp add: inet_neta_def)
  next
    case (Some x)
    then obtain d z where r: "r = Some (d, z)" and p1: "printed (unat sz) buf b1 d z (dot_join (neta_bytes src))" "ended b1 d z"
      using run(2) by (cases x) auto
    then have d: "d = length (dot_join (neta_bytes src))" "d + unat z = unat sz" "unat sz \<le> length b1" "take d b1 = dot_join (neta_bytes src)"
      by (simp_all add: printed_def)
    show ?thesis
    proof (cases "src = 0")
      case False
      then have "take (Suc d) b1 = dot_join (neta_bytes src) @ [NUL]" "d < unat sz" "d \<noteq> 0"
        using p1(2) d nil by (auto simp: ended_def take_Suc_conv_app_nth)
      then show ?thesis using False run(1) r d(1) printed_kept [OF p1(1)] by (simp add: inet_neta_def t_def neta_text_def)
    next
      case zero: True
      then have d0: "d = 0" "unat z = unat sz" using d nil by simp_all
      show ?thesis
      proof (cases "unat z < 8")
        case True
        then show ?thesis using run(1) r d0 printed_kept [OF p1(1)] by (simp add: inet_neta_def word_less_5)
      next
        case False
        then have "length (''0.0.0.0'' @ [NUL]) \<le> unat z" by simp
        from printed_store [OF p1(1) this] obtain b2 where b2: "store_at b1 d (''0.0.0.0'' @ [NUL]) = Some b2"
          "printed (unat sz) buf b2 (d + length ''0.0.0.0'') (z - of_nat (length ''0.0.0.0'')) (dot_join (neta_bytes src) @ ''0.0.0.0'')"
          "b2 = dot_join (neta_bytes src) @ ''0.0.0.0'' @ [NUL] @ drop (d + length (''0.0.0.0'' @ [NUL])) b1" .
        have "inet_neta src buf sz = Some (b2, None)" using run(1) r d0 False b2(1) by (simp add: inet_neta_def word_less_5)
        moreover have "take (Suc (length ''0.0.0.0'')) b2 = ''0.0.0.0'' @ [NUL]" using zero nil unfolding b2(3) by simp
        ultimately show ?thesis using printed_kept [OF b2(2)] zero False d0 by (simp add: t_def neta_text_def)
      qed
    qed
  qed
qed

lemma inet_net_pton_text:
  assumes "ns \<noteq> []" "list_all (\<lambda>n. n \<le> 255) ns" "length ns \<le> sz" "bits \<le> 32" "bits \<le> 8 * length ns"
  shows "inet_net_pton_ipv4 (dot_join ns @ ''/'' @ dec bits) sz = Inr (int bits, map of_nat ns)"
proof -
  obtain n ns' where ns: "ns = n # ns'" using assms(1) by (cases ns) auto
  obtain d ds where d: "dot_join ns = d # ds" "d = hd (dec n)" using dot_join_first [of n ns'] ns by metis
  have dig: "isascii d \<and> isdigit d" using dec_first [of n] dec_digits [of n] isdigit_of_digit_in d(2) by (cases "dec n") auto
  have nox: "\<not> (d = CHR ''0'' \<and> (char_at (ds @ ''/'' @ dec bits) 0 = CHR ''x'' \<or> char_at (ds @ ''/'' @ dec bits) 0 = CHR ''X''))"
    using d ns dec_first [of n] dec_0 by (cases ns') auto
  have run: "net_decimal (ds @ ''/'' @ dec bits) d sz [] = Inr (CHR ''/'', dec bits, sz - length ns, map of_nat ns)"
    using net_decimal_join [OF assms(1-3), of "dec bits" "[]"] d by simp
  obtain e es where e: "dec bits = e # es" "isascii e" "isdigit e"
    using dec_first [of bits] dec_digits [of bits] isdigit_of_digit_in by (cases "dec bits") auto
  have w: "net_width es e 0 = (of_nat bits, NUL)" using net_width_dec [of bits] e by simp
  have s: "sint (of_nat bits :: u32) = int bits" using assms(4) by (simp add: signed_of_nat signed_take_bit_int_eq_self)
  have ext: "net_extend (int bits) k (map of_nat ns) = Some (map of_nat ns)" for k
    using assms(5) by (subst net_extend.simps) simp
  show ?thesis
    unfolding inet_net_pton_ipv4_def Let_def d(1)
    using nox dig run e w s ext assms(1,4) by (auto simp: NUL_def)
qed

lemma dec_no_NUL: "NUL \<notin> set (dec n)"
  using dec_digits [of n] isdigit_of_digit_in [of NUL] by (auto simp: list_all_iff isdigit_def NUL_def)

lemma dot_join_no_NUL: "NUL \<notin> set (dot_join ns)"
proof (induction ns rule: dot_join.induct)
  case (2 n)
  then show ?case using dec_no_NUL [of n] by simp
next
  case (3 n m ns)
  then show ?case using dec_no_NUL [of n] by (simp add: NUL_def)
qed simp

lemma takeWhile_text:
  assumes "take (Suc (length t)) buf = t @ [NUL]" "NUL \<notin> set t"
  shows "takeWhile (\<lambda>c. c \<noteq> NUL) buf = t"
proof -
  have "takeWhile (\<lambda>c. c \<noteq> NUL) ((t @ [NUL]) @ drop (Suc (length t)) buf) = t" 
    unfolding append_assoc by (subst takeWhile_append2) (use assms(2) in auto)
  then show ?thesis unfolding assms(1) [symmetric] append_take_drop_id .
qed

text \<open>
  C32: \<open>inet_net_ntop\<close> and \<open>inet_net_pton\<close> agree on every IPv4 network number: 19 bytes are enough to print one of
  any width, and reading the text in the buffer gives back the width and as many bytes as the width needs, one for the
  width 0, whose bits are those of the number up to the width and zero beyond it.
\<close>

theorem inet_net_roundtrip:
  assumes "bits \<le> 32" "bits \<le> 8 * length src" "19 \<le> unat sz" "unat sz \<le> length buf" "4 \<le> n"
  shows "\<exists>buf' ws. inet_net_ntop AF_INET src (int bits) buf sz = Some (buf', None)
    \<and> inet_net_pton AF_INET (takeWhile (\<lambda>c. c \<noteq> NUL) buf') n = Inr (int bits, ws)
    \<and> length ws = (if bits = 0 then 1 else (bits + 7) div 8)
    \<and> (\<forall>i < 8 * length ws. net_bit ws i \<longleftrightarrow> i < bits \<and> net_bit src i)"
proof -
  let ?ns = "net_bytes src bits" and ?t = "dot_join (net_bytes src bits) @ ''/'' @ dec bits"
  have len: "?ns \<noteq> []" "length ?ns \<le> n" "bits \<le> 8 * length ?ns"
    using assms length_net_bytes [OF assms(2)] by (auto split: if_splits)
  obtain buf' where run: "inet_net_ntop_ipv4 src (int bits) buf sz = Some (buf', None)" and t: "take (Suc (length ?t)) buf' = ?t @ [NUL]"
    using inet_net_ntop_text [OF assms(1,2,4)] assms(3) by (auto split: option.splits)
  have "NUL \<notin> set ?t" using dot_join_no_NUL [of ?ns] dec_no_NUL [of bits] by (simp add: NUL_def)
  from takeWhile_text [OF t this] have "takeWhile (\<lambda>c. c \<noteq> NUL) buf' = ?t" .
  then show ?thesis
    using run inet_net_pton_text [OF len(1) net_bytes_le len(2) assms(1) len(3)] length_net_bytes [OF assms(2)] net_bit_net_bytes [OF assms(2)]
    by (intro exI [of _ buf'] exI [of _ "map of_nat ?ns"]) (simp add: inet_net_ntop_def inet_net_pton_def)
qed

theorem inet_net_roundtrip_witness:
  "\<exists>buf' ws. inet_net_ntop AF_INET [192, 5, 5, 255] 28 (replicate 19 CHR ''?'') 19 = Some (buf', None)
    \<and> inet_net_pton AF_INET (takeWhile (\<lambda>c. c \<noteq> NUL) buf') 4 = Inr (28, ws)
    \<and> length ws = 4 \<and> (\<forall>i < 32. net_bit ws i \<longleftrightarrow> i < 28 \<and> net_bit [192, 5, 5, 255] i)"
  using inet_net_roundtrip [of 28 "[192, 5, 5, 255]" 19 "replicate 19 CHR ''?''" 4] by force

lemma inet_net_ntop_outcome:
  assumes "unat sz \<le> length buf" "bits \<le> 32 \<longrightarrow> bits \<le> 8 * int (length src)"
  shows "\<exists>buf' e. inet_net_ntop af src bits buf sz = Some (buf', e) \<and> kept (unat sz) buf buf'
    \<and> (case e of
          None \<Rightarrow> af = AF_INET \<and> 0 \<le> bits \<and> bits \<le> 32 \<and> NUL \<in> set (take (unat sz) buf')
        | Some e \<Rightarrow>
            if af \<noteq> AF_INET then e = EAFNOSUPPORT
            else if bits < 0 \<or> 32 < bits then e = EINVAL
            else e = EMSGSIZE \<and> unat sz < 19)"
proof (cases "af = AF_INET \<and> 0 \<le> bits \<and> bits \<le> 32")
  case True
  let ?t = "dot_join (net_bytes src (nat bits)) @ ''/'' @ dec (nat bits)"
  have n: "nat bits \<le> 32" "nat bits \<le> 8 * length src" "int (nat bits) = bits" using True assms(2) by auto
  from inet_net_ntop_text [OF n(1,2) assms(1)] obtain buf' e
    where run: "inet_net_ntop_ipv4 src bits buf sz = Some (buf', e)" "kept (unat sz) buf buf'"
    "case e of None \<Rightarrow> length ?t < unat sz \<and> take (Suc (length ?t)) buf' = ?t @ [NUL] | Some e \<Rightarrow> e = EMSGSIZE \<and> unat sz < 19"
    unfolding n(3) by blast
  have "NUL \<in> set (take (unat sz) buf')" if "e = None"
  proof -
    have t: "Suc (length ?t) \<le> unat sz" "take (Suc (length ?t)) buf' = ?t @ [NUL]"
      using run(3) unfolding that option.case by (auto intro: Suc_leI)
    have "NUL \<in> set (take (Suc (length ?t)) buf')" unfolding t(2) by simp
    then show ?thesis by (rule subsetD [OF set_take_subset_set_take [OF t(1)]])
  qed
  then show ?thesis using run True by (cases e) (simp_all add: inet_net_ntop_def)
qed (auto simp: inet_net_ntop_def inet_net_ntop_ipv4_def kept_def)

text \<open>
  C33: \<open>inet_net_ntop\<close> and \<open>inet_neta\<close> stay within their buffer.  Whatever size they are told, if the buffer has that size
  and the network number has the bytes its width speaks of, they read and write nothing outside, leave what is behind the
  size as it was, and return.  If they succeed, the text and its NUL are in the space; \<open>inet_neta\<close> then has printed the
  octets that are not zero, or \<open>0.0.0.0\<close>.  If \<open>inet_net_ntop\<close> fails, the family is not IPv4, the width is out of range
  or the space is below 19 bytes; if \<open>inet_neta\<close> fails, the space is below 17 bytes.
\<close>

theorem inet_net_ntop_in_bounds:
  assumes "unat sz \<le> length buf" "bits \<le> 32 \<longrightarrow> bits \<le> 8 * int (length src)"
  shows "(\<exists>buf' e. inet_net_ntop af src bits buf sz = Some (buf', e)
      \<and> length buf' = length buf \<and> drop (unat sz) buf' = drop (unat sz) buf
      \<and> (case e of
            None \<Rightarrow> af = AF_INET \<and> 0 \<le> bits \<and> bits \<le> 32 \<and> NUL \<in> set (take (unat sz) buf')
          | Some e \<Rightarrow>
              if af \<noteq> AF_INET then e = EAFNOSUPPORT
              else if bits < 0 \<or> 32 < bits then e = EINVAL
              else e = EMSGSIZE \<and> unat sz < 19))
    \<and> (\<exists>buf' e. inet_neta net buf sz = Some (buf', e)
      \<and> length buf' = length buf \<and> drop (unat sz) buf' = drop (unat sz) buf
      \<and> (case e of
            None \<Rightarrow> length (neta_text net) < unat sz \<and> take (Suc (length (neta_text net))) buf' = neta_text net @ [NUL]
          | Some e \<Rightarrow> e = EMSGSIZE \<and> unat sz < 17))"
  using inet_net_ntop_outcome [OF assms, of af] inet_neta_text [OF assms(1), of net] by (simp only: kept_def conj_assoc simp_thms)

theorem inet_net_ntop_in_bounds_witness:
  "(\<exists>buf'. inet_net_ntop AF_INET [10, 1] 12 (replicate 12 CHR ''?'') 9 = Some (buf', None)
      \<and> drop 9 buf' = replicate 3 CHR ''?'' \<and> NUL \<in> set (take 9 buf'))
   \<and> (\<exists>buf'. inet_net_ntop AF_INET [10, 1] 12 (replicate 12 CHR ''?'') 7 = Some (buf', Some EMSGSIZE) \<and> drop 7 buf' = replicate 5 CHR ''?'')
   \<and> (\<exists>buf'. inet_neta 0x0a000500 (replicate 12 CHR ''?'') 9 = Some (buf', None) \<and> take (Suc (length ''10.5'')) buf' = ''10.5'' @ [NUL])"
proof -
  have r: "map_option snd (inet_net_ntop AF_INET [10, 1] 12 (replicate 12 CHR ''?'') 9) = Some None"
    "map_option snd (inet_net_ntop AF_INET [10, 1] 12 (replicate 12 CHR ''?'') 7) = Some (Some EMSGSIZE)"
    "map_option snd (inet_neta 0x0a000500 (replicate 12 CHR ''?'') 9) = Some None" "neta_text 0x0a000500 = ''10.5''"
    by code_simp+
  have h: "(12 :: int) \<le> 32 \<longrightarrow> (12 :: int) \<le> 8 * int (length [10, 1 :: u8])" "unat (9 :: u64) \<le> length (replicate 12 CHR ''?'')"
    "unat (7 :: u64) \<le> length (replicate 12 CHR ''?'')" by simp_all
  show ?thesis
    using inet_net_ntop_in_bounds [OF h(2,1), of AF_INET "0x0a000500"] inet_net_ntop_in_bounds [OF h(3,1), of AF_INET 0] r
    by (auto split: option.splits)
qed

text \<open>
  A width after the slash is accumulated in an \<open>int\<close> before it is compared with 32, so that one past the range wraps
  around (where the compiler lets it) and is accepted.
\<close>

lemma inet_net_pton_width_wraps: "inet_net_pton AF_INET ''10/4294967304'' 4 = Inr (8, [10])"
  by code_simp

text \<open>Zero octets are left out by \<open>inet_neta\<close>, so that different network numbers print alike.\<close>

lemma inet_neta_ambiguous:
  "inet_network ''10.0.5'' \<noteq> inet_network ''10.5''
   \<and> inet_neta (inet_network ''10.0.5'') (replicate 16 CHR ''?'') 16 = inet_neta (inet_network ''10.5'') (replicate 16 CHR ''?'') 16"
  by code_simp

section \<open>inet_network\<close>

lemma network_digits_dec:
  assumes "list_all (digit_in 10) ds" "foldl (\<lambda>v c. v * 10 + the (digit_value c)) v ds \<le> 255"
  shows "network_digits 10 (ds @ rest) (of_nat v) dg
    = network_digits 10 rest (of_nat (foldl (\<lambda>v c. v * 10 + the (digit_value c)) v ds)) (dg \<or> ds \<noteq> [])"
  using assms
proof (induction ds arbitrary: v dg)
  case (Cons d ds)
  have le: "v \<le> 255"
  proof -
    have "v \<le> foldl (\<lambda>v c. v * 10 + the (digit_value c)) v (d # ds)" by (rule foldl_digits_ge)
    then show ?thesis using Cons.prems(2) by linarith
  qed
  have "\<not> (0xff :: u32) < of_nat v" using le by (simp add: word_less_nat_alt unat_of_nat take_bit_nat_eq_self)
  moreover have "isdigit d" "the (digit_value d) = ord d - 48"
    using Cons.prems(1) isdigit_of_digit_in [of d] by (auto simp: isdigit_def digit_value_def)
  ultimately show ?case
    using Cons.IH [of "v * 10 + the (digit_value d)" True] Cons.prems by simp
qed simp

lemma network_part:
  assumes "n \<le> 255" "number_end rest"
  shows "(let (base, digit, cp) = network_prefix (dec n @ rest) in network_digits base cp 0 digit) = Some (of_nat n, True, rest)"
proof -
  have stop: "network_digits b rest (of_nat n) True = Some (of_nat n, True, rest)" for b
    using assms by (cases rest) (auto simp: number_end_def isdigit_def isxdigit_def word_less_nat_alt unat_of_nat take_bit_nat_eq_self)
  have nox: "char_at rest 0 \<noteq> CHR ''x'' \<and> char_at rest 0 \<noteq> CHR ''X''" using assms(2) by (cases rest) (auto simp: number_end_def NUL_def)
  show ?thesis
  proof (cases "n = 0")
    case True
    then show ?thesis using stop [of 8] nox by (simp add: dec_0 network_prefix_def)
  next
    case False
    obtain c cs where c: "dec n = c # cs" "isdigit c" "c \<noteq> CHR ''0''" using dec_first [of n] False by (cases "dec n") auto
    have "foldl (\<lambda>v c. v * 10 + the (digit_value c)) 0 (dec n) = n" using dec_digits [of n] by (simp add: digits_val_def)
    then have "network_digits 10 (dec n @ rest) 0 False = Some (of_nat n, True, rest)"
      using network_digits_dec [of "dec n" 0 rest False] dec_digits [of n] assms(1) stop [of 10] c(1) by simp
    moreover have "c \<noteq> CHR ''x'' \<and> c \<noteq> CHR ''X''" using c(2) by (auto simp: isdigit_def)
    ultimately show ?thesis using c by (simp add: network_prefix_def)
  qed
qed

lemma inet_network_parts_join:
  assumes "ns \<noteq> []" "list_all (\<lambda>n. n \<le> 255) ns" "length parts + length ns \<le> 4"
  shows "inet_network_parts (dot_join ns) parts = Some (parts @ map of_nat ns)"
  using assms
proof (induction ns arbitrary: parts rule: dot_join.induct)
  case (2 n)
  have "\<not> (0xff :: u32) < of_nat n" using 2(2) by (simp add: word_less_nat_alt unat_of_nat take_bit_nat_eq_self)
  then show ?case
    using 2 network_part [of n "[]"] by (subst inet_network_parts.simps) (auto simp: number_end_def Let_def NUL_def split: prod.splits)
next
  case (3 n m ns)
  have "\<not> (0xff :: u32) < of_nat n" using 3(3) by (simp add: word_less_nat_alt unat_of_nat take_bit_nat_eq_self)
  then have "inet_network_parts (dot_join (n # m # ns)) parts = inet_network_parts (dot_join (m # ns)) (parts @ [of_nat n])"
    using 3(3,4) network_part [of n "''.'' @ dot_join (m # ns)"]
    by (subst inet_network_parts.simps) (auto simp: number_end_def Let_def split: prod.splits)
  then show ?case using 3(1) [of "parts @ [of_nat n]"] 3(3,4) by simp
qed simp

lemma shift_in_byte:
  assumes "n \<le> 255"
  shows "push_bit 8 (of_nat v) OR (of_nat n AND 0xff) = (of_nat (v * 256 + n) :: u32)"
proof -
  have n: "take_bit 8 (of_nat n :: u32) = of_nat n" using assms by (simp only: take_bit_of_nat) (simp add: take_bit_nat_eq_self)
  have m: "(0xff :: u32) = mask 8" by (simp add: mask_eq_exp_minus_1)
  have "push_bit 8 (of_nat v) AND take_bit 8 (of_nat n :: u32) = 0" by (rule bit_word_eqI) (auto simp: bit_simps)
  then show ?thesis
    unfolding m by (simp add: take_bit_eq_mask [symmetric] n disjunctive_add_eq_or [symmetric] push_bit_eq_mult)
qed

lemma foldl_bytes:
  assumes "list_all (\<lambda>n. n \<le> 255) ns"
  shows "foldl (\<lambda>val p. push_bit 8 val OR (p AND 0xff)) (of_nat v) (map of_nat ns) = (of_nat (foldl (\<lambda>v n. v * 256 + n) v ns) :: u32)"
    and "foldl (\<lambda>v n. v * 256 + n) v ns < (v + 1) * 256 ^ length ns"
proof -
  show "foldl (\<lambda>val p. push_bit 8 val OR (p AND 0xff)) (of_nat v) (map of_nat ns) = (of_nat (foldl (\<lambda>v n. v * 256 + n) v ns) :: u32)"
    using assms
  proof (induction ns arbitrary: v)
    case (Cons n ns)
    then show ?case using shift_in_byte [of n v] Cons.IH [of "v * 256 + n"] by (simp del: of_nat_add of_nat_mult)
  qed simp
  show "foldl (\<lambda>v n. v * 256 + n) v ns < (v + 1) * 256 ^ length ns"
    using assms
  proof (induction ns arbitrary: v)
    case (Cons n ns)
    have "foldl (\<lambda>v n. v * 256 + n) v (n # ns) < (v * 256 + n + 1) * 256 ^ length ns" using Cons by simp
    also have "\<dots> \<le> ((v + 1) * 256) * 256 ^ length ns" using Cons.prems by (intro mult_right_mono) simp_all
    finally show ?case by (simp add: algebra_simps)
  qed simp
qed

text \<open>
  C35: \<open>inet_network\<close> of one to four decimal numbers up to 255, separated by dots, is the number with these bytes, the
  last one lowest.
\<close>

theorem inet_network_value:
  assumes "ns \<noteq> []" "length ns \<le> 4" "list_all (\<lambda>n. n \<le> 255) ns"
  shows "unat (inet_network (dot_join ns)) = foldl (\<lambda>v n. v * 256 + n) 0 ns"
proof -
  let ?v = "foldl (\<lambda>v n. v * 256 + n) 0 ns"
  have "inet_network (dot_join ns) = of_nat ?v"
    using inet_network_parts_join [OF assms(1,3), of "[]"] assms(2) foldl_bytes(1) [OF assms(3), of 0] by (simp add: inet_network_def)
  moreover have "?v < 2 ^ 32"
  proof -
    have "?v < 256 ^ length ns" using foldl_bytes(2) [OF assms(3), of 0] by simp
    also have "\<dots> \<le> (256 :: nat) ^ 4" using assms(2) by (rule power_increasing) simp
    finally show ?thesis by simp
  qed
  ultimately show ?thesis by (simp add: unat_of_nat take_bit_nat_eq_self)
qed

theorem inet_network_value_witness:
  "[10, 0, 255 :: nat] \<noteq> [] \<and> unat (inet_network (dot_join [10, 0, 255])) = 10 * 65536 + 255"
  using inet_network_value [of "[10, 0, 255]"] by simp

end
