(* ===== verification/Tsearch.thy ===== *)
theory Tsearch
  imports Glibc_Prelude "HOL-Library.Monad_Syntax"
begin

text \<open>
  The red-black trees of \<open>misc/tsearch.c\<close>, in the variant it compiles: the colour of a node is the low bit of its left
  pointer.

  The state is the caller's root variable and the contents of the nodes, by address; 0 is the null pointer.  A \<open>node *\<close>
  is the place it points to: the root variable or one of the two pointers of a node.  The caller's keys are opaque.  The
  result \<open>None\<close> of an operation stands for a failed assertion, a null pointer that is followed, or a loop that does not end.
\<close>

section \<open>Nodes\<close>

record 'k node_t =
  node_key :: 'k
  left_node :: u64
  right_node :: u64

record 'k tstate =
  root_var :: u64
  nodes :: "u64 \<Rightarrow> 'k node_t"

datatype nodep = Vroot | Leftp u64 | Rightp u64

definition RED :: "'k tstate \<Rightarrow> u64 \<Rightarrow> bool" where
  "RED s n \<longleftrightarrow> left_node (nodes s n) AND 1 \<noteq> 0"

definition set_node :: "'k tstate \<Rightarrow> u64 \<Rightarrow> 'k node_t \<Rightarrow> 'k tstate" where
  "set_node s n x = s\<lparr>nodes := (nodes s)(n := x)\<rparr>"

definition SETRED :: "'k tstate \<Rightarrow> u64 \<Rightarrow> 'k tstate" where
  "SETRED s n = set_node s n ((nodes s n)\<lparr>left_node := left_node (nodes s n) OR 1\<rparr>)"

definition SETBLACK :: "'k tstate \<Rightarrow> u64 \<Rightarrow> 'k tstate" where
  "SETBLACK s n = set_node s n ((nodes s n)\<lparr>left_node := left_node (nodes s n) AND NOT 1\<rparr>)"

definition LEFT :: "'k tstate \<Rightarrow> u64 \<Rightarrow> u64" where
  "LEFT s n = left_node (nodes s n) AND NOT 1"

definition RIGHT :: "'k tstate \<Rightarrow> u64 \<Rightarrow> u64" where
  "RIGHT s n = right_node (nodes s n)"

definition SETLEFT :: "'k tstate \<Rightarrow> u64 \<Rightarrow> u64 \<Rightarrow> 'k tstate" where
  "SETLEFT s n l = set_node s n ((nodes s n)\<lparr>left_node := (left_node (nodes s n) AND 1) OR l\<rparr>)"

definition SETRIGHT :: "'k tstate \<Rightarrow> u64 \<Rightarrow> u64 \<Rightarrow> 'k tstate" where
  "SETRIGHT s n r = set_node s n ((nodes s n)\<lparr>right_node := r\<rparr>)"

text \<open>The word at a \<open>node *\<close>.\<close>

fun load_np :: "'k tstate \<Rightarrow> nodep \<Rightarrow> u64" where
  "load_np s Vroot = root_var s"
| "load_np s (Leftp n) = left_node (nodes s n)"
| "load_np s (Rightp n) = right_node (nodes s n)"

fun store_np :: "'k tstate \<Rightarrow> nodep \<Rightarrow> u64 \<Rightarrow> 'k tstate" where
  "store_np s Vroot w = s\<lparr>root_var := w\<rparr>"
| "store_np s (Leftp n) w = set_node s n ((nodes s n)\<lparr>left_node := w\<rparr>)"
| "store_np s (Rightp n) w = set_node s n ((nodes s n)\<lparr>right_node := w\<rparr>)"

definition DEREFNODEPTR :: "'k tstate \<Rightarrow> nodep \<Rightarrow> u64" where
  "DEREFNODEPTR s np = load_np s np AND NOT 1"

definition SETNODEPTR :: "'k tstate \<Rightarrow> nodep \<Rightarrow> u64 \<Rightarrow> 'k tstate" where
  "SETNODEPTR s np p = store_np s np ((load_np s np AND 1) OR p)"

section \<open>Insertion\<close>

definition rotate_double ::
  "'k tstate \<Rightarrow> u64 \<Rightarrow> u64 \<Rightarrow> u64 \<Rightarrow> u64 \<Rightarrow> u64 \<Rightarrow> nodep \<Rightarrow> int \<Rightarrow> 'k tstate" where
  "rotate_double s root rpn lpn p gp gparentp p_r =
     (let rp = Rightp root; lp = Leftp root;
          s = SETRED s p; s = SETRED s gp; s = SETBLACK s root;
          s = (if p_r < 0
               then (let s = SETLEFT s p rpn; s = SETNODEPTR s rp p; s = SETRIGHT s gp lpn in SETNODEPTR s lp gp)
               else (let s = SETRIGHT s p lpn; s = SETNODEPTR s lp p; s = SETLEFT s gp rpn in SETNODEPTR s rp gp))
      in SETNODEPTR s gparentp root)"

definition rotate_single :: "'k tstate \<Rightarrow> u64 \<Rightarrow> u64 \<Rightarrow> nodep \<Rightarrow> int \<Rightarrow> 'k tstate" where
  "rotate_single s p gp gparentp p_r =
     (let s = SETNODEPTR s gparentp p; s = SETBLACK s p; s = SETRED s gp
      in if p_r < 0
         then (let s = SETLEFT s gp (RIGHT s p) in SETRIGHT s p gp)
         else (let s = SETRIGHT s gp (LEFT s p) in SETLEFT s p gp))"

definition maybe_split_for_insert ::
  "'k tstate \<Rightarrow> nodep \<Rightarrow> nodep option \<Rightarrow> nodep option \<Rightarrow> int \<Rightarrow> int \<Rightarrow> bool \<Rightarrow> 'k tstate option" where
  "maybe_split_for_insert s rootp parentp gparentp p_r gp_r mode =
     (let root = DEREFNODEPTR s rootp; rpn = RIGHT s root; lpn = LEFT s root
      in if mode \<or> (rpn \<noteq> 0 \<and> lpn \<noteq> 0 \<and> RED s rpn \<and> RED s lpn)
         then
           (let s = SETRED s root;
                s = (if rpn \<noteq> 0 then SETBLACK s rpn else s);
                s = (if lpn \<noteq> 0 then SETBLACK s lpn else s)
            in case parentp of
                 None \<Rightarrow> Some s
               | Some pp \<Rightarrow>
                   if RED s (DEREFNODEPTR s pp)
                   then (case gparentp of
                           None \<Rightarrow> None
                         | Some gpp \<Rightarrow>
                             (let gp = DEREFNODEPTR s gpp; p = DEREFNODEPTR s pp
                              in if (0 < p_r) \<noteq> (0 < gp_r)
                                 then Some (rotate_double s root rpn lpn p gp gpp p_r)
                                 else Some (rotate_single s p gp gpp p_r)))
                   else Some s)
         else Some s)"

text \<open>How the search for the place of a key ends.\<close>

datatype 'k search_end =
    Found_at u64 "'k tstate"
  | Free_at "'k tstate" nodep nodep "nodep option" int int

partial_function (option) tsearch_loop ::
  "('k \<Rightarrow> 'k \<Rightarrow> int) \<Rightarrow> 'k \<Rightarrow> 'k tstate \<Rightarrow> nodep \<Rightarrow> nodep option \<Rightarrow> nodep option \<Rightarrow> int \<Rightarrow> int
     \<Rightarrow> 'k search_end option" where
  "tsearch_loop compar key s rootp parentp gparentp p_r gp_r =
     (let root = DEREFNODEPTR s rootp; r = compar key (node_key (nodes s root))
      in if r = 0 then Some (Found_at root s)
         else do {
           s \<leftarrow> maybe_split_for_insert s rootp parentp gparentp p_r gp_r False;
           let nextp = (if r < 0 then Leftp root else Rightp root);
           if DEREFNODEPTR s nextp = 0 then Some (Free_at s nextp rootp parentp r p_r)
           else tsearch_loop compar key s nextp (Some rootp) parentp r p_r
         })"

text \<open>The argument \<open>q\<close> is what \<open>malloc\<close> returns, 0 if there is no memory.\<close>

definition tsearch ::
  "('k \<Rightarrow> 'k \<Rightarrow> int) \<Rightarrow> 'k \<Rightarrow> nodep option \<Rightarrow> u64 \<Rightarrow> 'k tstate \<Rightarrow> (u64 \<times> 'k tstate) option" where
  "tsearch compar key vrootp q s =
     (case vrootp of
        None \<Rightarrow> Some (0, s)
      | Some rootp \<Rightarrow>
          (let root = DEREFNODEPTR s rootp;
               s = (if root \<noteq> 0 then SETBLACK s root else s)
           in do {
             e \<leftarrow> (if DEREFNODEPTR s rootp \<noteq> 0 then tsearch_loop compar key s rootp None None 0 0
                   else Some (Free_at s rootp rootp None 0 0));
             case e of
               Found_at root s \<Rightarrow> Some (root, s)
             | Free_at s nextp rootp parentp r p_r \<Rightarrow>
                 if q = 0 then Some (0, s)
                 else if q AND 1 \<noteq> 0 then None
                 else
                   (let s = SETNODEPTR s nextp q;
                        s = set_node s q ((nodes s q)\<lparr>node_key := key\<rparr>);
                        s = SETRED s q; s = SETLEFT s q 0; s = SETRIGHT s q 0
                    in if nextp \<noteq> rootp
                       then do {
                         s \<leftarrow> maybe_split_for_insert s nextp (Some rootp) parentp r p_r True;
                         Some (q, s)
                       }
                       else Some (q, s))
           }))"

section \<open>Search\<close>

partial_function (option) tfind_loop ::
  "('k \<Rightarrow> 'k \<Rightarrow> int) \<Rightarrow> 'k \<Rightarrow> 'k tstate \<Rightarrow> nodep \<Rightarrow> u64 option" where
  "tfind_loop compar key s rootp =
     (let root = DEREFNODEPTR s rootp
      in if root = 0 then Some 0
         else (let r = compar key (node_key (nodes s root))
               in if r = 0 then Some root
                  else tfind_loop compar key s (if r < 0 then Leftp root else Rightp root)))"

definition tfind :: "('k \<Rightarrow> 'k \<Rightarrow> int) \<Rightarrow> 'k \<Rightarrow> nodep option \<Rightarrow> 'k tstate \<Rightarrow> u64 option" where
  "tfind compar key vrootp s = (case vrootp of None \<Rightarrow> Some 0 | Some rootp \<Rightarrow> tfind_loop compar key s rootp)"

section \<open>Deletion\<close>

definition stacksize :: nat where "stacksize = 2 * 64"

text \<open>The stack of node pointers, the last one pushed first; a push past its end fails the assertion.\<close>

definition push :: "nodep \<Rightarrow> nodep list \<Rightarrow> nodep list option" where
  "push np nodestack = (if length nodestack < stacksize then Some (np # nodestack) else None)"

text \<open>The node pointer of the node found, the node the function returns, and the stack; the inner \<open>None\<close> if there is no such key.\<close>

partial_function (option) tdelete_find ::
  "('k \<Rightarrow> 'k \<Rightarrow> int) \<Rightarrow> 'k \<Rightarrow> 'k tstate \<Rightarrow> nodep \<Rightarrow> u64 \<Rightarrow> u64 \<Rightarrow> nodep list
     \<Rightarrow> (nodep \<times> u64 \<times> nodep list) option option" where
  "tdelete_find compar key s rootp root p nodestack =
     (let cmp = compar key (node_key (nodes s root))
      in if cmp = 0 then Some (Some (rootp, p, nodestack))
         else do {
           nodestack \<leftarrow> push rootp nodestack;
           let p = DEREFNODEPTR s rootp;
           let (rootp, root) = (if cmp < 0 then (Leftp p, LEFT s p) else (Rightp p, RIGHT s p));
           if root = 0 then Some None else tdelete_find compar key s rootp root p nodestack
         })"

partial_function (option) tdelete_succ ::
  "'k tstate \<Rightarrow> nodep \<Rightarrow> nodep \<Rightarrow> nodep list \<Rightarrow> (nodep \<times> nodep list) option" where
  "tdelete_succ s parentp up nodestack =
     do {
       nodestack \<leftarrow> push parentp nodestack;
       let upn = DEREFNODEPTR s up;
       if LEFT s upn = 0 then Some (up, nodestack) else tdelete_succ s up (Leftp upn) nodestack
     }"

text \<open>A node that is null or black.\<close>

definition null_or_black :: "'k tstate \<Rightarrow> u64 \<Rightarrow> bool" where
  "null_or_black s n \<longleftrightarrow> n = 0 \<or> \<not> RED s n"

text \<open>
  One round of the repair if the short subtree is on the left: the state, the stack and the subtree for the next round.
  First the part for a black brother \<open>q\<close>, then the rotation that makes it black; the brother is followed whether or not it
  is null.
\<close>

definition balance_left :: "'k tstate \<Rightarrow> nodep \<Rightarrow> nodep list \<Rightarrow> u64 \<Rightarrow> u64 \<Rightarrow> 'k tstate \<times> nodep list \<times> u64" where
  "balance_left s pp nodestack p q =
     (if null_or_black s (LEFT s q) \<and> null_or_black s (RIGHT s q)
      then (SETRED s q, tl nodestack, p)
      else
        (let s = (if null_or_black s (RIGHT s q)
                  then (let q2 = LEFT s q;
                            s = (if RED s p then SETRED s q2 else SETBLACK s q2);
                            s = SETRIGHT s p (LEFT s q2); s = SETLEFT s q (RIGHT s q2);
                            s = SETRIGHT s q2 q; s = SETLEFT s q2 p; s = SETNODEPTR s pp q2
                        in SETBLACK s p)
                  else (let s = (if RED s p then SETRED s q else SETBLACK s q);
                            s = SETBLACK s p; s = SETBLACK s (RIGHT s q);
                            s = SETRIGHT s p (LEFT s q); s = SETLEFT s q p
                        in SETNODEPTR s pp q))
         in (s, [], 0)))"

definition fix_left ::
  "'k tstate \<Rightarrow> nodep \<Rightarrow> nodep list \<Rightarrow> u64 \<Rightarrow> ('k tstate \<times> nodep list \<times> u64) option" where
  "fix_left s pp nodestack p =
     (let q = RIGHT s p
      in if q = 0 then None
         else if RED s q
         then (let s = SETBLACK s q; s = SETRED s p; s = SETRIGHT s p (LEFT s q); s = SETLEFT s q p;
                   s = SETNODEPTR s pp q; pp = Leftp q
               in do {
                 nodestack \<leftarrow> push pp nodestack;
                 let q = RIGHT s p;
                 if q = 0 then None else Some (balance_left s pp nodestack p q)
               })
         else Some (balance_left s pp nodestack p q))"

text \<open>The other side.\<close>

definition balance_right :: "'k tstate \<Rightarrow> nodep \<Rightarrow> nodep list \<Rightarrow> u64 \<Rightarrow> u64 \<Rightarrow> 'k tstate \<times> nodep list \<times> u64" where
  "balance_right s pp nodestack p q =
     (if null_or_black s (RIGHT s q) \<and> null_or_black s (LEFT s q)
      then (SETRED s q, tl nodestack, p)
      else
        (let s = (if null_or_black s (LEFT s q)
                  then (let q2 = RIGHT s q;
                            s = (if RED s p then SETRED s q2 else SETBLACK s q2);
                            s = SETLEFT s p (RIGHT s q2); s = SETRIGHT s q (LEFT s q2);
                            s = SETLEFT s q2 q; s = SETRIGHT s q2 p; s = SETNODEPTR s pp q2
                        in SETBLACK s p)
                  else (let s = (if RED s p then SETRED s q else SETBLACK s q);
                            s = SETBLACK s p; s = SETBLACK s (LEFT s q);
                            s = SETLEFT s p (RIGHT s q); s = SETRIGHT s q p
                        in SETNODEPTR s pp q))
         in (s, [], 0)))"

definition fix_right ::
  "'k tstate \<Rightarrow> nodep \<Rightarrow> nodep list \<Rightarrow> u64 \<Rightarrow> ('k tstate \<times> nodep list \<times> u64) option" where
  "fix_right s pp nodestack p =
     (let q = LEFT s p
      in if q = 0 then None
         else if RED s q
         then (let s = SETBLACK s q; s = SETRED s p; s = SETLEFT s p (RIGHT s q); s = SETRIGHT s q p;
                   s = SETNODEPTR s pp q; pp = Rightp q
               in do {
                 nodestack \<leftarrow> push pp nodestack;
                 let q = LEFT s p;
                 if q = 0 then None else Some (balance_right s pp nodestack p q)
               })
         else Some (balance_right s pp nodestack p q))"

partial_function (option) tdelete_fix :: "'k tstate \<Rightarrow> nodep list \<Rightarrow> u64 \<Rightarrow> 'k tstate option" where
  "tdelete_fix s nodestack r =
     (case nodestack of
        [] \<Rightarrow> Some (if r \<noteq> 0 then SETBLACK s r else s)
      | pp # _ \<Rightarrow>
          if null_or_black s r
          then (let p = DEREFNODEPTR s pp
                in do {
                  (s, nodestack, r) \<leftarrow> (if r = LEFT s p then fix_left s pp nodestack p else fix_right s pp nodestack p);
                  tdelete_fix s nodestack r
                })
          else Some (if r \<noteq> 0 then SETBLACK s r else s))"

text \<open>The node returned, the node freed if any, and the state.\<close>

definition tdelete ::
  "('k \<Rightarrow> 'k \<Rightarrow> int) \<Rightarrow> 'k \<Rightarrow> nodep option \<Rightarrow> 'k tstate \<Rightarrow> (u64 \<times> u64 option \<times> 'k tstate) option" where
  "tdelete compar key vrootp s =
     (case vrootp of
        None \<Rightarrow> Some (0, None, s)
      | Some rootp \<Rightarrow>
          (let p = DEREFNODEPTR s rootp
           in if p = 0 then Some (0, None, s)
              else do {
                f \<leftarrow> tdelete_find compar key s rootp (DEREFNODEPTR s rootp) p [];
                case f of
                  None \<Rightarrow> Some (0, None, s)
                | Some (rootp, retval, nodestack) \<Rightarrow>
                    (let root = DEREFNODEPTR s rootp; r = RIGHT s root; q = LEFT s root
                     in do {
                       (unchained, nodestack) \<leftarrow>
                         (if q = 0 \<or> r = 0 then Some (root, nodestack)
                          else do {
                            (up, nodestack) \<leftarrow> tdelete_succ s rootp (Rightp root) nodestack;
                            Some (DEREFNODEPTR s up, nodestack)
                          });
                       let r = LEFT s unchained;
                       let r = (if r = 0 then RIGHT s unchained else r);
                       let s = (case nodestack of
                                  [] \<Rightarrow> SETNODEPTR s rootp r
                                | np # _ \<Rightarrow>
                                    (let q = DEREFNODEPTR s np
                                     in if unchained = RIGHT s q then SETRIGHT s q r else SETLEFT s q r));
                       let s = (if unchained \<noteq> root
                                then set_node s root ((nodes s root)\<lparr>node_key := node_key (nodes s unchained)\<rparr>)
                                else s);
                       s \<leftarrow> (if \<not> RED s unchained then tdelete_fix s nodestack r else Some s);
                       Some (retval, Some unchained, s)
                     })
              }))"

section \<open>Walks\<close>

datatype VISIT = preorder | postorder | endorder | leaf

text \<open>The calls of the action in their order: node, kind of visit and level.\<close>

partial_function (option) trecurse :: "'k tstate \<Rightarrow> u64 \<Rightarrow> int \<Rightarrow> (u64 \<times> VISIT \<times> int) list option" where
  "trecurse s root level =
     (if LEFT s root = 0 \<and> RIGHT s root = 0 then Some [(root, leaf, level)]
      else do {
        l \<leftarrow> (if LEFT s root \<noteq> 0 then trecurse s (LEFT s root) (level + 1) else Some []);
        r \<leftarrow> (if RIGHT s root \<noteq> 0 then trecurse s (RIGHT s root) (level + 1) else Some []);
        Some ((root, preorder, level) # l @ (root, postorder, level) # r @ [(root, endorder, level)])
      })"

definition twalk :: "'k tstate \<Rightarrow> u64 \<Rightarrow> bool \<Rightarrow> (u64 \<times> VISIT \<times> int) list option" where
  "twalk s root action = (if root \<noteq> 0 \<and> action then trecurse s root 0 else Some [])"

partial_function (option) trecurse_r :: "'k tstate \<Rightarrow> u64 \<Rightarrow> 'c \<Rightarrow> (u64 \<times> VISIT \<times> 'c) list option" where
  "trecurse_r s root closure =
     (if LEFT s root = 0 \<and> RIGHT s root = 0 then Some [(root, leaf, closure)]
      else do {
        l \<leftarrow> (if LEFT s root \<noteq> 0 then trecurse_r s (LEFT s root) closure else Some []);
        r \<leftarrow> (if RIGHT s root \<noteq> 0 then trecurse_r s (RIGHT s root) closure else Some []);
        Some ((root, preorder, closure) # l @ (root, postorder, closure) # r @ [(root, endorder, closure)])
      })"

definition twalk_r :: "'k tstate \<Rightarrow> u64 \<Rightarrow> bool \<Rightarrow> 'c \<Rightarrow> (u64 \<times> VISIT \<times> 'c) list option" where
  "twalk_r s root action closure = (if root \<noteq> 0 \<and> action then trecurse_r s root closure else Some [])"

text \<open>The keys handed to the caller's function and the nodes freed, in their order.\<close>

partial_function (option) tdestroy_recurse :: "'k tstate \<Rightarrow> u64 \<Rightarrow> ('k \<times> u64) list option" where
  "tdestroy_recurse s root =
     do {
       l \<leftarrow> (if LEFT s root \<noteq> 0 then tdestroy_recurse s (LEFT s root) else Some []);
       r \<leftarrow> (if RIGHT s root \<noteq> 0 then tdestroy_recurse s (RIGHT s root) else Some []);
       Some (l @ r @ [(node_key (nodes s root), root)])
     }"

definition tdestroy :: "'k tstate \<Rightarrow> u64 \<Rightarrow> ('k \<times> u64) list option" where
  "tdestroy s root = (if root \<noteq> 0 then tdestroy_recurse s root else Some [])"

end
