(* ===== verification/Tsearch_Rep.thy ===== *)
theory Tsearch_Rep
  imports Tsearch
begin

text \<open>
  What the nodes of \<open>Tsearch\<close> represent: a binary tree of addresses, colours and keys, seen from a place in it.

  A place is a path from the root (the list of frames, innermost first, as the loops of the code descend) and the
  subtree below it.  The red-black conditions, the order of the keys and the contents of the nodes are all stated of such
  a place, so that a local change of the tree is a local change of the heap.
\<close>

section \<open>Trees and places in them\<close>

datatype color = Red | Black

datatype 'k ttree = TLeaf | TNode u64 color 'k "'k ttree" "'k ttree"

text \<open>A step of a path: the node, and the subtree on the other side.\<close>

datatype 'k frame = LF u64 color 'k "'k ttree" | RF u64 color 'k "'k ttree"

fun troot :: "'k ttree \<Rightarrow> u64" where
  "troot TLeaf = 0"
| "troot (TNode a c k l r) = a"

fun inorder :: "'k ttree \<Rightarrow> (u64 \<times> 'k) list" where
  "inorder TLeaf = []"
| "inorder (TNode a c k l r) = inorder l @ (a, k) # inorder r"

fun lside :: "'k frame list \<Rightarrow> (u64 \<times> 'k) list" where
  "lside [] = []"
| "lside (LF a c k t # fs) = lside fs"
| "lside (RF a c k t # fs) = lside fs @ inorder t @ [(a, k)]"

fun rside :: "'k frame list \<Rightarrow> (u64 \<times> 'k) list" where
  "rside [] = []"
| "rside (LF a c k t # fs) = (a, k) # inorder t @ rside fs"
| "rside (RF a c k t # fs) = rside fs"

fun slot :: "'k frame list \<Rightarrow> nodep" where
  "slot [] = Vroot"
| "slot (LF a c k t # fs) = Leftp a"
| "slot (RF a c k t # fs) = Rightp a"

abbreviation taddrs :: "'k ttree \<Rightarrow> u64 set" where
  "taddrs t \<equiv> fst ` set (inorder t)"

abbreviation caddrs :: "'k frame list \<Rightarrow> u64 set" where
  "caddrs fs \<equiv> fst ` set (lside fs) \<union> fst ` set (rside fs)"

fun is_red :: "'k ttree \<Rightarrow> bool" where
  "is_red (TNode a c k l r) = (c = Red)"
| "is_red TLeaf = False"

fun blacken :: "'k ttree \<Rightarrow> 'k ttree" where
  "blacken TLeaf = TLeaf"
| "blacken (TNode a c k l r) = TNode a Black k l r"

section \<open>The low bit\<close>

definition evenp :: "u64 \<Rightarrow> bool" where "evenp p \<longleftrightarrow> \<not> bit p 0"

lemma evenp_0 [simp]: "evenp 0" by (simp add: evenp_def)

lemma and_1_evenp: "p AND 1 = 0 \<longleftrightarrow> evenp p"
  by (simp add: evenp_def bit_0 and_one_eq even_iff_mod_2_eq_zero)

definition colbit :: "color \<Rightarrow> u64" where "colbit c = (if c = Red then 1 else 0)"

lemma bit_colbit: "bit (colbit c) n \<longleftrightarrow> c = Red \<and> n = 0"
  by (simp add: colbit_def bit_1_iff)

text \<open>The node with a colour, a key and two children.\<close>

definition cnode :: "color \<Rightarrow> 'k \<Rightarrow> u64 \<Rightarrow> u64 \<Rightarrow> 'k node_t" where
  "cnode c k l r = \<lparr>node_key = k, left_node = l OR colbit c, right_node = r\<rparr>"

definition n_setred :: "'k node_t \<Rightarrow> 'k node_t" where
  "n_setred x = x\<lparr>left_node := left_node x OR 1\<rparr>"

definition n_setblack :: "'k node_t \<Rightarrow> 'k node_t" where
  "n_setblack x = x\<lparr>left_node := left_node x AND NOT 1\<rparr>"

definition n_setleft :: "'k node_t \<Rightarrow> u64 \<Rightarrow> 'k node_t" where
  "n_setleft x l = x\<lparr>left_node := (left_node x AND 1) OR l\<rparr>"

definition n_setright :: "'k node_t \<Rightarrow> u64 \<Rightarrow> 'k node_t" where
  "n_setright x r = x\<lparr>right_node := r\<rparr>"

definition n_left :: "'k node_t \<Rightarrow> u64" where "n_left x = left_node x AND NOT 1"

definition n_red :: "'k node_t \<Rightarrow> bool" where "n_red x \<longleftrightarrow> left_node x AND 1 \<noteq> 0"

lemma or_colbit_and_1: "evenp l \<Longrightarrow> (l OR colbit c) AND 1 = colbit c"
  by (rule bit_word_eqI) (auto simp: bit_simps bit_colbit evenp_def)

lemma or_colbit_and_not_1: "evenp l \<Longrightarrow> (l OR colbit c) AND - 2 = l"
proof -
  assume l: "evenp l"
  have "(l OR colbit c) AND NOT 1 = l"
    using l by (intro bit_word_eqI) (auto simp: bit_simps bit_colbit evenp_def simp del: bit_0, metis gr0I)
  then show ?thesis by simp
qed

lemma colbit_or: "colbit c OR l = l OR colbit c"
  by (simp add: or.commute)

lemma and_not_1_evenp: "evenp l \<Longrightarrow> l AND - 2 = l"
  using or_colbit_and_not_1 [of l Black] by (simp add: colbit_def)

lemma and_1_or_evenp: "evenp l \<Longrightarrow> (l AND 1) OR p = p"
  by (simp only: and_1_evenp [symmetric]) simp

named_theorems tnode_simps \<open>reading and writing a node of known contents\<close>

lemma cnode_sel [tnode_simps]: "node_key (cnode c k l r) = k" "right_node (cnode c k l r) = r"
  by (simp_all add: cnode_def)

lemma cnode_key [tnode_simps]: "(cnode c k l r)\<lparr>node_key := k'\<rparr> = cnode c k' l r"
  by (simp add: cnode_def)

lemma cnode_red [tnode_simps]: "evenp l \<Longrightarrow> n_red (cnode c k l r) \<longleftrightarrow> c = Red"
  by (simp add: cnode_def n_red_def or_colbit_and_1) (simp add: colbit_def)

lemma cnode_left [tnode_simps]: "evenp l \<Longrightarrow> n_left (cnode c k l r) = l"
  by (simp add: cnode_def n_left_def or_colbit_and_not_1)

lemma cnode_setred [tnode_simps]: "n_setred (cnode c k l r) = cnode Red k l r"
proof -
  have "(l OR colbit c) OR 1 = l OR colbit Red"
    by (rule bit_word_eqI) (auto simp: bit_simps bit_colbit)
  then show ?thesis by (simp add: cnode_def n_setred_def)
qed

lemma cnode_setblack [tnode_simps]: "evenp l \<Longrightarrow> n_setblack (cnode c k l r) = cnode Black k l r"
  by (simp add: cnode_def n_setblack_def or_colbit_and_not_1) (simp add: colbit_def)

lemma cnode_setleft [tnode_simps]: "evenp l \<Longrightarrow> n_setleft (cnode c k l r) l' = cnode c k l' r"
  by (simp add: cnode_def n_setleft_def or_colbit_and_1 colbit_or)

lemma cnode_setright [tnode_simps]: "n_setright (cnode c k l r) r' = cnode c k l r'"
  by (simp add: cnode_def n_setright_def)

section \<open>The macros as changes of one node\<close>

lemma nodes_set_node [simp]: "nodes (set_node s a x) = (nodes s)(a := x)"
  and root_var_set_node [simp]: "root_var (set_node s a x) = root_var s"
  by (simp_all add: set_node_def)

lemma macro_simps [tnode_simps]:
  "RED s n = n_red (nodes s n)" "SETRED s n = set_node s n (n_setred (nodes s n))"
  "SETBLACK s n = set_node s n (n_setblack (nodes s n))" "LEFT s n = n_left (nodes s n)"
  "RIGHT s n = right_node (nodes s n)" "SETLEFT s n l = set_node s n (n_setleft (nodes s n) l)"
  "SETRIGHT s n r = set_node s n (n_setright (nodes s n) r)"
  by (simp_all add: RED_def SETRED_def SETBLACK_def LEFT_def RIGHT_def SETLEFT_def SETRIGHT_def
      n_red_def n_setred_def n_setblack_def n_left_def n_setleft_def n_setright_def)

lemma DEREFNODEPTR_Leftp [tnode_simps]: "DEREFNODEPTR s (Leftp n) = n_left (nodes s n)"
  by (simp add: DEREFNODEPTR_def n_left_def)

lemma DEREFNODEPTR_Rightp [tnode_simps]:
  "evenp (right_node (nodes s n)) \<Longrightarrow> DEREFNODEPTR s (Rightp n) = right_node (nodes s n)"
  by (simp add: DEREFNODEPTR_def and_not_1_evenp)

lemma DEREFNODEPTR_Vroot: "evenp (root_var s) \<Longrightarrow> DEREFNODEPTR s Vroot = root_var s"
  by (simp add: DEREFNODEPTR_def and_not_1_evenp)

lemma SETNODEPTR_Leftp [tnode_simps]: "SETNODEPTR s (Leftp n) p = set_node s n (n_setleft (nodes s n) p)"
  by (simp add: SETNODEPTR_def n_setleft_def)

lemma SETNODEPTR_Rightp [tnode_simps]:
  "evenp (right_node (nodes s n)) \<Longrightarrow> SETNODEPTR s (Rightp n) p = set_node s n (n_setright (nodes s n) p)"
  by (simp add: SETNODEPTR_def n_setright_def and_1_or_evenp)

lemma SETNODEPTR_Vroot: "evenp (root_var s) \<Longrightarrow> SETNODEPTR s Vroot p = s\<lparr>root_var := p\<rparr>"
  by (simp add: SETNODEPTR_def and_1_or_evenp)

section \<open>Representation\<close>

fun rep :: "(u64 \<Rightarrow> 'k node_t) \<Rightarrow> 'k ttree \<Rightarrow> bool" where
  "rep h TLeaf \<longleftrightarrow> True"
| "rep h (TNode a c k l r) \<longleftrightarrow> h a = cnode c k (troot l) (troot r) \<and> rep h l \<and> rep h r"

fun rep_ctx :: "'k tstate \<Rightarrow> 'k frame list \<Rightarrow> u64 \<Rightarrow> bool" where
  "rep_ctx s [] p \<longleftrightarrow> root_var s = p"
| "rep_ctx s (LF a c k t # fs) p \<longleftrightarrow>
     nodes s a = cnode c k p (troot t) \<and> rep (nodes s) t \<and> rep_ctx s fs a"
| "rep_ctx s (RF a c k t # fs) p \<longleftrightarrow>
     nodes s a = cnode c k (troot t) p \<and> rep (nodes s) t \<and> rep_ctx s fs a"

definition wfaddrs :: "(u64 \<times> 'k) list \<Rightarrow> bool" where
  "wfaddrs xs \<longleftrightarrow> distinct (map fst xs) \<and> (\<forall>x\<in>set xs. fst x \<noteq> 0 \<and> evenp (fst x))"

text \<open>The state represents the tree with subtree \<open>t\<close> at the end of the path \<open>fs\<close>.\<close>

definition tree_at :: "'k tstate \<Rightarrow> 'k frame list \<Rightarrow> 'k ttree \<Rightarrow> bool" where
  "tree_at s fs t \<longleftrightarrow> rep (nodes s) t \<and> rep_ctx s fs (troot t) \<and> wfaddrs (lside fs @ inorder t @ rside fs)"

lemma rep_cong: "(\<And>a. a \<in> taddrs t \<Longrightarrow> h' a = h a) \<Longrightarrow> rep h' t = rep h t"
  by (induction t) auto

lemma rep_upd [simp]: "a \<notin> taddrs t \<Longrightarrow> rep (h(a := x)) t = rep h t"
  by (rule rep_cong) auto

lemma rep_ctx_cong:
  "(\<And>a. a \<in> caddrs fs \<Longrightarrow> nodes s' a = nodes s a) \<Longrightarrow> root_var s' = root_var s
     \<Longrightarrow> rep_ctx s' fs p = rep_ctx s fs p"
proof (induction s fs p rule: rep_ctx.induct)
  case (2 s a c k t fs p)
  then have "rep (nodes s') t = rep (nodes s) t" by (intro rep_cong) auto
  with 2 show ?case by auto
next
  case (3 s a c k t fs p)
  then have "rep (nodes s') t = rep (nodes s) t" by (intro rep_cong) auto
  with 3 show ?case by auto
qed simp

lemma rep_ctx_upd [simp]: "a \<notin> caddrs fs \<Longrightarrow> rep_ctx (set_node s a x) fs p = rep_ctx s fs p"
  by (rule rep_ctx_cong) auto

lemma wfaddrs_evenp_troot: "wfaddrs (xs @ inorder t @ ys) \<Longrightarrow> evenp (troot t)"
  by (cases t) (auto simp: wfaddrs_def)

lemma troot_0 [simp]: "wfaddrs (xs @ inorder t @ ys) \<Longrightarrow> troot t = 0 \<longleftrightarrow> t = TLeaf"
  by (cases t) (auto simp: wfaddrs_def)

section \<open>The end of a path\<close>

lemma deref_slot [simp]: "rep_ctx s fs p \<Longrightarrow> evenp p \<Longrightarrow> DEREFNODEPTR s (slot fs) = p"
  by (induction s fs p rule: rep_ctx.induct) (auto simp: tnode_simps DEREFNODEPTR_Vroot)

lemma nodes_set_slot [simp]: "a \<notin> caddrs fs \<Longrightarrow> nodes (SETNODEPTR s (slot fs) p') a = nodes s a"
  by (cases fs rule: slot.cases) (auto simp: SETNODEPTR_def)

lemma rep_set_slot [simp]:
  "taddrs t \<inter> caddrs fs = {} \<Longrightarrow> rep (nodes (SETNODEPTR s (slot fs) p')) t = rep (nodes s) t"
  by (rule rep_cong) (blast intro: nodes_set_slot)

lemma set_slot:
  "rep_ctx s fs p \<Longrightarrow> evenp p \<Longrightarrow> wfaddrs (lside fs @ rside fs) \<Longrightarrow> rep_ctx (SETNODEPTR s (slot fs) p') fs p'"
proof (induction s fs p rule: rep_ctx.induct)
  case (1 s p)
  then show ?case by (simp add: SETNODEPTR_Vroot)
next
  case (2 s a c k t fs p)
  then show ?case by (auto simp: tnode_simps wfaddrs_def)
next
  case (3 s a c k t fs p)
  then show ?case by (auto simp: tnode_simps wfaddrs_def)
qed

lemma tree_at_LF: "tree_at s (LF a c k r # fs) l \<longleftrightarrow> tree_at s fs (TNode a c k l r)"
  and tree_at_RF: "tree_at s (RF a c k l # fs) r \<longleftrightarrow> tree_at s fs (TNode a c k l r)"
  by (auto simp: tree_at_def)

definition same_outside :: "u64 set \<Rightarrow> 'k tstate \<Rightarrow> 'k tstate \<Rightarrow> bool" where
  "same_outside A s s' \<longleftrightarrow> (\<forall>a. a \<notin> A \<longrightarrow> nodes s' a = nodes s a)"

lemma same_outside_refl [simp]: "same_outside A s s"
  by (simp add: same_outside_def)

lemma same_outside_trans: "same_outside A s s' \<Longrightarrow> same_outside A s' s'' \<Longrightarrow> same_outside A s s''"
  by (simp add: same_outside_def)

abbreviation place :: "'k frame list \<Rightarrow> 'k ttree \<Rightarrow> (u64 \<times> 'k) list" where
  "place fs t \<equiv> lside fs @ inorder t @ rside fs"

lemma wfaddrs_troot:
  "wfaddrs xs \<Longrightarrow> set (inorder t) \<subseteq> set xs \<Longrightarrow> evenp (troot t)"
  by (cases t) (auto simp: wfaddrs_def)

lemma wfaddrs_mid:
  assumes "wfaddrs (ys @ (a, k) # zs)"
  shows "a \<notin> fst ` set ys \<and> a \<notin> fst ` set zs \<and> a \<noteq> 0 \<and> evenp a"
  using assms by (auto simp: wfaddrs_def)

lemma wfaddrs_disj:
  assumes "wfaddrs (lside fs @ ys @ rside fs)" "set (inorder t) \<subseteq> set ys"
  shows "taddrs t \<inter> caddrs fs = {} \<and> evenp (troot t)"
proof -
  have "fst ` set ys \<inter> caddrs fs = {}" using assms(1) by (auto simp: wfaddrs_def)
  then have "taddrs t \<inter> caddrs fs = {}" using assms(2) by blast
  then show ?thesis using wfaddrs_troot [OF assms(1), of t] assms(2) by auto
qed

text \<open>Three nodes with the four subtrees between them.\<close>

lemma wfaddrs_three:
  assumes "wfaddrs (lside fs @ (inorder t1 @ (x, kx) # inorder t2 @ (y, ky) # inorder t3 @ (z, kz) # inorder t4) @ rside fs)"
  shows "x \<noteq> y \<and> x \<noteq> z \<and> y \<noteq> z \<and> y \<noteq> x \<and> z \<noteq> x \<and> z \<noteq> y"
    "\<forall>u\<in>{x, y, z}. u \<notin> taddrs t1 \<and> u \<notin> taddrs t2 \<and> u \<notin> taddrs t3 \<and> u \<notin> taddrs t4 \<and> u \<notin> caddrs fs \<and> u \<noteq> 0 \<and> evenp u"
    "\<forall>t\<in>{t1, t2, t3, t4}. taddrs t \<inter> caddrs fs = {} \<and> evenp (troot t)"
    "wfaddrs (lside fs @ rside fs)"
proof -
  note w = assms [simplified append_assoc append_Cons]
  note x = wfaddrs_mid [of "lside fs @ inorder t1" x kx "inorder t2 @ (y, ky) # inorder t3 @ (z, kz) # inorder t4 @ rside fs"]
    and y = wfaddrs_mid [of "lside fs @ inorder t1 @ (x, kx) # inorder t2" y ky "inorder t3 @ (z, kz) # inorder t4 @ rside fs"]
    and z = wfaddrs_mid [of "lside fs @ inorder t1 @ (x, kx) # inorder t2 @ (y, ky) # inorder t3" z kz "inorder t4 @ rside fs"]
  show "x \<noteq> y \<and> x \<noteq> z \<and> y \<noteq> z \<and> y \<noteq> x \<and> z \<noteq> x \<and> z \<noteq> y" using x y z w by (simp add: image_Un)
  show "\<forall>u\<in>{x, y, z}. u \<notin> taddrs t1 \<and> u \<notin> taddrs t2 \<and> u \<notin> taddrs t3 \<and> u \<notin> taddrs t4 \<and> u \<notin> caddrs fs \<and> u \<noteq> 0 \<and> evenp u"
    using x y z w by (simp add: image_Un)
  show "\<forall>t\<in>{t1, t2, t3, t4}. taddrs t \<inter> caddrs fs = {} \<and> evenp (troot t)"
    by (intro ballI wfaddrs_disj [OF assms]) auto
  show "wfaddrs (lside fs @ rside fs)"
    using assms by (auto simp: wfaddrs_def)
qed

lemma same_set_node [tnode_simps]: "a \<in> A \<Longrightarrow> same_outside A s (set_node s' a x) = same_outside A s s'"
  by (auto simp: same_outside_def)

lemma same_SETNODEPTR [tnode_simps]:
  "a \<in> A \<Longrightarrow> same_outside A s (SETNODEPTR s' (Rightp a) p) = same_outside A s s'"
  by (auto simp: same_outside_def SETNODEPTR_def)

lemma same_set_slot [tnode_simps]:
  "caddrs fs \<subseteq> A \<Longrightarrow> same_outside A s (SETNODEPTR s' (slot fs) p) = same_outside A s s'"
  by (cases fs rule: slot.cases)
    (simp_all add: SETNODEPTR_Leftp same_set_node same_SETNODEPTR, simp add: same_outside_def SETNODEPTR_def)

text \<open>The node pointer the loops keep for the parent, and the colour of the parent.\<close>

fun parent :: "'k frame list \<Rightarrow> nodep option" where
  "parent [] = None"
| "parent (f # fs) = Some (slot fs)"

fun frame_red :: "'k frame list \<Rightarrow> bool" where
  "frame_red [] = False"
| "frame_red (LF a c k t # fs) = (c = Red)"
| "frame_red (RF a c k t # fs) = (c = Red)"

section \<open>Reading and recolouring a node\<close>

lemma tree_at_node:
  assumes "tree_at s fs (TNode a c k l r)"
  shows "a \<noteq> 0 \<and> DEREFNODEPTR s (slot fs) = a \<and> LEFT s a = troot l \<and> RIGHT s a = troot r \<and> RED s a = (c = Red)
     \<and> node_key (nodes s a) = k \<and> DEREFNODEPTR s (Leftp a) = troot l \<and> DEREFNODEPTR s (Rightp a) = troot r
     \<and> (troot l = 0 \<longleftrightarrow> l = TLeaf) \<and> (troot r = 0 \<longleftrightarrow> r = TLeaf)"
proof -
  have wf: "wfaddrs (lside fs @ (inorder l @ (a, k) # inorder r) @ rside fs)"
    using assms by (simp add: tree_at_def)
  have "evenp (troot l)" "evenp (troot r)"
    using wfaddrs_disj [OF wf, of l] wfaddrs_disj [OF wf, of r] by auto
  moreover have "a \<noteq> 0" "evenp a"
    using wf by (auto simp: wfaddrs_def)
  moreover have "troot l = 0 \<longleftrightarrow> l = TLeaf" "troot r = 0 \<longleftrightarrow> r = TLeaf"
    using wf by (cases l; auto simp: wfaddrs_def) (use wf in \<open>cases r; auto simp: wfaddrs_def\<close>)
  ultimately show ?thesis using assms by (simp add: tree_at_def tnode_simps)
qed

lemma tree_at_root: "tree_at s [] t \<Longrightarrow> root_var s = troot t \<and> (troot t = 0 \<longleftrightarrow> t = TLeaf)"
  by (cases t) (auto simp: tree_at_def wfaddrs_def)

lemma tree_at_RED: "tree_at s fs t \<Longrightarrow> t \<noteq> TLeaf \<Longrightarrow> RED s (troot t) = is_red t"
  by (cases t) (simp_all add: tree_at_node)

fun faddr :: "'k frame \<Rightarrow> u64" where
  "faddr (LF a c k t) = a" | "faddr (RF a c k t) = a"

lemma parent_node:
  assumes "tree_at s (f # fs) t"
  shows "DEREFNODEPTR s (slot fs) = faddr f \<and> RED s (faddr f) = frame_red (f # fs)"
proof (cases f)
  case (LF a c k r)
  then show ?thesis using tree_at_node [of s fs a c k t r] assms by (simp add: tree_at_LF)
next
  case (RF a c k l)
  then show ?thesis using tree_at_node [of s fs a c k l t] assms by (simp add: tree_at_RF)
qed

lemma gparent_node: "tree_at s (f # g # fs) t \<Longrightarrow> DEREFNODEPTR s (slot fs) = faddr g"
  by (cases f; cases g) (auto simp: tree_at_LF tree_at_RF dest: tree_at_node)

lemma tree_at_black:
  assumes "tree_at s fs (TNode a c k l r)"
  shows "tree_at (SETBLACK s a) fs (TNode a Black k l r)"
proof -
  have wf: "wfaddrs (lside fs @ (inorder l @ (a, k) # inorder r) @ rside fs)"
    using assms by (simp add: tree_at_def)
  have "a \<notin> taddrs l \<and> a \<notin> taddrs r \<and> a \<notin> caddrs fs" "evenp (troot l)"
    using wfaddrs_mid [of "lside fs @ inorder l" a k "inorder r @ rside fs"] wf wfaddrs_disj [OF wf, of l]
    by (auto simp: image_Un)
  then show ?thesis using assms by (simp add: tree_at_def tnode_simps)
qed

lemma tree_at_red:
  assumes "tree_at s fs (TNode a c k l r)"
  shows "tree_at (SETRED s a) fs (TNode a Red k l r)"
proof -
  have wf: "wfaddrs (lside fs @ (inorder l @ (a, k) # inorder r) @ rside fs)"
    using assms by (simp add: tree_at_def)
  have "a \<notin> taddrs l \<and> a \<notin> taddrs r \<and> a \<notin> caddrs fs"
    using wfaddrs_mid [of "lside fs @ inorder l" a k "inorder r @ rside fs"] wf
    by (auto simp: image_Un)
  then show ?thesis using assms by (simp add: tree_at_def tnode_simps)
qed

lemma tree_at_blacken:
  assumes "tree_at s fs t"
  shows "tree_at (if troot t \<noteq> 0 then SETBLACK s (troot t) else s) fs (blacken t)"
proof (cases t)
  case (TNode a c k l r)
  then have "a \<noteq> 0" using assms by (auto simp: tree_at_def wfaddrs_def)
  with TNode show ?thesis using tree_at_black assms by auto
qed (use assms in simp)

end
