(* ===== verification/Tsearch_Split.thy ===== *)
theory Tsearch_Split
  imports Tsearch_Rep
begin
text \<open>
  \<open>maybe_split_for_insert\<close> at a place of a represented tree: the recoloured node and the four rotations, as changes of
  the path and the subtree.
\<close>

section \<open>Rotations\<close>

lemma rotate_double_LR:
  assumes "tree_at s (LF p Red pk ps # RF g gc gk gs # fs) (TNode a c k l r)" "p_r < 0"
  shows "tree_at (rotate_double s a (troot r) (troot l) p g (slot fs) p_r) fs
           (TNode a Black k (TNode g Red gk gs l) (TNode p Red pk r ps))"
proof -
  have wf: "wfaddrs (lside fs @ (inorder gs @ (g, gk) # inorder l @ (a, k) # inorder r @ (p, pk) # inorder ps) @ rside fs)"
    using assms by (simp add: tree_at_def)
  show ?thesis
    using assms wf wfaddrs_three [OF wf]
    by (simp add: tree_at_def rotate_double_def Let_def tnode_simps set_slot [of _ fs g])
qed

lemma rotate_double_RL:
  assumes "tree_at s (RF p Red pk ps # LF g gc gk gs # fs) (TNode a c k l r)" "0 < p_r"
  shows "tree_at (rotate_double s a (troot r) (troot l) p g (slot fs) p_r) fs
           (TNode a Black k (TNode p Red pk ps l) (TNode g Red gk r gs))"
proof -
  have wf: "wfaddrs (lside fs @ (inorder ps @ (p, pk) # inorder l @ (a, k) # inorder r @ (g, gk) # inorder gs) @ rside fs)"
    using assms by (simp add: tree_at_def)
  show ?thesis
    using assms wf wfaddrs_three [OF wf]
    by (simp add: tree_at_def rotate_double_def Let_def tnode_simps set_slot [of _ fs g])
qed

lemma rotate_single_LL:
  assumes "tree_at s (LF p Red pk ps # LF g gc gk gs # fs) (TNode a c k l r)" "p_r < 0"
  shows "tree_at (rotate_single s p g (slot fs) p_r) (LF p Black pk (TNode g Red gk ps gs) # fs) (TNode a c k l r)"
proof -
  have wf: "wfaddrs (lside fs @ (inorder l @ (a, k) # inorder r @ (p, pk) # inorder ps @ (g, gk) # inorder gs) @ rside fs)"
    using assms by (simp add: tree_at_def)
  show ?thesis
    using assms wf wfaddrs_three [OF wf]
    by (simp add: tree_at_def rotate_single_def Let_def tnode_simps set_slot [of _ fs g])
qed

lemma rotate_single_RR:
  assumes "tree_at s (RF p Red pk ps # RF g gc gk gs # fs) (TNode a c k l r)" "0 < p_r"
  shows "tree_at (rotate_single s p g (slot fs) p_r) (RF p Black pk (TNode g Red gk gs ps) # fs) (TNode a c k l r)"
proof -
  have wf: "wfaddrs (lside fs @ (inorder gs @ (g, gk) # inorder ps @ (p, pk) # inorder l @ (a, k) # inorder r) @ rside fs)"
    using assms by (simp add: tree_at_def)
  show ?thesis
    using assms wf wfaddrs_three [OF wf]
    by (simp add: tree_at_def rotate_single_def Let_def tnode_simps set_slot [of _ fs g])
qed

lemma same_rotate_double:
  "same_outside A s s' \<Longrightarrow> {a, p, g} \<union> caddrs fs \<subseteq> A \<Longrightarrow> same_outside A s (rotate_double s' a u v p g (slot fs) p_r)"
  by (simp add: rotate_double_def Let_def tnode_simps)

lemma same_rotate_single:
  "same_outside A s s' \<Longrightarrow> {p, g} \<union> caddrs fs \<subseteq> A \<Longrightarrow> same_outside A s (rotate_single s' p g (slot fs) p_r)"
  by (simp add: rotate_single_def Let_def tnode_simps)

section \<open>Splitting a node\<close>

text \<open>What \<open>maybe_split_for_insert\<close> does to the place: the recoloured node, after a rotation if its parent is red.\<close>

fun rotated :: "'k frame list \<Rightarrow> 'k ttree \<Rightarrow> 'k frame list \<times> 'k ttree" where
  "rotated (LF p Red pk ps # RF g gc gk gs # fs) (TNode a c k l r) =
     (fs, TNode a Black k (TNode g Red gk gs l) (TNode p Red pk r ps))"
| "rotated (RF p Red pk ps # LF g gc gk gs # fs) (TNode a c k l r) =
     (fs, TNode a Black k (TNode p Red pk ps l) (TNode g Red gk r gs))"
| "rotated (LF p Red pk ps # LF g gc gk gs # fs) t = (LF p Black pk (TNode g Red gk ps gs) # fs, t)"
| "rotated (RF p Red pk ps # RF g gc gk gs # fs) t = (RF p Black pk (TNode g Red gk gs ps) # fs, t)"
| "rotated fs t = (fs, t)"

fun split_place :: "bool \<Rightarrow> 'k frame list \<Rightarrow> 'k ttree \<Rightarrow> 'k frame list \<times> 'k ttree" where
  "split_place mode fs (TNode a c k l r) =
     (if mode \<or> is_red l \<and> is_red r then rotated fs (TNode a Red k (blacken l) (blacken r)) else (fs, TNode a c k l r))"
| "split_place mode fs TLeaf = (fs, TLeaf)"

lemma place_rotated: "rotated fs t = (fs', t') \<Longrightarrow> place fs' t' = place fs t"
  by (induction fs t rule: rotated.induct) auto

lemma inorder_blacken [simp]: "inorder (blacken t) = inorder t"
  by (cases t) auto

lemma troot_blacken [simp]: "troot (blacken t) = troot t"
  by (cases t) auto

lemma place_split: "split_place mode fs t = (fs', t') \<Longrightarrow> place fs' t' = place fs t"
  by (cases t) (auto split: if_splits dest!: place_rotated)

text \<open>The comparison result that reached a place.\<close>

fun dir_ok :: "'k frame list \<Rightarrow> int \<Rightarrow> bool" where
  "dir_ok [] r = True"
| "dir_ok (LF a c k t # fs) r = (r < 0)"
| "dir_ok (RF a c k t # fs) r = (0 < r)"

lemma rotated_id: "\<not> frame_red fs \<Longrightarrow> rotated fs t = (fs, t)"
  by (induction fs t rule: rotated.induct) auto

text \<open>Recolouring the node and its children.\<close>

definition recolour :: "'k tstate \<Rightarrow> u64 \<Rightarrow> u64 \<Rightarrow> u64 \<Rightarrow> 'k tstate" where
  "recolour s root rpn lpn =
     (let s = SETRED s root; s = (if rpn \<noteq> 0 then SETBLACK s rpn else s)
      in if lpn \<noteq> 0 then SETBLACK s lpn else s)"

lemma tree_at_recolour:
  assumes "tree_at s fs (TNode a c k l r)"
  shows "tree_at (recolour s a (troot r) (troot l)) fs (TNode a Red k (blacken l) (blacken r))"
proof -
  have "tree_at (SETRED s a) (RF a Red k l # fs) r"
    using tree_at_red [OF assms] by (simp add: tree_at_RF)
  from tree_at_blacken [OF this] show ?thesis
    unfolding recolour_def Let_def tree_at_RF tree_at_LF [symmetric]
    by (drule_tac tree_at_blacken) simp
qed

lemma same_recolour:
  "a \<in> A \<Longrightarrow> r \<noteq> 0 \<longrightarrow> r \<in> A \<Longrightarrow> l \<noteq> 0 \<longrightarrow> l \<in> A \<Longrightarrow> same_outside A s (recolour s a r l)"
  by (simp add: recolour_def Let_def tnode_simps)

lemma split_test:
  assumes "tree_at s fs (TNode a c k l r)"
  shows "troot r \<noteq> 0 \<and> troot l \<noteq> 0 \<and> RED s (troot r) \<and> RED s (troot l) \<longleftrightarrow> is_red l \<and> is_red r"
proof -
  have "tree_at s (RF a c k l # fs) r" "tree_at s (LF a c k r # fs) l"
    using assms by (simp_all add: tree_at_LF tree_at_RF)
  then show ?thesis
    using tree_at_node [OF assms] by (cases l; cases r) (auto dest: tree_at_RED)
qed

lemma maybe_split_eq:
  assumes "tree_at s fs (TNode a c k l r)"
  shows "maybe_split_for_insert s (slot fs) parentp gparentp p_r gp_r mode =
    (if mode \<or> is_red l \<and> is_red r
     then (let s = recolour s a (troot r) (troot l)
           in case parentp of
                None \<Rightarrow> Some s
              | Some pp \<Rightarrow>
                  if RED s (DEREFNODEPTR s pp)
                  then (case gparentp of
                          None \<Rightarrow> None
                        | Some gpp \<Rightarrow>
                            (let gp = DEREFNODEPTR s gpp; p = DEREFNODEPTR s pp
                             in if (0 < p_r) \<noteq> (0 < gp_r)
                                then Some (rotate_double s a (troot r) (troot l) p gp gpp p_r)
                                else Some (rotate_single s p gp gpp p_r)))
                  else Some s)
     else Some s)"
proof -
  have e: "DEREFNODEPTR s (slot fs) = a" "RIGHT s a = troot r" "LEFT s a = troot l"
    using tree_at_node [OF assms] by simp_all
  show ?thesis
    unfolding maybe_split_for_insert_def recolour_def Let_def e split_test [OF assms] ..
qed

text \<open>The pointers are the ones the split needs: it looks at the grandparent only if the parent is red.\<close>

definition ptrs_ok :: "'k frame list \<Rightarrow> nodep option \<Rightarrow> nodep option \<Rightarrow> int \<Rightarrow> int \<Rightarrow> bool" where
  "ptrs_ok fs parentp gparentp p_r gp_r \<longleftrightarrow>
     parentp = parent fs \<and> dir_ok fs p_r
     \<and> (frame_red fs \<longrightarrow> tl fs \<noteq> [] \<and> gparentp = parent (tl fs) \<and> dir_ok (tl fs) gp_r)"

lemma maybe_split_tree_at:
  assumes t: "tree_at s fs (TNode a c k l r)"
    and p: "mode \<or> is_red l \<and> is_red r \<longrightarrow> ptrs_ok fs parentp gparentp p_r gp_r"
    and sp: "split_place mode fs (TNode a c k l r) = (fs', t')"
  shows "\<exists>s'. maybe_split_for_insert s (slot fs) parentp gparentp p_r gp_r mode = Some s' \<and> tree_at s' fs' t'
    \<and> same_outside (fst ` set (place fs (TNode a c k l r))) s s'"
proof (cases "mode \<or> is_red l \<and> is_red r")
  case False
  then show ?thesis using sp t by (simp add: maybe_split_eq [OF t] del: split_paired_Ex) auto
next
  case True
  define u where "u = TNode a Red k (blacken l) (blacken r)"
  define s1 where "s1 = recolour s a (troot r) (troot l)"
  have t1: "tree_at s1 fs u" using tree_at_recolour [OF t] by (simp add: u_def s1_def)
  have rot: "rotated fs u = (fs', t')" using sp True by (auto simp: u_def)
  define M where "M = maybe_split_for_insert s (slot fs) parentp gparentp p_r gp_r mode"
  note eq = maybe_split_eq [OF t, of parentp gparentp p_r gp_r mode, folded s1_def M_def, unfolded Let_def]
  define A where "A = fst ` set (place fs (TNode a c k l r))"
  have same: "same_outside A s s1"
    unfolding s1_def by (rule same_recolour) (cases l; cases r; auto simp: A_def)+
  have "\<exists>s'. M = Some s' \<and> tree_at s' fs' t' \<and> same_outside A s s'"
  proof (cases "frame_red fs")
    case False
    then have "fs' = fs \<and> t' = u" using rot by (simp add: rotated_id)
    then show ?thesis
      using True False p t1 same parent_node [of s1 "hd fs" "tl fs" u] by (cases fs) (auto simp: eq ptrs_ok_def)
  next
    case red: True
    then obtain f g gs where fs: "fs = f # g # gs"
      using p True by (cases fs; cases "tl fs") (auto simp: ptrs_ok_def)
    have P: "parentp = Some (slot (g # gs))" "gparentp = Some (slot gs)" "dir_ok fs p_r" "dir_ok (g # gs) gp_r"
      using p True red fs by (auto simp: ptrs_ok_def)
    have D: "DEREFNODEPTR s1 (slot (g # gs)) = faddr f" "RED s1 (faddr f)" "DEREFNODEPTR s1 (slot gs) = faddr g"
      using parent_node gparent_node t1 red unfolding fs by blast+
    have sub: "{a, faddr f, faddr g} \<union> caddrs gs \<subseteq> A"
      unfolding A_def fs by (cases f; cases g) auto
    note sd = same_rotate_double [OF same] and ss = same_rotate_single [OF same]
    show ?thesis
    proof (cases f)
      case (LF p pc pk ps)
      note f = this
      show ?thesis
      proof (cases g)
        case (LF g' gc gk gs')
        then show ?thesis
          using t1 rot red P D True f sub rotate_single_LL [of s1 p pk ps g' gc gk gs' gs a Red k "blacken l" "blacken r" p_r]
          by (auto simp: eq fs u_def sd ss)
      next
        case (RF g' gc gk gs')
        then show ?thesis
          using t1 rot red P D True f sub rotate_double_LR [of s1 p pk ps g' gc gk gs' gs a Red k "blacken l" "blacken r" p_r]
          by (auto simp: eq fs u_def sd ss)
      qed
    next
      case (RF p pc pk ps)
      note f = this
      show ?thesis
      proof (cases g)
        case (LF g' gc gk gs')
        then show ?thesis
          using t1 rot red P D True f sub rotate_double_RL [of s1 p pk ps g' gc gk gs' gs a Red k "blacken l" "blacken r" p_r]
          by (auto simp: eq fs u_def sd ss)
      next
        case (RF g' gc gk gs')
        then show ?thesis
          using t1 rot red P D True f sub rotate_single_RR [of s1 p pk ps g' gc gk gs' gs a Red k "blacken l" "blacken r" p_r]
          by (auto simp: eq fs u_def sd ss)
      qed
    qed
  qed
  then show ?thesis by (simp add: M_def A_def)
qed

end
