(* ===== verification/Tsearch_Redblack.thy ===== *)
theory Tsearch_Redblack
  imports Tsearch_Split
begin

text \<open>
  The red-black conditions and the order of the keys at a place of a tree, and what the rotations keep of them.
\<close>

section \<open>Red-black trees\<close>

fun bh :: "'k ttree \<Rightarrow> nat" where
  "bh TLeaf = 0"
| "bh (TNode a c k l r) = bh l + (if c = Black then 1 else 0)"

fun rb :: "'k ttree \<Rightarrow> bool" where
  "rb TLeaf = True"
| "rb (TNode a c k l r) \<longleftrightarrow> rb l \<and> rb r \<and> bh l = bh r \<and> (c = Red \<longrightarrow> \<not> is_red l \<and> \<not> is_red r)"

text \<open>The same conditions on the nodes of a path whose subtree has the given black height and colour.\<close>

fun rb_ctx :: "'k frame list \<Rightarrow> nat \<Rightarrow> bool \<Rightarrow> bool" where
  "rb_ctx [] n red = True"
| "rb_ctx (LF a c k t # fs) n red \<longleftrightarrow>
     rb t \<and> bh t = n \<and> (c = Red \<longrightarrow> \<not> red \<and> \<not> is_red t) \<and> rb_ctx fs (n + (if c = Black then 1 else 0)) (c = Red)"
| "rb_ctx (RF a c k t # fs) n red \<longleftrightarrow>
     rb t \<and> bh t = n \<and> (c = Red \<longrightarrow> \<not> red \<and> \<not> is_red t) \<and> rb_ctx fs (n + (if c = Black then 1 else 0)) (c = Red)"

definition rb_at :: "'k frame list \<Rightarrow> 'k ttree \<Rightarrow> bool" where
  "rb_at fs t \<longleftrightarrow> rb t \<and> rb_ctx fs (bh t) (is_red t)"

lemma rb_at_LF: "rb_at (LF a c k r # fs) l \<longleftrightarrow> rb_at fs (TNode a c k l r)"
  and rb_at_RF: "rb_at (RF a c k l # fs) r \<longleftrightarrow> rb_at fs (TNode a c k l r)"
  by (auto simp: rb_at_def)

text \<open>The whole tree.\<close>

fun plug :: "'k frame list \<Rightarrow> 'k ttree \<Rightarrow> 'k ttree" where
  "plug [] t = t"
| "plug (LF a c k r # fs) t = plug fs (TNode a c k t r)"
| "plug (RF a c k l # fs) t = plug fs (TNode a c k l t)"

lemma tree_at_plug: "tree_at s [] (plug fs t) \<longleftrightarrow> tree_at s fs t"
  by (induction fs t rule: plug.induct) (auto simp: tree_at_LF tree_at_RF)

lemma rb_plug: "rb (plug fs t) \<longleftrightarrow> rb_at fs t"
  by (induction fs t rule: plug.induct) (auto simp: rb_at_LF rb_at_RF, auto simp: rb_at_def)

lemma inorder_plug: "inorder (plug fs t) = place fs t"
  by (induction fs t rule: plug.induct) auto

text \<open>The other child of the last node of a path.\<close>

fun sib :: "'k frame list \<Rightarrow> 'k ttree" where
  "sib [] = TLeaf"
| "sib (LF a c k t # fs) = t"
| "sib (RF a c k t # fs) = t"

lemma rb_ctx_not_red: "rb_ctx fs n True \<Longrightarrow> rb_ctx fs n False"
  by (cases fs rule: sib.cases) auto

lemma not_Red [simp]: "c \<noteq> Red \<longleftrightarrow> c = Black"
  and not_Black [simp]: "c \<noteq> Black \<longleftrightarrow> c = Red"
  by (cases c; simp)+

lemma rb_rotated:
  assumes "rb_ctx fs (bh u) False" "frame_red fs \<longrightarrow> tl fs \<noteq> [] \<and> \<not> is_red (sib (tl fs))"
    "u = TNode a Red k l r" "rb u" "rotated fs u = (fs', t')"
  shows "rb_at fs' t'"
proof (cases "frame_red fs")
  case False
  then have "rb_ctx fs (bh u) True" using assms(1) by (cases fs rule: frame_red.cases) auto
  with False show ?thesis using assms by (auto simp: rotated_id rb_at_def)
next
  case True
  then obtain f g gs where fs: "fs = f # g # gs"
    using assms(2) by (cases fs; cases "tl fs") auto
  show ?thesis
    using assms True unfolding fs
    by (cases f; cases g) (auto simp: rb_at_def dest: rb_ctx_not_red split: if_splits)
qed

lemma rb_blacken: "rb t \<Longrightarrow> rb (blacken t)"
  by (cases t) auto

lemma bh_blacken: "bh (blacken t) = (if is_red t then Suc (bh t) else bh t)"
  by (cases t) auto

lemma is_red_blacken [simp]: "\<not> is_red (blacken t)"
  by (cases t) auto

section \<open>The order of the keys\<close>

text \<open>What the comparison function promises.\<close>

definition total_compar :: "('k \<Rightarrow> 'k \<Rightarrow> int) \<Rightarrow> bool" where
  "total_compar compar \<longleftrightarrow>
     (\<forall>x y. compar x y < 0 \<longleftrightarrow> 0 < compar y x)
     \<and> (\<forall>x y z. compar x y < 0 \<longrightarrow> compar y z < 0 \<longrightarrow> compar x z < 0)
     \<and> (\<forall>x y z. compar x y = 0 \<longrightarrow> compar y z < 0 \<longrightarrow> compar x z < 0)"

definition ascending :: "('k \<Rightarrow> 'k \<Rightarrow> int) \<Rightarrow> (u64 \<times> 'k) list \<Rightarrow> bool" where
  "ascending compar xs \<longleftrightarrow> sorted_wrt (\<lambda>x y. compar (snd x) (snd y) < 0) xs"

text \<open>The key belongs at the end of the path.\<close>

definition fits :: "('k \<Rightarrow> 'k \<Rightarrow> int) \<Rightarrow> 'k \<Rightarrow> 'k frame list \<Rightarrow> bool" where
  "fits compar key fs \<longleftrightarrow>
     (\<forall>x\<in>set (lside fs). 0 < compar key (snd x)) \<and> (\<forall>x\<in>set (rside fs). compar key (snd x) < 0)"

lemma fits_LF:
  assumes "total_compar compar" "ascending compar (place fs (TNode a c k l r))" "fits compar key fs" "compar key k < 0"
  shows "fits compar key (LF a c' k r # fs)"
proof -
  have "compar key (snd x) < 0" if "x \<in> set (inorder r)" for x
  proof -
    have "compar k (snd x) < 0" using assms(2) that by (auto simp: ascending_def sorted_wrt_append)
    then show ?thesis using assms(1,4) unfolding total_compar_def by blast
  qed
  then show ?thesis using assms(3,4) by (auto simp: fits_def)
qed

lemma fits_RF:
  assumes "total_compar compar" "ascending compar (place fs (TNode a c k l r))" "fits compar key fs" "0 < compar key k"
  shows "fits compar key (RF a c' k l # fs)"
proof -
  have "0 < compar key (snd x)" if "x \<in> set (inorder l)" for x
  proof -
    have "compar (snd x) k < 0" "compar k key < 0"
      using assms that by (auto simp: ascending_def sorted_wrt_append total_compar_def)
    then show ?thesis using assms(1) unfolding total_compar_def by blast
  qed
  then show ?thesis using assms by (auto simp: fits_def)
qed

end
