(* ===== verification/Tsearch_Insert.thy ===== *)
theory Tsearch_Insert
  imports Tsearch_Redblack
begin

unbundle bit_operations_syntax

text \<open>
  The descent of \<open>tsearch\<close> in a red-black tree: it ends, it keeps the tree, its pointers are right whenever they are
  used, and the new node is linked in at its place.
\<close>

section \<open>One round of the search\<close>

definition both_red :: "'k ttree \<Rightarrow> 'k ttree \<Rightarrow> bool" where
  "both_red l r \<longleftrightarrow> is_red l \<and> is_red r"

text \<open>Below a node the search goes to one side; the node becomes the last frame of the path.\<close>

definition turn :: "int \<Rightarrow> u64 \<Rightarrow> color \<Rightarrow> 'k \<Rightarrow> 'k ttree \<Rightarrow> 'k ttree \<Rightarrow> 'k frame \<times> 'k ttree" where
  "turn d a c k l r = (if d < 0 then (LF a c k r, l) else (RF a c k l, r))"

lemma turn_laws:
  assumes "turn d a c k l r = (f, u)"
  shows "tree_at s (f # fs) u \<longleftrightarrow> tree_at s fs (TNode a c k l r)"
    "rb_at (f # fs) u \<longleftrightarrow> rb_at fs (TNode a c k l r)"
    "place (f # fs) u = place fs (TNode a c k l r)"
    "d \<noteq> 0 \<Longrightarrow> dir_ok (f # fs) d" "frame_red (f # fs) \<longleftrightarrow> c = Red"
    "slot (f # fs) = (if d < 0 then Leftp a else Rightp a)"
    "is_red u \<and> is_red (sib (f # fs)) \<longleftrightarrow> both_red l r" "u \<in> {l, r}"
  using assms by (auto simp: turn_def tree_at_LF tree_at_RF rb_at_LF rb_at_RF both_red_def split: if_splits)

lemma fits_turn:
  assumes "total_compar compar" "ascending compar (place fs (TNode a c k l r))" "fits compar key fs" "compar key k \<noteq> 0"
    and "turn (compar key k) a c k l r = (f, u)"
  shows "fits compar key (f # fs)"
  using assms fits_LF [of compar fs a c k l r key c] fits_RF [of compar fs a c k l r key c]
  by (auto simp: turn_def split: if_splits)

lemma turn_deref:
  assumes "tree_at s fs (TNode a c k l r)" "turn d a c k l r = (f, u)"
  shows "DEREFNODEPTR s (slot (f # fs)) = 0 \<longleftrightarrow> u = TLeaf"
  using tree_at_node [OF assms(1)] assms(2) by (auto simp: turn_def split: if_splits)

text \<open>A round that splits nothing.\<close>

lemma round_pass:
  assumes t: "tree_at s fs (TNode a c k l r)" and br: "\<not> both_red l r" and ne: "compar key k \<noteq> 0"
    and f: "turn (compar key k) a c k l r = (f, u)"
  shows "tsearch_loop compar key s (slot fs) parentp gparentp p_r gp_r =
    (if u = TLeaf then Some (Free_at s (slot (f # fs)) (slot fs) parentp (compar key k) p_r)
     else tsearch_loop compar key s (slot (f # fs)) (Some (slot fs)) parentp (compar key k) p_r)"
  using tree_at_node [OF t] br ne turn_deref [OF t f] turn_laws(6) [OF f]
  by (subst tsearch_loop.simps) (auto simp: maybe_split_eq [OF t] both_red_def)

text \<open>A round that splits the node: it goes on below the node, wherever a rotation has put it.\<close>

lemma round_split:
  assumes t: "tree_at s fs (TNode a c k l r)" and br: "both_red l r" and ne: "compar key k \<noteq> 0"
    and p: "ptrs_ok fs parentp gparentp p_r gp_r"
    and rot: "rotated fs (TNode a Red k (blacken l) (blacken r)) = (fs', TNode a c' k l' r')"
    and f: "turn (compar key k) a c' k l' r' = (f, u)" and u: "u \<noteq> TLeaf"
  shows "\<exists>s'. tree_at s' (f # fs') u \<and> same_outside (fst ` set (place fs (TNode a c k l r))) s s'
    \<and> tsearch_loop compar key s (slot fs) parentp gparentp p_r gp_r =
        tsearch_loop compar key s' (slot (f # fs')) (Some (slot fs)) parentp (compar key k) p_r"
proof -
  obtain s' where s': "maybe_split_for_insert s (slot fs) parentp gparentp p_r gp_r False = Some s'"
      "tree_at s' fs' (TNode a c' k l' r')" "same_outside (fst ` set (place fs (TNode a c k l r))) s s'"
    using maybe_split_tree_at [OF t, of False parentp gparentp p_r gp_r fs' "TNode a c' k l' r'"] p br rot
    by (auto simp: both_red_def)
  have "tsearch_loop compar key s (slot fs) parentp gparentp p_r gp_r =
        tsearch_loop compar key s' (slot (f # fs')) (Some (slot fs)) parentp (compar key k) p_r"
    using tree_at_node [OF t] s'(1) ne turn_deref [OF s'(2) f] turn_laws(6) [OF f] u
    by (subst tsearch_loop.simps) auto
  then show ?thesis using s' turn_laws(1) [OF f] by blast
qed

section \<open>The search\<close>

text \<open>A black node without red children.\<close>

fun calm :: "'k ttree \<Rightarrow> bool" where
  "calm (TNode a c k l r) \<longleftrightarrow> c = Black \<and> \<not> is_red l \<and> \<not> is_red r"
| "calm TLeaf = True"

text \<open>
  What the descent keeps.  The nodes above have been split: a red node has no red sibling.  After a rotation the pointer to
  the grandparent is stale, but then the node is black and so are its children, and the pointer is not looked at before it is
  replaced.
\<close>

fun ready :: "'k frame list \<Rightarrow> 'k ttree \<Rightarrow> bool" where
  "ready fs (TNode a c k l r) \<longleftrightarrow>
     (frame_red fs \<and> both_red l r \<longrightarrow> tl fs \<noteq> [] \<and> \<not> is_red (sib (tl fs))) \<and> (c = Red \<longrightarrow> fs \<noteq> [] \<and> \<not> is_red (sib fs))"
| "ready fs TLeaf = True"

definition search_ptrs ::
  "'k frame list \<Rightarrow> 'k ttree \<Rightarrow> nodep option \<Rightarrow> nodep option \<Rightarrow> int \<Rightarrow> int \<Rightarrow> bool" where
  "search_ptrs fs t parentp gparentp p_r gp_r \<longleftrightarrow>
     parentp = parent fs \<and> dir_ok fs p_r
     \<and> (calm t \<or> ready fs t \<and> (fs \<noteq> [] \<longrightarrow> gparentp = parent (tl fs) \<and> dir_ok (tl fs) gp_r))"

definition search_inv :: "('k \<Rightarrow> 'k \<Rightarrow> int) \<Rightarrow> 'k \<Rightarrow> 'k tstate \<Rightarrow> 'k frame list \<Rightarrow> 'k ttree \<Rightarrow> bool" where
  "search_inv compar key s fs t \<longleftrightarrow> tree_at s fs t \<and> rb_at fs t \<and> fits compar key fs"

text \<open>The end of the search at a free place: the pointers are the ones the last split needs.\<close>

definition free_ok :: "'k frame list \<Rightarrow> nodep \<Rightarrow> nodep \<Rightarrow> nodep option \<Rightarrow> int \<Rightarrow> int \<Rightarrow> bool" where
  "free_ok fs nextp rootp parentp r p_r \<longleftrightarrow>
     fs \<noteq> [] \<and> nextp = slot fs \<and> ptrs_ok fs (Some rootp) parentp r p_r \<and> (frame_red fs \<longrightarrow> \<not> is_red (sib (tl fs)))"

lemma ready_after_pass:
  assumes "search_ptrs fs (TNode a c k l r) parentp gparentp p_r gp_r" "\<not> both_red l r" "d \<noteq> 0"
    and "turn d a c k l r = (f, u)"
  shows "u = TLeaf \<Longrightarrow> free_ok (f # fs) (slot (f # fs)) (slot fs) parentp d p_r"
    "search_ptrs (f # fs) u (Some (slot fs)) parentp d p_r"
  using assms turn_laws(4,5,7) [OF assms(4), of fs]
  by (auto simp: search_ptrs_def free_ok_def ptrs_ok_def; cases u; auto)+

lemma fits_rotated: "rotated fs t = (fs', t') \<Longrightarrow> fits compar key fs \<Longrightarrow> fits compar key fs'"
  by (induction fs t rule: rotated.induct) (auto simp: fits_def)

text \<open>
  A rotation leaves the node on its place below the parent (a single one, or none), or puts it on top of its parent and
  grandparent; then the key leads through one of these back to the node's old child.
\<close>

fun leads_to :: "('k \<Rightarrow> 'k \<Rightarrow> int) \<Rightarrow> 'k \<Rightarrow> 'k ttree \<Rightarrow> 'k ttree set \<Rightarrow> bool" where
  "leads_to compar key (TNode x c kx lx rx) S \<longleftrightarrow>
     c = Red \<and> compar key kx \<noteq> 0 \<and> snd (turn (compar key kx) x c kx lx rx) \<in> S"
| "leads_to compar key TLeaf S = False"

lemma rotated_cases:
  assumes "rotated fs (TNode a Red k l r) = (fs', t')" "fits compar key fs" "compar key k \<noteq> 0"
  shows "t' = TNode a Red k l r \<and> slot fs' = slot fs
    \<or> (case t' of TNode a' c' k' L R \<Rightarrow> a' = a \<and> c' = Black \<and> k' = k
         \<and> leads_to compar key (snd (turn (compar key k) a c' k L R)) {l, r} | TLeaf \<Rightarrow> False)"
proof (cases "frame_red fs \<and> tl fs \<noteq> []")
  case False
  then have "rotated fs (TNode a Red k l r) = (fs, TNode a Red k l r)"
    by (cases fs rule: frame_red.cases) (auto simp: rotated_id)
  then show ?thesis using assms by simp
next
  case True
  then obtain f g gs where fs: "fs = f # g # gs" by (cases fs; cases "tl fs") auto
  show ?thesis
    using assms True unfolding fs
    by (cases f; cases g; cases "compar key k < 0") (auto simp: turn_def fits_def)
qed

lemma calm_blacken: "rb t \<Longrightarrow> is_red t \<Longrightarrow> calm (blacken t) \<and> blacken t \<noteq> TLeaf"
  by (cases t) auto

lemma size_blacken [simp]: "size (blacken t) = size t"
  by (cases t) auto

text \<open>What a round leaves: the search goes on at a smaller subtree of the same tree.\<close>

definition goes_on ::
  "('k \<Rightarrow> 'k \<Rightarrow> int) \<Rightarrow> 'k \<Rightarrow> 'k tstate \<Rightarrow> 'k frame list \<Rightarrow> 'k ttree \<Rightarrow> 'k search_end option \<Rightarrow> bool" where
  "goes_on compar key s fs t result \<longleftrightarrow>
     (\<exists>s' fs' u parentp gparentp p_r gp_r.
        result = tsearch_loop compar key s' (slot fs') parentp gparentp p_r gp_r
        \<and> search_inv compar key s' fs' u \<and> search_ptrs fs' u parentp gparentp p_r gp_r
        \<and> u \<noteq> TLeaf \<and> size u < size t \<and> place fs' u = place fs t \<and> same_outside (fst ` set (place fs t)) s s')"

lemma goes_onI:
  assumes "result = tsearch_loop compar key s' (slot fs') parentp gparentp p_r gp_r"
    "search_inv compar key s' fs' u" "search_ptrs fs' u parentp gparentp p_r gp_r"
    "u \<noteq> TLeaf" "size u < size t" "place fs' u = place fs t" "same_outside (fst ` set (place fs t)) s s'"
  shows "goes_on compar key s fs t result"
  using assms unfolding goes_on_def by blast

lemma split_goes_on:
  assumes inv: "search_inv compar key s fs (TNode a c k l r)"
    and ptrs: "search_ptrs fs (TNode a c k l r) parentp gparentp p_r gp_r"
    and ord: "total_compar compar" "ascending compar (place fs (TNode a c k l r))"
    and ne: "compar key k \<noteq> 0" and br: "both_red l r"
  shows "goes_on compar key s fs (TNode a c k l r) (tsearch_loop compar key s (slot fs) parentp gparentp p_r gp_r)"
proof -
  let ?t = "TNode a c k l r" and ?v = "TNode a Red k (blacken l) (blacken r)"
  have t: "tree_at s fs ?t" and rbt: "rb_at fs ?t" and fit: "fits compar key fs"
    using inv by (auto simp: search_inv_def)
  have rd: "frame_red fs \<longrightarrow> tl fs \<noteq> [] \<and> \<not> is_red (sib (tl fs))" and p: "ptrs_ok fs parentp gparentp p_r gp_r"
    using ptrs br by (cases fs; auto simp: search_ptrs_def ptrs_ok_def both_red_def)+
  obtain fs' t' where rot: "rotated fs ?v = (fs', t')" by fastforce
  have red: "is_red l" "is_red r" "rb l" "rb r" "c = Black" "bh l = bh r"
    using br rbt by (auto simp: both_red_def rb_at_def)
  have rb': "rb_at fs' t'"
    by (rule rb_rotated [OF _ rd refl _ rot]) (use red rbt in \<open>auto simp: rb_at_def bh_blacken rb_blacken\<close>)
  have fit': "fits compar key fs'" by (rule fits_rotated [OF rot fit])
  have pl: "place fs' t' = place fs ?t" using place_rotated [OF rot] by simp
  note calm = calm_blacken [OF red(3,1)] calm_blacken [OF red(4,2)]
  from rotated_cases [OF rot fit ne] show ?thesis
  proof (elim disjE conjE)
    assume t': "t' = ?v" and sl: "slot fs' = slot fs"
    obtain f u where f: "turn (compar key k) a Red k (blacken l) (blacken r) = (f, u)" by fastforce
    then have u: "u \<in> {blacken l, blacken r}" by (rule turn_laws(8))
    obtain s' where s': "tree_at s' (f # fs') u" "same_outside (fst ` set (place fs ?t)) s s'"
      "tsearch_loop compar key s (slot fs) parentp gparentp p_r gp_r =
         tsearch_loop compar key s' (slot (f # fs')) (Some (slot fs)) parentp (compar key k) p_r"
      using round_split [of s fs a c k l r compar key parentp gparentp p_r gp_r, OF t br ne p rot [unfolded t'] f] u calm by auto
    have "fits compar key (f # fs')"
      by (rule fits_turn [OF ord(1) _ fit' ne f]) (use ord(2) pl t' in simp)
    then show ?thesis
      using s' u calm sl rb' pl turn_laws(2,3,4) [OF f] ne unfolding t'
      by (intro goes_onI [OF s'(3), of u]) (auto simp: search_inv_def search_ptrs_def)
  next
    assume "case t' of TNode a' c' k' L R \<Rightarrow> a' = a \<and> c' = Black \<and> k' = k
      \<and> leads_to compar key (snd (turn (compar key k) a c' k L R)) {blacken l, blacken r} | TLeaf \<Rightarrow> False"
    then obtain L R f x kx lx rx where t': "t' = TNode a Black k L R"
      and f: "turn (compar key k) a Black k L R = (f, TNode x Red kx lx rx)"
      and x: "compar key kx \<noteq> 0" "snd (turn (compar key kx) x Red kx lx rx) \<in> {blacken l, blacken r}"
      by (auto split: ttree.splits elim!: leads_to.elims) (metis prod.collapse)+
    obtain f2 u where f2: "turn (compar key kx) x Red kx lx rx = (f2, u)" by fastforce
    then have u: "u \<in> {blacken l, blacken r}" using x by simp
    obtain s' where s': "tree_at s' (f # fs') (TNode x Red kx lx rx)" "same_outside (fst ` set (place fs ?t)) s s'"
      "tsearch_loop compar key s (slot fs) parentp gparentp p_r gp_r =
         tsearch_loop compar key s' (slot (f # fs')) (Some (slot fs)) parentp (compar key k) p_r"
      using round_split [of s fs a c k l r compar key parentp gparentp p_r gp_r, OF t br ne p rot [unfolded t'] f] by auto
    have rbx: "rb_at (f # fs') (TNode x Red kx lx rx)" and plx: "place (f # fs') (TNode x Red kx lx rx) = place fs ?t"
      using rb' pl turn_laws(2,3) [OF f] unfolding t' by auto
    then have nb: "\<not> both_red lx rx" by (auto simp: rb_at_def both_red_def)
    have fx: "fits compar key (f # fs')"
      by (rule fits_turn [OF ord(1) _ fit' ne f]) (use ord(2) pl t' in simp)
    have "fits compar key (f2 # f # fs')"
      by (rule fits_turn [OF ord(1) _ fx x(1) f2]) (use ord(2) plx in simp)
    moreover have "tsearch_loop compar key s (slot fs) parentp gparentp p_r gp_r =
        tsearch_loop compar key s' (slot (f2 # f # fs')) (Some (slot (f # fs'))) (Some (slot fs)) (compar key kx) (compar key k)"
      using s'(3) u calm by (auto simp: round_pass [OF s'(1) nb, of compar key f2 u, OF x(1) f2])
    ultimately show ?thesis
      using s' u calm rbx plx turn_laws(1,2,3,4) [OF f2] x(1)
      by (intro goes_onI [of _ _ _ s' "f2 # f # fs'", where u = u]) (auto simp: search_inv_def search_ptrs_def)
  qed
qed

lemma pass_goes_on:
  assumes inv: "search_inv compar key s fs (TNode a c k l r)"
    and ptrs: "search_ptrs fs (TNode a c k l r) parentp gparentp p_r gp_r"
    and ord: "total_compar compar" "ascending compar (place fs (TNode a c k l r))"
    and ne: "compar key k \<noteq> 0" and br: "\<not> both_red l r"
    and f: "turn (compar key k) a c k l r = (f, u)"
  shows "if u = TLeaf
    then tsearch_loop compar key s (slot fs) parentp gparentp p_r gp_r =
           Some (Free_at s (slot (f # fs)) (slot fs) parentp (compar key k) p_r)
         \<and> free_ok (f # fs) (slot (f # fs)) (slot fs) parentp (compar key k) p_r \<and> search_inv compar key s (f # fs) u
    else goes_on compar key s fs (TNode a c k l r) (tsearch_loop compar key s (slot fs) parentp gparentp p_r gp_r)"
proof -
  have t: "tree_at s fs (TNode a c k l r)" using inv by (simp add: search_inv_def)
  have "fits compar key (f # fs)"
    by (rule fits_turn [OF ord _ ne f]) (use inv in \<open>simp add: search_inv_def\<close>)
  then have i: "search_inv compar key s (f # fs) u"
    using inv turn_laws(1,2) [OF f] by (simp add: search_inv_def)
  have sz: "size u < size (TNode a c k l r)" using turn_laws(8) [OF f] by auto
  have eq: "tsearch_loop compar key s (slot fs) parentp gparentp p_r gp_r =
    (if u = TLeaf then Some (Free_at s (slot (f # fs)) (slot fs) parentp (compar key k) p_r)
     else tsearch_loop compar key s (slot (f # fs)) (Some (slot fs)) parentp (compar key k) p_r)"
    using t br ne f by (rule round_pass)
  show ?thesis
  proof (cases "u = TLeaf")
    case True
    then show ?thesis using eq i ready_after_pass(1) [OF ptrs br ne f] by simp
  next
    case False
    then show ?thesis
      using eq i sz ready_after_pass(2) [OF ptrs br ne f] turn_laws(3) [OF f]
      by (auto intro!: goes_onI [where s' = s and fs' = "f # fs" and u = u])
  qed
qed

text \<open>The search ends, at a node with the key or at the free place where the key belongs.\<close>

fun search_result ::
  "('k \<Rightarrow> 'k \<Rightarrow> int) \<Rightarrow> 'k \<Rightarrow> 'k tstate \<Rightarrow> (u64 \<times> 'k) list \<Rightarrow> 'k search_end \<Rightarrow> bool" where
  "search_result compar key s xs (Found_at a s') \<longleftrightarrow>
     same_outside (fst ` set xs) s s' \<and> (\<exists>t k. tree_at s' [] t \<and> rb t \<and> inorder t = xs \<and> (a, k) \<in> set xs \<and> compar key k = 0)"
| "search_result compar key s xs (Free_at s' nextp rootp parentp r p_r) \<longleftrightarrow>
     same_outside (fst ` set xs) s s'
     \<and> (\<exists>fs. search_inv compar key s' fs TLeaf \<and> place fs TLeaf = xs \<and> free_ok fs nextp rootp parentp r p_r)"

lemma search_result_same:
  "search_result compar key s' xs e \<Longrightarrow> same_outside (fst ` set xs) s s' \<Longrightarrow> search_result compar key s xs e"
  by (cases e) (auto intro: same_outside_trans)

lemma tsearch_loop_ends:
  assumes "search_inv compar key s fs t" "search_ptrs fs t parentp gparentp p_r gp_r" "t \<noteq> TLeaf"
    and ord: "total_compar compar" "ascending compar (place fs t)"
  shows "\<exists>e. tsearch_loop compar key s (slot fs) parentp gparentp p_r gp_r = Some e
    \<and> search_result compar key s (place fs t) e"
  using assms
proof (induction "size t" arbitrary: s fs t parentp gparentp p_r gp_r rule: less_induct)
  case less
  let ?e = "tsearch_loop compar key s (slot fs) parentp gparentp p_r gp_r"
  obtain a c k l r where t: "t = TNode a c k l r" using less.prems(3) by (cases t) auto
  have on: ?case if go: "goes_on compar key s fs t ?e"
  proof -
    from go obtain s' fs' u pp gp p g where
      u: "?e = tsearch_loop compar key s' (slot fs') pp gp p g"
      "search_inv compar key s' fs' u" "search_ptrs fs' u pp gp p g"
      "u \<noteq> TLeaf" "size u < size t" "place fs' u = place fs t" "same_outside (fst ` set (place fs t)) s s'"
      unfolding goes_on_def by blast
    then obtain e where "tsearch_loop compar key s' (slot fs') pp gp p g = Some e" "search_result compar key s' (place fs t) e"
      using less.hyps [of u s' fs' pp gp p g] ord(1) less.prems(5) by auto
    then show ?thesis using u(1,7) search_result_same by metis
  qed
  show ?case
  proof (cases "compar key k = 0")
    case True
    have "tree_at s [] (plug fs t)" "rb (plug fs t)" "inorder (plug fs t) = place fs t"
      using less.prems(1) by (auto simp: search_inv_def tree_at_plug rb_plug inorder_plug)
    moreover have "?e = Some (Found_at a s)"
      using tree_at_node [of s fs a c k l r] less.prems(1) True
      by (subst tsearch_loop.simps) (auto simp: search_inv_def t)
    ultimately show ?thesis using True by (auto simp: t)
  next
    case ne: False
    show ?thesis
    proof (cases "both_red l r")
      case True
      show ?thesis
        using split_goes_on [OF less.prems(1,2,4,5) [unfolded t]] ne True by (intro on) (simp add: t)
    next
      case False
      obtain f u where f: "turn (compar key k) a c k l r = (f, u)" by fastforce
      have "place (f # fs) u = place fs t" using turn_laws(3) [OF f] t by simp
      then show ?thesis
        using pass_goes_on [OF less.prems(1,2,4,5) [unfolded t] ne False f] on
        by (cases "u = TLeaf") (auto simp: t)
    qed
  qed
qed

section \<open>Insertion\<close>

lemma new_node: "n_setright (n_setleft (n_setred (x\<lparr>node_key := key\<rparr>)) 0) 0 = cnode Red key 0 0"
proof -
  have "((w OR 1) AND 1) OR 0 = 0 OR colbit Red" for w :: u64
    by (rule bit_word_eqI) (auto simp: bit_simps bit_colbit)
  then show ?thesis by (simp add: cnode_def n_setright_def n_setleft_def n_setred_def)
qed

definition link_new :: "'k tstate \<Rightarrow> nodep \<Rightarrow> u64 \<Rightarrow> 'k \<Rightarrow> 'k tstate" where
  "link_new s nextp q key =
     (let s = SETNODEPTR s nextp q; s = set_node s q ((nodes s q)\<lparr>node_key := key\<rparr>);
          s = SETRED s q; s = SETLEFT s q 0
      in SETRIGHT s q 0)"

lemma tree_at_link_new:
  assumes t: "tree_at s fs TLeaf" and q: "q \<noteq> 0" "evenp q" "q \<notin> fst ` set (place fs TLeaf)"
  shows "tree_at (link_new s (slot fs) q key) fs (TNode q Red key TLeaf TLeaf)"
    "same_outside (insert q (fst ` set (place fs TLeaf))) s (link_new s (slot fs) q key)"
proof -
  have wf: "wfaddrs (lside fs @ rside fs)" and c: "rep_ctx s fs 0" using t by (auto simp: tree_at_def)
  have q': "q \<notin> caddrs fs" using q(3) by (simp add: image_Un)
  have "wfaddrs (lside fs @ (q, key) # rside fs)"
    using wf q q' by (auto simp: wfaddrs_def)
  moreover have "rep_ctx (SETNODEPTR s (slot fs) q) fs q" by (rule set_slot [OF c _ wf]) simp
  ultimately show "tree_at (link_new s (slot fs) q key) fs (TNode q Red key TLeaf TLeaf)"
    using q q' by (simp add: tree_at_def link_new_def Let_def tnode_simps new_node)
  show "same_outside (insert q (fst ` set (place fs TLeaf))) s (link_new s (slot fs) q key)"
    by (simp add: link_new_def Let_def tnode_simps image_Un subset_insertI2)
qed

text \<open>The tree a root variable stands for.\<close>

definition tree_ok :: "('k \<Rightarrow> 'k \<Rightarrow> int) \<Rightarrow> 'k tstate \<Rightarrow> 'k ttree \<Rightarrow> bool" where
  "tree_ok compar s t \<longleftrightarrow> tree_at s [] t \<and> rb t \<and> ascending compar (inorder t)"

text \<open>The sorted list with a new element.\<close>

fun ins_sorted :: "('k \<Rightarrow> 'k \<Rightarrow> int) \<Rightarrow> u64 \<times> 'k \<Rightarrow> (u64 \<times> 'k) list \<Rightarrow> (u64 \<times> 'k) list" where
  "ins_sorted compar x [] = [x]"
| "ins_sorted compar x (y # ys) = (if compar (snd x) (snd y) < 0 then x # y # ys else y # ins_sorted compar x ys)"

lemma ins_sorted_fits:
  "(\<forall>x\<in>set xs. 0 < compar key (snd x)) \<Longrightarrow> (\<forall>x\<in>set ys. compar key (snd x) < 0)
     \<Longrightarrow> ins_sorted compar (q, key) (xs @ ys) = xs @ (q, key) # ys"
  by (induction xs) (cases ys; force)+

lemma ascending_ins:
  assumes "total_compar compar" "ascending compar (xs @ ys)"
    "\<forall>x\<in>set xs. 0 < compar key (snd x)" "\<forall>x\<in>set ys. compar key (snd x) < 0"
  shows "ascending compar (xs @ (q, key) # ys)"
  using assms by (auto simp: ascending_def sorted_wrt_append total_compar_def)

lemma insert_at:
  assumes inv: "search_inv compar key s fs TLeaf" and ord: "total_compar compar" "ascending compar (place fs TLeaf)"
    and q: "q \<noteq> 0" "evenp q" "q \<notin> fst ` set (place fs TLeaf)"
    and p: "fs \<noteq> [] \<longrightarrow> free_ok fs nextp rootp parentp r p_r" and s1: "s1 = link_new s (slot fs) q key"
  shows "\<exists>s' t. (if fs = [] then Some s1 else maybe_split_for_insert s1 (slot fs) (Some rootp) parentp r p_r True) = Some s'
    \<and> tree_ok compar s' t \<and> inorder t = ins_sorted compar (q, key) (place fs TLeaf)
    \<and> same_outside (insert q (fst ` set (place fs TLeaf))) s s'"
proof -
  let ?n = "TNode q Red key TLeaf TLeaf" and ?A = "insert q (fst ` set (place fs TLeaf))"
  have t: "tree_at s fs TLeaf" and r: "rb_ctx fs 0 False" and fit: "fits compar key fs"
    using inv by (auto simp: search_inv_def rb_at_def)
  have t1: "tree_at s1 fs ?n" and same: "same_outside ?A s s1"
    using tree_at_link_new [OF t q] by (simp_all add: s1)
  have pl: "place fs ?n = ins_sorted compar (q, key) (place fs TLeaf)" "ascending compar (place fs ?n)"
    using fit ord by (simp_all add: fits_def ins_sorted_fits ascending_ins)
  show ?thesis
  proof (cases "fs = []")
    case True
    then show ?thesis using t1 same pl by (auto simp: tree_ok_def intro!: exI [of _ ?n])
  next
    case False
    obtain fs' t' where rot: "rotated fs ?n = (fs', t')" by fastforce
    have "frame_red fs \<longrightarrow> tl fs \<noteq> [] \<and> \<not> is_red (sib (tl fs))"
      using p False by (auto simp: free_ok_def ptrs_ok_def)
    then have "rb_at fs' t'" by (rule rb_rotated [OF _ _ refl _ rot, rotated]) (use r in auto)
    moreover obtain s' where s': "maybe_split_for_insert s1 (slot fs) (Some rootp) parentp r p_r True = Some s'"
      "tree_at s' fs' t'" "same_outside (fst ` set (place fs ?n)) s1 s'"
      using maybe_split_tree_at [OF t1, of True "Some rootp" parentp r p_r fs' t'] rot p False by (auto simp: free_ok_def)
    moreover have "fst ` set (place fs ?n) = ?A" by auto
    ultimately show ?thesis
      using False same pl place_rotated [OF rot] same_outside_trans [of ?A s s1 s']
      by (auto simp: tree_ok_def tree_at_plug rb_plug inorder_plug intro!: exI [of _ "plug fs' t'"])
  qed
qed

lemma slot_ne: "tree_at s (f # fs) t \<Longrightarrow> slot (f # fs) \<noteq> slot fs"
  by (cases f; cases fs rule: slot.cases) (auto simp: tree_at_def wfaddrs_def)

text \<open>The part of \<open>tsearch\<close> before the allocation.\<close>

definition descend :: "('k \<Rightarrow> 'k \<Rightarrow> int) \<Rightarrow> 'k \<Rightarrow> 'k tstate \<Rightarrow> 'k search_end option" where
  "descend compar key s =
     (let s = (if DEREFNODEPTR s Vroot \<noteq> 0 then SETBLACK s (DEREFNODEPTR s Vroot) else s)
      in if DEREFNODEPTR s Vroot \<noteq> 0 then tsearch_loop compar key s Vroot None None 0 0
         else Some (Free_at s Vroot Vroot None 0 0))"

lemma tsearch_eq:
  "tsearch compar key (Some Vroot) q s =
     Option.bind (descend compar key s)
           (\<lambda>e. case e of
              Found_at root s \<Rightarrow> Some (root, s)
            | Free_at s nextp rootp parentp r p_r \<Rightarrow>
                if q = 0 then Some (0, s)
                else if \<not> evenp q then None
                else map_option (Pair q)
                       (if nextp = rootp then Some (link_new s nextp q key)
                        else maybe_split_for_insert (link_new s nextp q key) nextp (Some rootp) parentp r p_r True))"
proof -
  have "map_option (Pair q) m = Option.bind m (\<lambda>s. Some (q, s))" for m :: "'a tstate option"
    by (cases m) auto
  then show ?thesis
    unfolding tsearch_def descend_def option.case link_new_def Let_def and_1_evenp
    by (intro arg_cong2 [where f = Option.bind] refl ext) (simp split: search_end.splits)
qed

fun descend_result ::
  "('k \<Rightarrow> 'k \<Rightarrow> int) \<Rightarrow> 'k \<Rightarrow> 'k tstate \<Rightarrow> (u64 \<times> 'k) list \<Rightarrow> 'k search_end \<Rightarrow> bool" where
  "descend_result compar key s xs (Found_at a s') \<longleftrightarrow> search_result compar key s xs (Found_at a s')"
| "descend_result compar key s xs (Free_at s' nextp rootp parentp r p_r) \<longleftrightarrow>
     same_outside (fst ` set xs) s s'
     \<and> (\<exists>fs. search_inv compar key s' fs TLeaf \<and> place fs TLeaf = xs \<and> nextp = slot fs \<and> (nextp = rootp \<longleftrightarrow> fs = [])
          \<and> (fs \<noteq> [] \<longrightarrow> free_ok fs nextp rootp parentp r p_r))"

lemma descend_result_search: "search_result compar key s xs e \<Longrightarrow> descend_result compar key s xs e"
proof (cases e)
  case (Free_at s' nextp rootp parentp r p_r)
  assume "search_result compar key s xs e"
  then obtain fs where fs: "search_inv compar key s' fs TLeaf" "place fs TLeaf = xs" "free_ok fs nextp rootp parentp r p_r"
    "same_outside (fst ` set xs) s s'" using Free_at by auto
  then have "nextp \<noteq> rootp"
    using slot_ne [of s' "hd fs" "tl fs" TLeaf] by (cases fs) (auto simp: free_ok_def ptrs_ok_def search_inv_def)
  with fs Free_at show ?thesis by (auto simp: free_ok_def)
qed simp

lemma descend_ends:
  assumes ok: "tree_ok compar s t" and tot: "total_compar compar"
  shows "\<exists>e. descend compar key s = Some e \<and> descend_result compar key s (inorder t) e"
proof (cases t)
  case TLeaf
  then have "tree_at s [] TLeaf" using ok by (simp add: tree_ok_def)
  then show ?thesis using TLeaf
    by (auto simp: descend_def tree_at_def DEREFNODEPTR_Vroot search_inv_def rb_at_def fits_def intro!: exI [of _ "[]"])
next
  case (TNode a c k l r)
  have t: "tree_at s [] t" "rb t" "ascending compar (inorder t)" using ok by (auto simp: tree_ok_def)
  have a: "a \<noteq> 0" "DEREFNODEPTR s Vroot = a" using tree_at_node [of s "[]" a c k l r] t TNode by auto
  have t1: "tree_at (SETBLACK s a) [] (TNode a Black k l r)" by (rule tree_at_black [OF t(1) [unfolded TNode]])
  have "DEREFNODEPTR (SETBLACK s a) Vroot = a" using tree_at_node [OF t1] by simp
  then have d: "descend compar key s = tsearch_loop compar key (SETBLACK s a) (slot []) None None 0 0"
    using a by (simp add: descend_def)
  have "search_inv compar key (SETBLACK s a) [] (TNode a Black k l r)"
    using t1 t(2) by (simp add: search_inv_def rb_at_def fits_def TNode)
  then obtain e where e: "descend compar key s = Some e" "search_result compar key (SETBLACK s a) (inorder t) e"
    using tsearch_loop_ends [of compar key "SETBLACK s a" "[]" "TNode a Black k l r" None None 0 0] tot t(3)
    by (auto simp: search_ptrs_def TNode) (metis d slot.simps(1))
  have "same_outside (fst ` set (inorder t)) s (SETBLACK s a)" by (simp add: tnode_simps TNode)
  from descend_result_search [OF search_result_same [OF e(2) this]] e(1) show ?thesis by simp
qed

lemma tsearch_ok:
  assumes ok: "tree_ok compar s t" and tot: "total_compar compar"
    and q: "q \<noteq> 0 \<longrightarrow> q AND 1 = 0 \<and> q \<notin> fst ` set (inorder t)"
  shows "\<exists>a s' t'. tsearch compar key (Some Vroot) q s = Some (a, s')
    \<and> tree_ok compar s' t' \<and> same_outside (insert q (fst ` set (inorder t))) s s'
    \<and> (if \<exists>x\<in>set (inorder t). compar key (snd x) = 0
        then inorder t' = inorder t \<and> (\<exists>k. (a, k) \<in> set (inorder t) \<and> compar key k = 0)
        else if q = 0 then inorder t' = inorder t \<and> a = 0
        else inorder t' = ins_sorted compar (q, key) (inorder t) \<and> a = q)"
proof -
  let ?xs = "inorder t"
  obtain e where e: "descend compar key s = Some e" "descend_result compar key s ?xs e"
    using descend_ends [OF ok tot] by blast
  have asc: "ascending compar ?xs" using ok by (simp add: tree_ok_def)
  have same: "same_outside (fst ` set ?xs) s s' \<Longrightarrow> same_outside (insert q (fst ` set ?xs)) s s'" for s'
    by (simp add: same_outside_def)
  show ?thesis
  proof (cases e)
    case (Found_at a s')
    with e obtain t' k where "tree_at s' [] t'" "rb t'" "inorder t' = ?xs" "(a, k) \<in> set ?xs" "compar key k = 0"
      "same_outside (fst ` set ?xs) s s'" by auto
    then show ?thesis
      using asc e(1) Found_at same by (intro exI [of _ a] exI [of _ s'] exI [of _ t']) (auto simp: tsearch_eq tree_ok_def)
  next
    case (Free_at s' nextp rootp parentp r p_r)
    with e obtain fs where fs: "search_inv compar key s' fs TLeaf" "place fs TLeaf = ?xs" "nextp = slot fs"
      "nextp = rootp \<longleftrightarrow> fs = []" "fs \<noteq> [] \<longrightarrow> free_ok fs nextp rootp parentp r p_r" and s': "same_outside (fst ` set ?xs) s s'"
      by auto
    have new: "\<not> (\<exists>x\<in>set ?xs. compar key (snd x) = 0)"
      using fs(1) unfolding fs(2) [symmetric] search_inv_def fits_def by force
    show ?thesis
    proof (cases "q = 0")
      case True
      have "tree_ok compar s' (plug fs TLeaf)" "inorder (plug fs TLeaf) = ?xs"
        using fs(1,2) asc by (auto simp: tree_ok_def search_inv_def tree_at_plug rb_plug inorder_plug)
      then show ?thesis using e(1) Free_at True new s' same
        by (intro exI [of _ 0] exI [of _ s'] exI [of _ "plug fs TLeaf"]) (auto simp: tsearch_eq)
    next
      case False
      obtain s2 t' where s2: "(if fs = [] then Some (link_new s' (slot fs) q key)
          else maybe_split_for_insert (link_new s' (slot fs) q key) (slot fs) (Some rootp) parentp r p_r True) = Some s2"
        "tree_ok compar s2 t'" "inorder t' = ins_sorted compar (q, key) ?xs" "same_outside (insert q (fst ` set ?xs)) s' s2"
        using insert_at [OF fs(1) tot, unfolded fs(2), OF asc _ _ _ fs(5) refl, of q] q False unfolding and_1_evenp by blast
      then have "tsearch compar key (Some Vroot) q s = Some (q, s2)"
        using e(1) Free_at fs(3,4) q False by (auto simp: tsearch_eq and_1_evenp)
      then show ?thesis using s2 new False same_outside_trans [OF same [OF s'] s2(4)] by (intro exI [of _ q] exI [of _ s2] exI [of _ t']) auto
    qed
  qed
qed

end
