(* ===== verification/Tsearch_Repair.thy ===== *)
theory Tsearch_Repair
  imports Tsearch_Insert
begin

text \<open>
  The repair loop of \<open>tdelete\<close>: a subtree that lacks one black edge moves towards the root until a recolouring or a
  rotation makes up for it.
\<close>

section \<open>Repair after a deletion\<close>

text \<open>The subtree at the end of the path lacks one black edge; it may be red with a red child.\<close>

definition short_at :: "'k frame list \<Rightarrow> 'k ttree \<Rightarrow> bool" where
  "short_at fs t \<longleftrightarrow> rb (blacken t) \<and> rb_ctx fs (Suc (bh t)) False"

lemma is_red_iff: "is_red t \<longleftrightarrow> (\<exists>a k l r. t = TNode a Red k l r)"
  by (cases t) auto

lemma null_or_black_tree:
  assumes "tree_at s fs t"
  shows "null_or_black s (troot t) \<longleftrightarrow> \<not> is_red t"
proof (cases t)
  case (TNode a c k l r)
  then show ?thesis using tree_at_node [of s fs a c k l r] assms by (auto simp: null_or_black_def)
qed (simp add: null_or_black_def)

lemma nephews:
  assumes "tree_at s fs (TNode q c k l r)"
  shows "null_or_black s (LEFT s q) \<longleftrightarrow> \<not> is_red l" "null_or_black s (RIGHT s q) \<longleftrightarrow> \<not> is_red r"
proof -
  have "tree_at s (LF q c k r # fs) l" "tree_at s (RF q c k l # fs) r"
    using assms by (simp_all add: tree_at_LF tree_at_RF)
  then show "null_or_black s (LEFT s q) \<longleftrightarrow> \<not> is_red l" "null_or_black s (RIGHT s q) \<longleftrightarrow> \<not> is_red r"
    using tree_at_node [OF assms] null_or_black_tree by auto
qed

lemma balance_left_double:
  assumes "tree_at s (LF p pc pk (TNode q Black qk (TNode q2 Red k2 a b) qr) # fs) t" "\<not> is_red qr" "{p, q, q2} \<union> caddrs fs \<subseteq> A"
  shows "\<exists>s'. balance_left s (slot fs) st p q = (s', [], 0) \<and> same_outside A s s' \<and> tree_at s' fs (TNode q2 pc k2 (TNode p Black pk t a) (TNode q Black qk b qr))"
proof -
  have wf: "wfaddrs (lside fs @ (inorder t @ (p, pk) # inorder a @ (q2, k2) # inorder b @ (q, qk) # inorder qr) @ rside fs)"
    using assms by (simp add: tree_at_def)
  have "tree_at s (RF p pc pk t # fs) (TNode q Black qk (TNode q2 Red k2 a b) qr)"
    using assms by (simp add: tree_at_LF tree_at_RF)
  note n = nephews [OF this]
  show ?thesis
    using assms wf wfaddrs_three [OF wf] n
    by (cases pc) (simp_all add: tree_at_def balance_left_def Let_def tnode_simps set_slot [of _ fs p])
qed

lemma balance_left_single:
  assumes "tree_at s (LF p pc pk (TNode q Black qk ql (TNode q2 Red k2 a b)) # fs) t" "{p, q, q2} \<union> caddrs fs \<subseteq> A"
  shows "\<exists>s'. balance_left s (slot fs) st p q = (s', [], 0) \<and> same_outside A s s' \<and> tree_at s' fs (TNode q pc qk (TNode p Black pk t ql) (TNode q2 Black k2 a b))"
proof -
  have wf: "wfaddrs (lside fs @ (inorder t @ (p, pk) # inorder ql @ (q, qk) # inorder a @ (q2, k2) # inorder b) @ rside fs)"
    using assms by (simp add: tree_at_def)
  have "tree_at s (RF p pc pk t # fs) (TNode q Black qk ql (TNode q2 Red k2 a b))"
    using assms by (simp add: tree_at_LF tree_at_RF)
  note n = nephews [OF this]
  show ?thesis
    using assms wf wfaddrs_three [OF wf] n
    by (cases pc) (simp_all add: tree_at_def balance_left_def Let_def tnode_simps set_slot [of _ fs p])
qed

lemma balance_left_recolour:
  assumes "tree_at s (LF p pc pk (TNode q Black qk ql qr) # fs) t" "\<not> is_red ql" "\<not> is_red qr" "q \<in> A"
  shows "\<exists>s'. balance_left s (slot fs) st p q = (s', tl st, p) \<and> same_outside A s s' \<and> tree_at s' fs (TNode p pc pk t (TNode q Red qk ql qr))"
proof -
  have t: "tree_at s (RF p pc pk t # fs) (TNode q Black qk ql qr)"
    using assms by (simp add: tree_at_LF tree_at_RF)
  have "same_outside A s (SETRED s q)" using assms(4) by (simp add: tnode_simps)
  then show ?thesis
    using nephews [OF t] assms tree_at_red [OF t] by (simp add: balance_left_def tree_at_LF tree_at_RF)
qed

lemma balance_right_double:
  assumes "tree_at s (RF p pc pk (TNode q Black qk qr (TNode q2 Red k2 b a)) # fs) t" "\<not> is_red qr" "{p, q, q2} \<union> caddrs fs \<subseteq> A"
  shows "\<exists>s'. balance_right s (slot fs) st p q = (s', [], 0) \<and> same_outside A s s' \<and> tree_at s' fs (TNode q2 pc k2 (TNode q Black qk qr b) (TNode p Black pk a t))"
proof -
  have wf: "wfaddrs (lside fs @ (inorder qr @ (q, qk) # inorder b @ (q2, k2) # inorder a @ (p, pk) # inorder t) @ rside fs)"
    using assms by (simp add: tree_at_def)
  have "tree_at s (LF p pc pk t # fs) (TNode q Black qk qr (TNode q2 Red k2 b a))"
    using assms by (simp add: tree_at_LF tree_at_RF)
  note n = nephews [OF this]
  show ?thesis
    using assms wf wfaddrs_three [OF wf] n
    by (cases pc) (simp_all add: tree_at_def balance_right_def Let_def tnode_simps set_slot [of _ fs p])
qed

lemma balance_right_single:
  assumes "tree_at s (RF p pc pk (TNode q Black qk (TNode q2 Red k2 b a) ql) # fs) t" "{p, q, q2} \<union> caddrs fs \<subseteq> A"
  shows "\<exists>s'. balance_right s (slot fs) st p q = (s', [], 0) \<and> same_outside A s s' \<and> tree_at s' fs (TNode q pc qk (TNode q2 Black k2 b a) (TNode p Black pk ql t))"
proof -
  have wf: "wfaddrs (lside fs @ (inorder b @ (q2, k2) # inorder a @ (q, qk) # inorder ql @ (p, pk) # inorder t) @ rside fs)"
    using assms by (simp add: tree_at_def)
  have "tree_at s (LF p pc pk t # fs) (TNode q Black qk (TNode q2 Red k2 b a) ql)"
    using assms by (simp add: tree_at_LF tree_at_RF)
  note n = nephews [OF this]
  show ?thesis
    using assms wf wfaddrs_three [OF wf] n
    by (cases pc) (simp_all add: tree_at_def balance_right_def Let_def tnode_simps set_slot [of _ fs p])
qed

lemma balance_right_recolour:
  assumes "tree_at s (RF p pc pk (TNode q Black qk qr ql) # fs) t" "\<not> is_red ql" "\<not> is_red qr" "q \<in> A"
  shows "\<exists>s'. balance_right s (slot fs) st p q = (s', tl st, p) \<and> same_outside A s s' \<and> tree_at s' fs (TNode p pc pk (TNode q Red qk qr ql) t)"
proof -
  have t: "tree_at s (LF p pc pk t # fs) (TNode q Black qk qr ql)"
    using assms by (simp add: tree_at_LF tree_at_RF)
  have "same_outside A s (SETRED s q)" using assms(4) by (simp add: tnode_simps)
  then show ?thesis
    using nephews [OF t] assms tree_at_red [OF t] by (simp add: balance_right_def tree_at_LF tree_at_RF)
qed

text \<open>The stack of a path: the node pointers of the ancestors.\<close>

fun stk :: "'k frame list \<Rightarrow> nodep list" where
  "stk [] = []"
| "stk (f # fs) = slot fs # stk fs"

lemma length_stk [simp]: "length (stk fs) = length fs"
  by (induction fs) auto

text \<open>After a round the tree is repaired, or the subtree one black edge short is at another place.\<close>

definition repaired ::
  "'k tstate \<Rightarrow> nodep list \<Rightarrow> u64 \<Rightarrow> (u64 \<times> 'k) list \<Rightarrow> ('k frame list \<Rightarrow> 'k ttree \<Rightarrow> bool) \<Rightarrow> bool" where
  "repaired s st r xs P \<longleftrightarrow>
     (st = [] \<and> r = 0 \<and> (\<exists>t. tree_at s [] t \<and> rb t \<and> inorder t = xs))
     \<or> (\<exists>fs t. st = stk fs \<and> r = troot t \<and> tree_at s fs t \<and> short_at fs t \<and> place fs t = xs \<and> P fs t)"

lemma repaired_mono: "repaired s st r xs P \<Longrightarrow> (\<And>fs t. P fs t \<Longrightarrow> Q fs t) \<Longrightarrow> repaired s st r xs Q"
  unfolding repaired_def by blast

lemma balance_left_ok:
  assumes t: "tree_at s (LF p pc pk (TNode q Black qk ql qr) # fs) t" and sh: "short_at (LF p pc pk (TNode q Black qk ql qr) # fs) t" "\<not> is_red t"
    and A: "fst ` set (place (LF p pc pk (TNode q Black qk ql qr) # fs) t) \<subseteq> A"
  shows "\<exists>s' st r. balance_left s (slot fs) (stk (LF p pc pk (TNode q Black qk ql qr) # fs)) p q = (s', st, r) \<and> same_outside A s s'
    \<and> repaired s' st r (place (LF p pc pk (TNode q Black qk ql qr) # fs) t) (\<lambda>fs' t'. fs' = fs \<and> (pc = Red \<longrightarrow> is_red t'))"
proof -
  have r: "rb t" "rb ql" "rb qr" "bh ql = bh qr" "bh t = bh ql" "rb_ctx fs (Suc (bh t) + (if pc = Black then 1 else 0)) (pc = Red)"
    using sh by (cases t; auto simp: short_at_def)+
  consider (recolour) "\<not> is_red ql" "\<not> is_red qr" | (single) q2 k2 a b where "qr = TNode q2 Red k2 a b"
    | (double) q2 k2 a b where "ql = TNode q2 Red k2 a b" "\<not> is_red qr"
    using is_red_iff by metis
  then show ?thesis
  proof cases
    case recolour
    from balance_left_recolour [OF t this, where A = A and st = "slot fs # stk fs"] obtain s' where
      s': "balance_left s (slot fs) (stk (LF p pc pk (TNode q Black qk ql qr) # fs)) p q = (s', stk fs, p)" "same_outside A s s'"
        "tree_at s' fs (TNode p pc pk t (TNode q Red qk ql qr))" using A by auto
    moreover have "short_at fs (TNode p pc pk t (TNode q Red qk ql qr))"
      using r recolour sh(2) by (cases pc) (auto simp: short_at_def dest: rb_ctx_not_red)
    ultimately have "repaired s' (stk fs) p (place (LF p pc pk (TNode q Black qk ql qr) # fs) t) (\<lambda>fs' t'. fs' = fs \<and> (pc = Red \<longrightarrow> is_red t'))"
      unfolding repaired_def by (intro disjI2 exI [of _ fs] exI [of _ "TNode p pc pk t (TNode q Red qk ql qr)"]) auto
    then show ?thesis using s' by blast
  next
    case single
    let ?u = "TNode q pc qk (TNode p Black pk t ql) (TNode q2 Black k2 a b)"
    from balance_left_single [OF t [unfolded single], where A = A and st = "slot fs # stk fs"] obtain s' where
      s': "balance_left s (slot fs) (stk (LF p pc pk (TNode q Black qk ql qr) # fs)) p q = (s', [], 0)" "same_outside A s s'" "tree_at s' fs ?u"
      using A single by auto
    moreover have "rb_at fs ?u" using r single by (cases pc) (auto simp: rb_at_def)
    ultimately have "repaired s' [] 0 (place (LF p pc pk (TNode q Black qk ql qr) # fs) t) (\<lambda>fs' t'. fs' = fs \<and> (pc = Red \<longrightarrow> is_red t'))"
      unfolding repaired_def single
      by (intro disjI1 conjI refl exI [of _ "plug fs ?u"]) (auto simp: tree_at_plug rb_plug inorder_plug)
    then show ?thesis using s' by blast
  next
    case double
    let ?u = "TNode q2 pc k2 (TNode p Black pk t a) (TNode q Black qk b qr)"
    from balance_left_double [OF t [unfolded double(1)] double(2), where A = A and st = "slot fs # stk fs"] obtain s' where
      s': "balance_left s (slot fs) (stk (LF p pc pk (TNode q Black qk ql qr) # fs)) p q = (s', [], 0)" "same_outside A s s'" "tree_at s' fs ?u"
      using A double by auto
    moreover have "rb_at fs ?u" using r double by (cases pc) (auto simp: rb_at_def)
    ultimately have "repaired s' [] 0 (place (LF p pc pk (TNode q Black qk ql qr) # fs) t) (\<lambda>fs' t'. fs' = fs \<and> (pc = Red \<longrightarrow> is_red t'))"
      unfolding repaired_def double
      by (intro disjI1 conjI refl exI [of _ "plug fs ?u"]) (auto simp: tree_at_plug rb_plug inorder_plug)
    then show ?thesis using s' by blast
  qed
qed

lemma balance_right_ok:
  assumes t: "tree_at s (RF p pc pk (TNode q Black qk qr ql) # fs) t" and sh: "short_at (RF p pc pk (TNode q Black qk qr ql) # fs) t" "\<not> is_red t"
    and A: "fst ` set (place (RF p pc pk (TNode q Black qk qr ql) # fs) t) \<subseteq> A"
  shows "\<exists>s' st r. balance_right s (slot fs) (stk (RF p pc pk (TNode q Black qk qr ql) # fs)) p q = (s', st, r) \<and> same_outside A s s'
    \<and> repaired s' st r (place (RF p pc pk (TNode q Black qk qr ql) # fs) t) (\<lambda>fs' t'. fs' = fs \<and> (pc = Red \<longrightarrow> is_red t'))"
proof -
  have r: "rb t" "rb ql" "rb qr" "bh ql = bh qr" "bh t = bh ql" "rb_ctx fs (Suc (bh t) + (if pc = Black then 1 else 0)) (pc = Red)"
    using sh by (cases t; auto simp: short_at_def)+
  consider (recolour) "\<not> is_red ql" "\<not> is_red qr" | (single) q2 k2 a b where "qr = TNode q2 Red k2 b a"
    | (double) q2 k2 a b where "ql = TNode q2 Red k2 b a" "\<not> is_red qr"
    using is_red_iff by metis
  then show ?thesis
  proof cases
    case recolour
    from balance_right_recolour [OF t this, where A = A and st = "slot fs # stk fs"] obtain s' where
      s': "balance_right s (slot fs) (stk (RF p pc pk (TNode q Black qk qr ql) # fs)) p q = (s', stk fs, p)" "same_outside A s s'"
        "tree_at s' fs (TNode p pc pk (TNode q Red qk qr ql) t)" using A by auto
    moreover have "short_at fs (TNode p pc pk (TNode q Red qk qr ql) t)"
      using r recolour sh(2) by (cases pc) (auto simp: short_at_def dest: rb_ctx_not_red)
    ultimately have "repaired s' (stk fs) p (place (RF p pc pk (TNode q Black qk qr ql) # fs) t) (\<lambda>fs' t'. fs' = fs \<and> (pc = Red \<longrightarrow> is_red t'))"
      unfolding repaired_def by (intro disjI2 exI [of _ fs] exI [of _ "TNode p pc pk (TNode q Red qk qr ql) t"]) auto
    then show ?thesis using s' by blast
  next
    case single
    let ?u = "TNode q pc qk (TNode q2 Black k2 b a) (TNode p Black pk ql t)"
    from balance_right_single [OF t [unfolded single], where A = A and st = "slot fs # stk fs"] obtain s' where
      s': "balance_right s (slot fs) (stk (RF p pc pk (TNode q Black qk qr ql) # fs)) p q = (s', [], 0)" "same_outside A s s'" "tree_at s' fs ?u"
      using A single by auto
    moreover have "rb_at fs ?u" using r single by (cases pc) (auto simp: rb_at_def)
    ultimately have "repaired s' [] 0 (place (RF p pc pk (TNode q Black qk qr ql) # fs) t) (\<lambda>fs' t'. fs' = fs \<and> (pc = Red \<longrightarrow> is_red t'))"
      unfolding repaired_def single
      by (intro disjI1 conjI refl exI [of _ "plug fs ?u"]) (auto simp: tree_at_plug rb_plug inorder_plug)
    then show ?thesis using s' by blast
  next
    case double
    let ?u = "TNode q2 pc k2 (TNode q Black qk qr b) (TNode p Black pk a t)"
    from balance_right_double [OF t [unfolded double(1)] double(2), where A = A and st = "slot fs # stk fs"] obtain s' where
      s': "balance_right s (slot fs) (stk (RF p pc pk (TNode q Black qk qr ql) # fs)) p q = (s', [], 0)" "same_outside A s s'" "tree_at s' fs ?u"
      using A double by auto
    moreover have "rb_at fs ?u" using r double by (cases pc) (auto simp: rb_at_def)
    ultimately have "repaired s' [] 0 (place (RF p pc pk (TNode q Black qk qr ql) # fs) t) (\<lambda>fs' t'. fs' = fs \<and> (pc = Red \<longrightarrow> is_red t'))"
      unfolding repaired_def double
      by (intro disjI1 conjI refl exI [of _ "plug fs ?u"]) (auto simp: tree_at_plug rb_plug inorder_plug)
    then show ?thesis using s' by blast
  qed
qed

lemma raise_left:
  assumes t: "tree_at s (LF p pc pk (TNode q Red qk ql (TNode z zc kz a b)) # fs) t" and A: "{p, q} \<union> caddrs fs \<subseteq> A"
    and s1: "s1 = (let s = SETBLACK s q; s = SETRED s p; s = SETRIGHT s p (LEFT s q); s = SETLEFT s q p in SETNODEPTR s (slot fs) q)"
  shows "tree_at s1 (LF p Red pk ql # LF q Black qk (TNode z zc kz a b) # fs) t \<and> same_outside A s s1"
proof -
  have wf: "wfaddrs (lside fs @ (inorder t @ (p, pk) # inorder ql @ (q, qk) # inorder a @ (z, kz) # inorder b) @ rside fs)"
    using t by (simp add: tree_at_def)
  show ?thesis
    using t A wf wfaddrs_three [OF wf] by (simp add: s1 tree_at_def Let_def tnode_simps set_slot [of _ fs p])
qed

lemma fix_left_ok:
  assumes t: "tree_at s (LF p pc pk v # fs) t" and sh: "short_at (LF p pc pk v # fs) t" "\<not> is_red t"
    and A: "fst ` set (place (LF p pc pk v # fs) t) \<subseteq> A" and len: "Suc (length fs) < stacksize"
  shows "\<exists>s' st r. fix_left s (slot fs) (stk (LF p pc pk v # fs)) p = Some (s', st, r) \<and> same_outside A s s'
    \<and> repaired s' st r (place (LF p pc pk v # fs) t) (\<lambda>fs' t'. length fs' \<le> Suc (length fs) \<and> (length fs' \<le> length fs \<or> is_red t'))"
proof -
  obtain q c qk ql qr where v: "v = TNode q c qk ql qr"
    using sh by (cases v) (auto simp: short_at_def)
  have tp: "tree_at s fs (TNode p pc pk t v)" using t by (simp add: tree_at_LF tree_at_RF)
  then have tq: "tree_at s (RF p pc pk t # fs) (TNode q c qk ql qr)" by (simp add: tree_at_LF tree_at_RF v)
  have q: "RIGHT s p = q" "RED s q \<longleftrightarrow> c = Red" "q \<noteq> 0" using tree_at_node [OF tp] tree_at_node [OF tq] v by simp_all
  show ?thesis
  proof (cases c)
    case Black
    then have eq: "fix_left s (slot fs) st p = Some (balance_left s (slot fs) st p q)" for st
      using q by (simp add: fix_left_def)
    from balance_left_ok [OF t [unfolded v Black] sh [unfolded v Black] A [unfolded v Black]] show ?thesis
      unfolding eq v Black option.inject using repaired_mono by (elim exE conjE) (intro exI conjI, assumption+, erule repaired_mono, simp)
  next
    case Red
    have r: "rb ql" "rb qr" "bh ql = Suc (bh t)" "bh qr = Suc (bh t)" "\<not> is_red ql" "\<not> is_red qr" "rb (blacken t)" "pc = Black"
        "rb_ctx fs (Suc (Suc (bh t))) False"
      using sh Red v by (cases pc; auto simp: short_at_def)+
    obtain m mk ml mr where m: "ql = TNode m Black mk ml mr" using r(3,5) by (cases ql) auto
    obtain z zc kz a b where z: "qr = TNode z zc kz a b" using r(4,6) by (cases qr) auto
    define s1 where "s1 = (let s = SETBLACK s q; s = SETRED s p; s = SETRIGHT s p (LEFT s q); s = SETLEFT s q p in SETNODEPTR s (slot fs) q)"
    have t1: "tree_at s1 (LF p Red pk ql # LF q Black qk qr # fs) t" and same: "same_outside A s s1"
      using raise_left [OF t [unfolded v Red z] _ s1_def, of A] A unfolding v z by auto
    have sh1: "short_at (LF p Red pk ql # LF q Black qk qr # fs) t" using r by (auto simp: short_at_def)
    have pl: "place (LF p Red pk ql # LF q Black qk qr # fs) t = place (LF p pc pk v # fs) t" by (simp add: v)
    have m1: "RIGHT s1 p = m" "m \<noteq> 0"
      using tree_at_node [of s1 "LF q Black qk qr # fs" p Red pk t ql] t1 m by (auto simp: tree_at_LF tree_at_RF)
    obtain s' st r where "balance_left s1 (Leftp q) (stk (LF p Red pk ql # LF q Black qk qr # fs)) p m = (s', st, r)"
        "same_outside A s1 s'"
        "repaired s' st r (place (LF p Red pk ql # LF q Black qk qr # fs) t) (\<lambda>fs' t'. fs' = LF q Black qk qr # fs \<and> is_red t')"
      using balance_left_ok [OF t1 [unfolded m] sh1 [unfolded m] sh(2) A [folded pl, unfolded m]] by (auto simp: m)
    moreover from this have "fix_left s (slot fs) (stk (LF p pc pk v # fs)) p = Some (s', st, r)"
      using q Red len m1 by (simp add: fix_left_def push_def s1_def [unfolded Let_def, symmetric] Let_def)
    ultimately show ?thesis
      using same_outside_trans [OF same] unfolding pl by (auto elim!: repaired_mono)
  qed
qed

lemma raise_right:
  assumes t: "tree_at s (RF p pc pk (TNode q Red qk (TNode z zc kz b a) ql) # fs) t" and A: "{p, q} \<union> caddrs fs \<subseteq> A"
    and s1: "s1 = (let s = SETBLACK s q; s = SETRED s p; s = SETLEFT s p (RIGHT s q); s = SETRIGHT s q p in SETNODEPTR s (slot fs) q)"
  shows "tree_at s1 (RF p Red pk ql # RF q Black qk (TNode z zc kz b a) # fs) t \<and> same_outside A s s1"
proof -
  have wf: "wfaddrs (lside fs @ (inorder b @ (z, kz) # inorder a @ (q, qk) # inorder ql @ (p, pk) # inorder t) @ rside fs)"
    using t by (simp add: tree_at_def)
  show ?thesis
    using t A wf wfaddrs_three [OF wf] by (simp add: s1 tree_at_def Let_def tnode_simps set_slot [of _ fs p])
qed

lemma fix_right_ok:
  assumes t: "tree_at s (RF p pc pk v # fs) t" and sh: "short_at (RF p pc pk v # fs) t" "\<not> is_red t"
    and A: "fst ` set (place (RF p pc pk v # fs) t) \<subseteq> A" and len: "Suc (length fs) < stacksize"
  shows "\<exists>s' st r. fix_right s (slot fs) (stk (RF p pc pk v # fs)) p = Some (s', st, r) \<and> same_outside A s s'
    \<and> repaired s' st r (place (RF p pc pk v # fs) t) (\<lambda>fs' t'. length fs' \<le> Suc (length fs) \<and> (length fs' \<le> length fs \<or> is_red t'))"
proof -
  obtain q c qk ql qr where v: "v = TNode q c qk qr ql"
    using sh by (cases v) (auto simp: short_at_def)
  have tp: "tree_at s fs (TNode p pc pk v t)" using t by (simp add: tree_at_LF tree_at_RF)
  then have tq: "tree_at s (LF p pc pk t # fs) (TNode q c qk qr ql)" by (simp add: tree_at_LF tree_at_RF v)
  have q: "LEFT s p = q" "RED s q \<longleftrightarrow> c = Red" "q \<noteq> 0" using tree_at_node [OF tp] tree_at_node [OF tq] v by simp_all
  show ?thesis
  proof (cases c)
    case Black
    then have eq: "fix_right s (slot fs) st p = Some (balance_right s (slot fs) st p q)" for st
      using q by (simp add: fix_right_def)
    from balance_right_ok [OF t [unfolded v Black] sh [unfolded v Black] A [unfolded v Black]] show ?thesis
      unfolding eq v Black option.inject using repaired_mono by (elim exE conjE) (intro exI conjI, assumption+, erule repaired_mono, simp)
  next
    case Red
    have r: "rb ql" "rb qr" "bh ql = Suc (bh t)" "bh qr = Suc (bh t)" "\<not> is_red ql" "\<not> is_red qr" "rb (blacken t)" "pc = Black"
        "rb_ctx fs (Suc (Suc (bh t))) False"
      using sh Red v by (cases pc; auto simp: short_at_def)+
    obtain m mk ml mr where m: "ql = TNode m Black mk mr ml" using r(3,5) by (cases ql) auto
    obtain z zc kz a b where z: "qr = TNode z zc kz b a" using r(4,6) by (cases qr) auto
    define s1 where "s1 = (let s = SETBLACK s q; s = SETRED s p; s = SETLEFT s p (RIGHT s q); s = SETRIGHT s q p in SETNODEPTR s (slot fs) q)"
    have t1: "tree_at s1 (RF p Red pk ql # RF q Black qk qr # fs) t" and same: "same_outside A s s1"
      using raise_right [OF t [unfolded v Red z] _ s1_def, of A] A unfolding v z by auto
    have sh1: "short_at (RF p Red pk ql # RF q Black qk qr # fs) t" using r by (auto simp: short_at_def)
    have pl: "place (RF p Red pk ql # RF q Black qk qr # fs) t = place (RF p pc pk v # fs) t" by (simp add: v)
    have m1: "LEFT s1 p = m" "m \<noteq> 0"
      using tree_at_node [of s1 "RF q Black qk qr # fs" p Red pk ql t] t1 m by (auto simp: tree_at_LF tree_at_RF)
    obtain s' st r where "balance_right s1 (Rightp q) (stk (RF p Red pk ql # RF q Black qk qr # fs)) p m = (s', st, r)"
        "same_outside A s1 s'"
        "repaired s' st r (place (RF p Red pk ql # RF q Black qk qr # fs) t) (\<lambda>fs' t'. fs' = RF q Black qk qr # fs \<and> is_red t')"
      using balance_right_ok [OF t1 [unfolded m] sh1 [unfolded m] sh(2) A [folded pl, unfolded m]] by (auto simp: m)
    moreover from this have "fix_right s (slot fs) (stk (RF p pc pk v # fs)) p = Some (s', st, r)"
      using q Red len m1 by (simp add: fix_right_def push_def s1_def [unfolded Let_def, symmetric] Let_def)
    ultimately show ?thesis
      using same_outside_trans [OF same] unfolding pl by (auto elim!: repaired_mono)
  qed
qed

lemma fix_round:
  assumes t: "tree_at s (f # fs) t" and sh: "short_at (f # fs) t" "\<not> is_red t"
    and len: "Suc (length fs) < stacksize"
  shows "\<exists>s' st r. tdelete_fix s (stk (f # fs)) (troot t) = tdelete_fix s' st r
    \<and> same_outside (fst ` set (place (f # fs) t)) s s'
    \<and> repaired s' st r (place (f # fs) t) (\<lambda>fs' t'. length fs' \<le> Suc (length fs) \<and> (length fs' \<le> length fs \<or> is_red t'))"
proof (cases f)
  case (LF p pc pk v)
  have p: "DEREFNODEPTR s (slot fs) = p" "LEFT s p = troot t"
    using tree_at_node [of s fs p pc pk t v] t LF by (simp_all add: tree_at_LF)
  obtain s' st r where "fix_left s (slot fs) (stk (f # fs)) p = Some (s', st, r)"
    "same_outside (fst ` set (place (f # fs) t)) s s'"
    "repaired s' st r (place (f # fs) t) (\<lambda>fs' t'. length fs' \<le> Suc (length fs) \<and> (length fs' \<le> length fs \<or> is_red t'))"
    using fix_left_ok [OF t [unfolded LF] sh [unfolded LF] order_refl len] LF by blast
  moreover from this have "tdelete_fix s (stk (f # fs)) (troot t) = tdelete_fix s' st r"
    using p null_or_black_tree [OF t] sh(2) by (subst tdelete_fix.simps) simp
  ultimately show ?thesis by blast
next
  case (RF p pc pk v)
  have v: "v \<noteq> TLeaf" using sh RF by (auto simp: short_at_def)
  have p: "DEREFNODEPTR s (slot fs) = p" "LEFT s p = troot v"
    using tree_at_node [of s fs p pc pk v t] t RF by (simp_all add: tree_at_RF)
  have "wfaddrs (place fs (TNode p pc pk v t))" using t RF by (simp add: tree_at_def)
  then have "troot v \<noteq> troot t" using v by (cases v; cases t) (auto simp: wfaddrs_def)
  moreover obtain s' st r where "fix_right s (slot fs) (stk (f # fs)) p = Some (s', st, r)"
    "same_outside (fst ` set (place (f # fs) t)) s s'"
    "repaired s' st r (place (f # fs) t) (\<lambda>fs' t'. length fs' \<le> Suc (length fs) \<and> (length fs' \<le> length fs \<or> is_red t'))"
    using fix_right_ok [OF t [unfolded RF] sh [unfolded RF] order_refl len] RF by blast
  moreover from this calculation have "tdelete_fix s (stk (f # fs)) (troot t) = tdelete_fix s' st r"
    using p null_or_black_tree [OF t] sh(2) by (subst tdelete_fix.simps) simp
  ultimately show ?thesis by blast
qed

lemma fix_ends_here:
  assumes t: "tree_at s fs t" and sh: "short_at fs t" and e: "fs = [] \<or> is_red t"
  shows "\<exists>s' u. tdelete_fix s (stk fs) (troot t) = Some s' \<and> tree_at s' [] u \<and> rb u \<and> inorder u = place fs t
    \<and> same_outside (fst ` set (place fs t)) s s'"
proof -
  let ?s = "if troot t \<noteq> 0 then SETBLACK s (troot t) else s"
  have "rb_at fs (blacken t)"
    using sh e by (auto simp: short_at_def rb_at_def bh_blacken)
  then have "tree_at ?s [] (plug fs (blacken t)) \<and> rb (plug fs (blacken t)) \<and> inorder (plug fs (blacken t)) = place fs t"
    using tree_at_blacken [OF t] by (simp only: tree_at_plug rb_plug inorder_plug inorder_blacken simp_thms)
  moreover have "tdelete_fix s (stk fs) (troot t) = Some ?s"
    using e null_or_black_tree [OF t] by (subst tdelete_fix.simps) (cases fs; auto)
  moreover have "same_outside (fst ` set (place fs t)) s ?s"
    by (cases t) (auto simp: tnode_simps)
  ultimately show ?thesis by blast
qed

lemma tdelete_fix_ok:
  assumes "tree_at s fs t" "short_at fs t" "length fs < stacksize"
  shows "\<exists>s' u. tdelete_fix s (stk fs) (troot t) = Some s' \<and> tree_at s' [] u \<and> rb u \<and> inorder u = place fs t
    \<and> same_outside (fst ` set (place fs t)) s s'"
  using assms
proof (induction "2 * length fs + (if is_red t then 0 else 1)" arbitrary: s fs t rule: less_induct)
  case less
  show ?case
  proof (cases "fs = [] \<or> is_red t")
    case True
    from fix_ends_here [OF less.prems(1,2) this] show ?thesis .
  next
    case False
    then obtain f gs where fs: "fs = f # gs" by (cases fs) auto
    obtain s' st r where st: "tdelete_fix s (stk fs) (troot t) = tdelete_fix s' st r"
      and same: "same_outside (fst ` set (place fs t)) s s'"
      and rep: "repaired s' st r (place fs t)
        (\<lambda>fs' t'. length fs' \<le> Suc (length gs) \<and> (length fs' \<le> length gs \<or> is_red t'))"
      using fix_round [of s f gs t] less.prems False unfolding fs by auto
    from rep consider (fin) u where "st = []" "r = 0" "tree_at s' [] u" "rb u" "inorder u = place fs t"
      | (more) fs' t' where "st = stk fs'" "r = troot t'" "tree_at s' fs' t'" "short_at fs' t'" "place fs' t' = place fs t"
          "length fs' \<le> Suc (length gs)" "length fs' \<le> length gs \<or> is_red t'"
      unfolding repaired_def by blast
    then show ?thesis
    proof cases
      case fin
      then have "tdelete_fix s' st r = Some s'" by (simp add: tdelete_fix.simps)
      then show ?thesis using fin st same by auto
    next
      case more
      then have m: "2 * length fs' + (if is_red t' then 0 else 1) < 2 * length fs + (if is_red t then 0 else 1)"
        and l: "length fs' < stacksize" using False less.prems(3) by (auto simp: fs)
      obtain s'' u where "tdelete_fix s' (stk fs') (troot t') = Some s''" "tree_at s'' [] u" "rb u"
          "inorder u = place fs t" "same_outside (fst ` set (place fs t)) s' s''"
        using less.hyps [OF m more(3,4) l] unfolding more(5) by blast
      then show ?thesis using st more(1,2) same_outside_trans [OF same] by auto
    qed
  qed
qed

end
