(* ===== verification/Tsearch_Delete.thy ===== *)
theory Tsearch_Delete
  imports Tsearch_Repair
begin

unbundle bit_operations_syntax

text \<open>
  \<open>tdelete\<close>: the height of a red-black tree and the size of the stack, the search for the node and its successor, and
  taking a node out.
\<close>

section \<open>The height of a tree\<close>

fun theight :: "'k ttree \<Rightarrow> nat" where
  "theight TLeaf = 0"
| "theight (TNode a c k l r) = Suc (max (theight l) (theight r))"

lemma rb_height: "rb t \<Longrightarrow> theight t \<le> 2 * bh t + (if is_red t then 1 else 0)"
  by (induction t) (auto split: if_splits)

lemma rb_size: "rb t \<Longrightarrow> 2 ^ bh t \<le> length (inorder t) + 1"
  by (induction t) (auto split: if_splits)

lemma wfaddrs_length:
  assumes "wfaddrs xs"
  shows "length xs < 2 ^ 63"
proof -
  let ?f = "\<lambda>x. unat (fst x) div 2"
  have ev: "even (unat (fst x))" "unat (fst x) \<noteq> 0" if "x \<in> set xs" for x
  proof -
    have "bit (unat (fst x)) 0 = bit (fst x) 0" by (simp add: bit_unsigned_iff del: bit_0)
    then show "even (unat (fst x))" using assms that by (auto simp: wfaddrs_def evenp_def bit_0)
    show "unat (fst x) \<noteq> 0" using assms that by (auto simp: wfaddrs_def unat_eq_0)
  qed
  have "inj_on fst (set xs)" using assms by (auto simp: wfaddrs_def distinct_map)
  moreover have "fst x = fst y" if "x \<in> set xs" "y \<in> set xs" "?f x = ?f y" for x y
    using ev(1) that by (metis dvd_mult_div_cancel word_unat_eq_iff)
  ultimately have inj: "inj_on ?f (set xs)" unfolding inj_on_def by blast
  have "?f x \<in> {1..<2 ^ 63}" if "x \<in> set xs" for x
    using ev [OF that] unsigned_less [of "fst x", where ?'a = nat] by (auto elim!: evenE)
  then have "?f ` set xs \<subseteq> {1..<2 ^ 63}" by blast
  then have "card (?f ` set xs) \<le> card {1..<2 ^ 63 :: nat}" by (intro card_mono) auto
  moreover have "card (?f ` set xs) = length xs"
    using inj assms by (simp add: card_image wfaddrs_def distinct_map distinct_card)
  ultimately show ?thesis by simp
qed

text \<open>A tree of nodes with distinct even addresses fits the stack of \<open>tdelete\<close>, with one place to spare.\<close>

lemma height_bound:
  assumes "tree_at s [] t" "rb t"
  shows "theight t < stacksize"
proof -
  have "length (inorder t) < 2 ^ 63" using assms wfaddrs_length by (auto simp: tree_at_def)
  then have "(2::nat) ^ bh t \<le> 2 ^ 63" using rb_size [OF assms(2)] by linarith
  then have "bh t \<le> 63" by (rule power_le_imp_le_exp [rotated]) simp
  then show ?thesis using rb_height [OF assms(2)] by (auto simp: stacksize_def split: if_splits)
qed

section \<open>The way down\<close>

text \<open>The node with the key, the path to it as the stack, and the node of the frame above it.\<close>

fun has_key :: "('k \<Rightarrow> 'k \<Rightarrow> int) \<Rightarrow> 'k \<Rightarrow> 'k ttree \<Rightarrow> bool" where
  "has_key compar key (TNode a c k l r) \<longleftrightarrow> compar key k = 0"
| "has_key compar key TLeaf = False"

definition found_below ::
  "('k \<Rightarrow> 'k \<Rightarrow> int) \<Rightarrow> 'k \<Rightarrow> 'k frame list \<Rightarrow> 'k ttree \<Rightarrow> u64 \<Rightarrow> nodep \<times> u64 \<times> nodep list \<Rightarrow> bool" where
  "found_below compar key fs t p res \<longleftrightarrow>
     (\<exists>fs' u. fst res = slot fs' \<and> snd (snd res) = stk fs' \<and> plug fs' u = plug fs t \<and> has_key compar key u
        \<and> fst (snd res) = (if fs' = fs then p else faddr (hd fs')) \<and> length fs \<le> length fs'
        \<and> length fs' + theight u < stacksize)"

lemma found_below_up:
  assumes "found_below compar key (f # fs) u (faddr f) res" "plug (f # fs) u = plug fs t"
  shows "found_below compar key fs t p res"
  using assms unfolding found_below_def by (elim ex_forward) auto

lemma find_ok:
  assumes "tree_at s fs t" "t \<noteq> TLeaf" "length fs + theight t < stacksize"
    and ord: "total_compar compar" "ascending compar (place fs t)" "fits compar key fs"
  shows "\<exists>res. tdelete_find compar key s (slot fs) (troot t) p (stk fs) = Some res
    \<and> (case res of None \<Rightarrow> \<forall>x\<in>set (place fs t). compar key (snd x) \<noteq> 0 | Some found \<Rightarrow> found_below compar key fs t p found)"
  using assms
proof (induction t arbitrary: fs p)
  case (TNode a c k l r)
  let ?t = "TNode a c k l r"
  note t = TNode.prems(1)
  have n: "DEREFNODEPTR s (slot fs) = a" "LEFT s a = troot l" "RIGHT s a = troot r" "node_key (nodes s a) = k"
      "troot l = 0 \<longleftrightarrow> l = TLeaf" "troot r = 0 \<longleftrightarrow> r = TLeaf"
    using tree_at_node [OF t] by simp_all
  show ?case
  proof (cases "compar key k = 0")
    case True
    then have "tdelete_find compar key s (slot fs) (troot ?t) p (stk fs) = Some (Some (slot fs, p, stk fs))"
      using n by (subst tdelete_find.simps) simp
    moreover have "found_below compar key fs ?t p (slot fs, p, stk fs)"
      unfolding found_below_def by (intro exI [of _ fs] exI [of _ ?t]) (use True TNode.prems(3) in auto)
    ultimately show ?thesis by simp
  next
    case False
    obtain f u where f: "turn (compar key k) a c k l r = (f, u)" by fastforce
    have fit: "fits compar key (f # fs)" by (rule fits_turn [OF TNode.prems(4,5,6) False f])
    have pl: "place (f # fs) u = place fs ?t" and tu: "tree_at s (f # fs) u"
      using turn_laws(1,3) [OF f] t by auto
    have fa: "faddr f = a" "plug (f # fs) u = plug fs ?t" "u = l \<or> u = r"
      using f by (auto simp: turn_def split: if_splits)
    have step: "tdelete_find compar key s (slot fs) (troot ?t) p (stk fs) =
        (if u = TLeaf then Some None else tdelete_find compar key s (slot (f # fs)) (troot u) (faddr f) (stk (f # fs)))"
      using n False f TNode.prems(3)
      by (subst tdelete_find.simps) (auto simp: push_def turn_def split: if_splits)
    show ?thesis
    proof (cases "u = TLeaf")
      case True
      have "\<forall>x\<in>set (place (f # fs) u). compar key (snd x) \<noteq> 0" using fit True by (auto simp: fits_def)
      then show ?thesis unfolding pl by (simp only: step True simp_thms if_True option.inject ex_simps option.case)
    next
      case u: False
      have len: "length (f # fs) + theight u < stacksize" using TNode.prems(3) fa(3) by auto
      have asc: "ascending compar (place (f # fs) u)" using TNode.prems(5) pl by simp
      from fa(3) have "\<exists>res. tdelete_find compar key s (slot (f # fs)) (troot u) (faddr f) (stk (f # fs)) = Some res
        \<and> (case res of None \<Rightarrow> \<forall>x\<in>set (place (f # fs) u). compar key (snd x) \<noteq> 0
            | Some found \<Rightarrow> found_below compar key (f # fs) u (faddr f) found)"
      proof
        assume "u = l"
        then show ?thesis using TNode.IH(1) [OF tu [unfolded \<open>u = l\<close>]] u len TNode.prems(4) asc fit by blast
      next
        assume "u = r"
        then show ?thesis using TNode.IH(2) [OF tu [unfolded \<open>u = r\<close>]] u len TNode.prems(4) asc fit by blast
      qed
      then obtain res where res: "tdelete_find compar key s (slot (f # fs)) (troot u) (faddr f) (stk (f # fs)) = Some res"
        "case res of None \<Rightarrow> \<forall>x\<in>set (place fs ?t). compar key (snd x) \<noteq> 0
            | Some found \<Rightarrow> found_below compar key (f # fs) u (faddr f) found"
        unfolding pl by blast
      have "case res of None \<Rightarrow> \<forall>x\<in>set (place fs ?t). compar key (snd x) \<noteq> 0
            | Some found \<Rightarrow> found_below compar key fs ?t p found"
        using res(2) found_below_up [OF _ fa(2)] by (cases res) (simp_all only: option.case)
      then show ?thesis unfolding step using u res(1) by (intro exI [of _ res]) simp
    qed
  qed
qed simp

text \<open>The successor: the leftmost node of the subtree, at the end of a path of left steps.\<close>

fun all_left :: "'k frame list \<Rightarrow> bool" where
  "all_left [] = True"
| "all_left (LF a c k t # fs) = all_left fs"
| "all_left (RF a c k t # fs) = False"

lemma lside_all_left: "all_left us \<Longrightarrow> lside (us @ fs) = lside fs"
  by (induction us rule: all_left.induct) auto

lemma rside_append: "rside (us @ fs) = rside us @ rside fs"
  by (induction us rule: rside.induct) auto

lemma succ_ok:
  assumes "tree_at s (f # fs) u" "u \<noteq> TLeaf" "Suc (length fs + theight u) < stacksize"
  shows "\<exists>us x c k r. tdelete_succ s (slot fs) (slot (f # fs)) (stk fs) = Some (slot (us @ f # fs), stk (us @ f # fs))
    \<and> all_left us \<and> plug us (TNode x c k TLeaf r) = u \<and> length (us @ f # fs) < stacksize"
  using assms
proof (induction u arbitrary: f fs)
  case (TNode x c k l r)
  have n: "DEREFNODEPTR s (slot (f # fs)) = x" "LEFT s x = troot l" "troot l = 0 \<longleftrightarrow> l = TLeaf"
    using tree_at_node [OF TNode.prems(1)] by simp_all
  have step: "tdelete_succ s (slot fs) (slot (f # fs)) (stk fs) =
      (if l = TLeaf then Some (slot (f # fs), stk (f # fs))
       else tdelete_succ s (slot (f # fs)) (slot (LF x c k r # f # fs)) (stk (f # fs)))"
    using n TNode.prems(3) by (subst tdelete_succ.simps) (simp add: push_def)
  show ?case
  proof (cases "l = TLeaf")
    case True
    then show ?thesis using step TNode.prems(3)
      by (intro exI [of _ "[]"] exI [of _ x] exI [of _ c] exI [of _ k] exI [of _ r]) auto
  next
    case False
    have "tree_at s (LF x c k r # f # fs) l" using TNode.prems(1) by (simp add: tree_at_LF)
    moreover have "Suc (length (f # fs) + theight l) < stacksize" using TNode.prems(3) by auto
    ultimately obtain us y d ky ry where
      "tdelete_succ s (slot (f # fs)) (slot (LF x c k r # f # fs)) (stk (f # fs)) =
        Some (slot (us @ LF x c k r # f # fs), stk (us @ LF x c k r # f # fs))"
      "all_left us" "plug us (TNode y d ky TLeaf ry) = l" "length (us @ LF x c k r # f # fs) < stacksize"
      using TNode.IH(1) [of "LF x c k r" "f # fs"] False by blast
    moreover have "all_left (us @ [LF x c k r])" using \<open>all_left us\<close> by (induction us rule: all_left.induct) auto
    moreover have "plug (us @ [LF x c k r]) v = TNode x c k (plug us v) r" for v
      by (induction us v rule: plug.induct) auto
    ultimately show ?thesis using step False
      by (intro exI [of _ "us @ [LF x c k r]"] exI [of _ y] exI [of _ d] exI [of _ ky] exI [of _ ry]) auto
  qed
qed simp

section \<open>Taking a node out\<close>

text \<open>Linking the child of a node into its parent is writing the end of the path.\<close>

definition relink :: "'k tstate \<Rightarrow> nodep \<Rightarrow> nodep list \<Rightarrow> u64 \<Rightarrow> u64 \<Rightarrow> 'k tstate" where
  "relink s rootp nodestack unchained r =
     (case nodestack of
        [] \<Rightarrow> SETNODEPTR s rootp r
      | np # _ \<Rightarrow>
          (let q = DEREFNODEPTR s np in if unchained = RIGHT s q then SETRIGHT s q r else SETLEFT s q r))"

lemma relink_eq:
  assumes t: "tree_at s fs (TNode x c k l r)" and rp: "fs = [] \<longrightarrow> rootp = Vroot"
  shows "relink s rootp (stk fs) x p = SETNODEPTR s (slot fs) p"
proof (cases fs)
  case Nil
  then show ?thesis using rp by (simp add: relink_def)
next
  case (Cons f gs)
  have d: "DEREFNODEPTR s (slot gs) = faddr f" using parent_node t Cons by blast
  show ?thesis
  proof (cases f)
    case (LF a d ka v)
    then have "tree_at s gs (TNode a d ka (TNode x c k l r) v)" using t Cons by (simp add: tree_at_LF)
    moreover from this have "troot v \<noteq> x" by (cases v) (auto simp: tree_at_def wfaddrs_def)
    ultimately show ?thesis
      using tree_at_node [of s gs a d ka "TNode x c k l r" v] LF Cons d
      by (auto simp: relink_def Let_def SETNODEPTR_Leftp macro_simps(6))
  next
    case (RF a d ka v)
    then have t': "tree_at s gs (TNode a d ka v (TNode x c k l r))" using t Cons by (simp add: tree_at_RF)
    then have "evenp x" by (auto simp: tree_at_def wfaddrs_def)
    then show ?thesis
      using tree_at_node [OF t'] RF Cons d t'
      by (auto simp: relink_def Let_def SETNODEPTR_Rightp macro_simps(7) tree_at_def tnode_simps)
  qed
qed

lemma tree_at_unlink:
  assumes t: "tree_at s fs (TNode x c k l r)" and one: "l = TLeaf \<or> r = TLeaf"
    and v: "v = (if l = TLeaf then r else l)"
  shows "tree_at (SETNODEPTR s (slot fs) (troot v)) fs v \<and> nodes (SETNODEPTR s (slot fs) (troot v)) x = nodes s x"
proof -
  have wf: "wfaddrs (lside fs @ (inorder l @ (x, k) # inorder r) @ rside fs)" using t by (simp add: tree_at_def)
  have c: "rep_ctx s fs x" "evenp x" "x \<notin> caddrs fs" "rep (nodes s) v"
    using t one v wfaddrs_mid [of "lside fs @ inorder l" x k "inorder r @ rside fs"] wf
    by (auto simp: tree_at_def image_Un)
  have "wfaddrs (lside fs @ rside fs)" "wfaddrs (place fs v)" using wf v by (auto simp: wfaddrs_def)
  moreover have "set (inorder v) \<subseteq> set (inorder l @ (x, k) # inorder r)" using v by auto
  then have "taddrs v \<inter> caddrs fs = {}" using wfaddrs_disj [OF wf] by blast
  ultimately show ?thesis using c set_slot [OF c(1,2), of "troot v"] by (simp add: tree_at_def)
qed

text \<open>Another key for a node of the path.\<close>

fun rekey :: "u64 \<Rightarrow> 'k \<Rightarrow> 'k frame \<Rightarrow> 'k frame" where
  "rekey a k' (LF b c k t) = LF b c (if b = a then k' else k) t"
| "rekey a k' (RF b c k t) = RF b c (if b = a then k' else k) t"

lemma slot_rekey [simp]: "slot (map (rekey a k') fs) = slot fs"
  by (cases fs rule: slot.cases) auto

lemma stk_rekey [simp]: "stk (map (rekey a k') fs) = stk fs"
  by (induction fs) auto

lemma rb_ctx_rekey [simp]: "rb_ctx (map (rekey a k') fs) n red = rb_ctx fs n red"
  by (induction fs n red rule: rb_ctx.induct) auto

lemma faddr_caddrs: "faddr ` set fs \<subseteq> caddrs fs"
proof (induction fs)
  case (Cons f fs)
  then show ?case by (cases f) auto
qed simp

lemma map_rekey_id: "a \<notin> faddr ` set fs \<Longrightarrow> map (rekey a k') fs = fs"
proof (rule map_idI)
  fix f assume "a \<notin> faddr ` set fs" "f \<in> set fs"
  then have "faddr f \<noteq> a" by blast
  then show "rekey a k' f = f" by (cases f) auto
qed

lemma wfaddrs_append: "wfaddrs (xs @ ys @ zs) \<Longrightarrow> wfaddrs (xs @ zs)"
  by (auto simp: wfaddrs_def)

lemma rep_ctx_rekey:
  "rep_ctx s fs p \<Longrightarrow> wfaddrs (lside fs @ rside fs)
     \<Longrightarrow> rep_ctx (set_node s a ((nodes s a)\<lparr>node_key := k'\<rparr>)) (map (rekey a k') fs) p \<or> a \<notin> faddr ` set fs"
proof (induction s fs p rule: rep_ctx.induct)
  case (2 s b c k t fs p)
  have wf: "wfaddrs (lside fs @ rside fs)" "b \<notin> taddrs t" "b \<notin> caddrs fs" "taddrs t \<inter> caddrs fs = {}"
    using 2(3) wfaddrs_mid [of "lside fs" b k "inorder t @ rside fs"] wfaddrs_disj [of fs "(b, k) # inorder t" t]
      wfaddrs_append [of "lside fs" "(b, k) # inorder t" "rside fs"]
    by (simp_all add: image_Un subset_insertI)
  show ?case
  proof (cases "a = b")
    case True
    then have "map (rekey a k') fs = fs"
      using wf(3) faddr_caddrs [of fs] by (intro map_rekey_id) blast
    then show ?thesis using 2(2) True wf by (simp add: tnode_simps)
  next
    case False
    have "a \<notin> taddrs t" if "a \<in> faddr ` set fs" using that wf(4) faddr_caddrs [of fs] by blast
    then show ?thesis using False 2 wf by (auto simp: tnode_simps)
  qed
next
  case (3 s b c k t fs p)
  have wf: "wfaddrs (lside fs @ rside fs)" "b \<notin> taddrs t" "b \<notin> caddrs fs" "taddrs t \<inter> caddrs fs = {}"
    using 3(3) wfaddrs_mid [of "lside fs @ inorder t" b k "rside fs"] wfaddrs_disj [of fs "inorder t @ [(b, k)]" t]
      wfaddrs_append [of "lside fs" "inorder t @ [(b, k)]" "rside fs"]
    by (simp_all add: image_Un subset_insertI)
  show ?case
  proof (cases "a = b")
    case True
    then have "map (rekey a k') fs = fs"
      using wf(3) faddr_caddrs [of fs] by (intro map_rekey_id) blast
    then show ?thesis using 3(2) True wf by (simp add: tnode_simps)
  next
    case False
    have "a \<notin> taddrs t" if "a \<in> faddr ` set fs" using that wf(4) faddr_caddrs [of fs] by blast
    then show ?thesis using False 3 wf by (auto simp: tnode_simps)
  qed
qed simp

text \<open>\<open>tdelete\<close> after the node to unchain is known.\<close>

definition take_out :: "'k tstate \<Rightarrow> nodep \<Rightarrow> u64 \<Rightarrow> nodep list \<Rightarrow> u64 \<Rightarrow> 'k tstate option" where
  "take_out s rootp root nodestack unchained =
     (let r = (if LEFT s unchained = 0 then RIGHT s unchained else LEFT s unchained);
          s = relink s rootp nodestack unchained r;
          s = (if unchained \<noteq> root
               then set_node s root ((nodes s root)\<lparr>node_key := node_key (nodes s unchained)\<rparr>) else s)
      in if \<not> RED s unchained then tdelete_fix s nodestack r else Some s)"

lemma tdelete_eq:
  "tdelete compar key (Some Vroot) s =
     (let p = DEREFNODEPTR s Vroot
      in if p = 0 then Some (0, None, s)
         else do {
           f \<leftarrow> tdelete_find compar key s Vroot p p [];
           case f of
             None \<Rightarrow> Some (0, None, s)
           | Some (rootp, retval, nodestack) \<Rightarrow>
               (let root = DEREFNODEPTR s rootp
                in do {
                  (unchained, nodestack) \<leftarrow>
                    (if LEFT s root = 0 \<or> RIGHT s root = 0 then Some (root, nodestack)
                     else do {
                       (up, nodestack) \<leftarrow> tdelete_succ s rootp (Rightp root) nodestack;
                       Some (DEREFNODEPTR s up, nodestack)
                     });
                  s \<leftarrow> take_out s rootp root nodestack unchained;
                  Some (retval, Some unchained, s)
                })
         })"
  by (simp add: tdelete_def take_out_def relink_def Let_def)

text \<open>A node with at most one child replaced by that child.\<close>

lemma unlink_redblack:
  assumes "rb_at fs (TNode x c k l r)" "l = TLeaf \<or> r = TLeaf" "v = (if l = TLeaf then r else l)"
  shows "if c = Red then rb_at fs v else short_at fs v"
proof (cases c)
  case Red
  have "v = TLeaf" using assms Red by (cases l; cases r) (auto simp: rb_at_def split: if_splits)
  then show ?thesis using assms Red by (auto simp: rb_at_def dest: rb_ctx_not_red split: if_splits)
next
  case Black
  then show ?thesis using assms by (auto simp: rb_at_def short_at_def rb_blacken split: if_splits)
qed

lemma repair_ok:
  assumes t: "tree_at s fs v" and rbs: "if c = Red then rb_at fs v else short_at fs v" and red: "RED s x \<longleftrightarrow> c = Red"
    and len: "length fs < stacksize"
  shows "\<exists>s' u. (if \<not> RED s x then tdelete_fix s (stk fs) (troot v) else Some s) = Some s'
    \<and> tree_at s' [] u \<and> rb u \<and> inorder u = place fs v \<and> same_outside (fst ` set (place fs v)) s s'"
proof (cases c)
  case Red
  then show ?thesis using assms
    by (intro exI [of _ s] exI [of _ "plug fs v"]) (auto simp: tree_at_plug rb_plug inorder_plug)
next
  case Black
  then have "short_at fs v" using rbs by simp
  from tdelete_fix_ok [OF t this len] show ?thesis using red Black by simp
qed

lemma take_out_node:
  assumes t: "tree_at s fs (TNode x c k l r)" and one: "l = TLeaf \<or> r = TLeaf" and rbt: "rb_at fs (TNode x c k l r)"
    and rp: "fs = [] \<longrightarrow> rootp = Vroot" and len: "length fs < stacksize"
  shows "\<exists>s' u. take_out s rootp x (stk fs) x = Some s' \<and> tree_at s' [] u \<and> rb u
    \<and> inorder u = lside fs @ inorder l @ inorder r @ rside fs
    \<and> same_outside (fst ` set (place fs (TNode x c k l r))) s s'"
proof -
  define v where "v = (if l = TLeaf then r else l)"
  define s1 where "s1 = SETNODEPTR s (slot fs) (troot v)"
  have t1: "tree_at s1 fs v" and n1: "nodes s1 x = nodes s x"
    using tree_at_unlink [OF t one v_def] by (simp_all add: s1_def)
  have red: "RED s1 x \<longleftrightarrow> c = Red" using tree_at_node [OF t] n1 by (simp add: RED_def)
  have v: "place fs v = lside fs @ inorder l @ inorder r @ rside fs" using one by (auto simp: v_def)
  have "take_out s rootp x (stk fs) x = (if \<not> RED s1 x then tdelete_fix s1 (stk fs) (troot v) else Some s1)"
    using tree_at_node [OF t] by (auto simp: take_out_def Let_def relink_eq [OF t rp] s1_def v_def)
  moreover obtain s' u where "(if \<not> RED s1 x then tdelete_fix s1 (stk fs) (troot v) else Some s1) = Some s'"
      "tree_at s' [] u" "rb u" "inorder u = place fs v" "same_outside (fst ` set (place fs v)) s1 s'"
    using repair_ok [OF t1 unlink_redblack [OF rbt one v_def] red len] by blast
  moreover have "same_outside (fst ` set (place fs (TNode x c k l r))) s s1"
    unfolding s1_def by (subst same_set_slot) auto
  moreover have "fst ` set (place fs v) \<subseteq> fst ` set (place fs (TNode x c k l r))" unfolding v by auto
  ultimately show ?thesis unfolding v by (auto simp: same_outside_def)
qed

text \<open>A node with two children: its successor is taken out and the node gets the key of the successor.\<close>

lemma plug_append: "plug (us @ fs) t = plug fs (plug us t)"
  by (induction us t rule: plug.induct) auto

lemma lside_append: "lside (us @ fs) = lside fs @ lside us"
  by (induction us rule: lside.induct) auto

lemma path_node:
  assumes "wfaddrs (place (us @ RF a c k l # fs) t)"
  shows "a \<notin> caddrs us \<and> a \<notin> caddrs fs \<and> a \<notin> taddrs l \<and> a \<notin> taddrs t"
  using wfaddrs_mid [of "lside fs @ inorder l" a k "lside us @ inorder t @ rside us @ rside fs"] assms
  by (simp add: lside_append rside_append image_Un)

lemma rekey_path:
  assumes wf: "wfaddrs (place (us @ RF a c k l # fs) t)"
  shows "map (rekey a k') (us @ RF a c k l # fs) = us @ RF a c k' l # fs"
proof -
  have "a \<notin> faddr ` set fs" "a \<notin> faddr ` set us" using path_node [OF wf] faddr_caddrs by blast+
  then show ?thesis by (simp add: map_rekey_id)
qed

lemma tree_at_rekey:
  assumes t: "tree_at s (us @ RF a c k l # fs) t"
  shows "tree_at (set_node s a ((nodes s a)\<lparr>node_key := k'\<rparr>)) (us @ RF a c k' l # fs) t"
proof -
  let ?fs = "us @ RF a c k l # fs"
  have wf: "wfaddrs (place ?fs t)" using t by (simp add: tree_at_def)
  have "wfaddrs (lside ?fs @ rside ?fs)" by (rule wfaddrs_append [OF wf])
  then have "rep_ctx (set_node s a ((nodes s a)\<lparr>node_key := k'\<rparr>)) (us @ RF a c k' l # fs) (troot t)"
    using rep_ctx_rekey [of s ?fs "troot t" a k'] t unfolding rekey_path [OF wf] by (auto simp: tree_at_def)
  moreover have "wfaddrs (place (us @ RF a c k' l # fs) t)"
    using wf by (simp add: lside_append rside_append wfaddrs_def)
  ultimately show ?thesis using t path_node [OF wf] by (simp add: tree_at_def)
qed

lemma take_out_succ:
  assumes t: "tree_at s fs (TNode a c k l r)" and rbt: "rb_at fs (TNode a c k l r)"
    and us: "all_left us" "plug us (TNode x cx kx TLeaf rx) = r" and len: "length (us @ RF a c k l # fs) < stacksize"
  shows "\<exists>s' u. take_out s rootp a (stk (us @ RF a c k l # fs)) x = Some s' \<and> tree_at s' [] u \<and> rb u
    \<and> inorder u = lside fs @ inorder l @ (a, kx) # inorder rx @ rside us @ rside fs
    \<and> same_outside (fst ` set (place fs (TNode a c k l r))) s s'"
proof -
  let ?fs = "us @ RF a c k l # fs" and ?x = "TNode x cx kx TLeaf rx" and ?gs = "us @ RF a c kx l # fs"
  have "tree_at s [] (plug ?fs ?x)" using t us(2) by (simp add: plug_append tree_at_plug tree_at_RF)
  then have tx: "tree_at s ?fs ?x" by (simp only: tree_at_plug)
  have "rb (plug ?fs ?x)" using rbt us(2) by (simp add: plug_append rb_plug rb_at_RF)
  then have rbx: "rb_at ?fs ?x" by (simp only: rb_plug)
  define s1 where "s1 = SETNODEPTR s (slot ?fs) (troot rx)"
  define s2 where "s2 = set_node s1 a ((nodes s1 a)\<lparr>node_key := kx\<rparr>)"
  have t1: "tree_at s1 ?fs rx" and n1: "nodes s1 x = nodes s x"
    using tree_at_unlink [OF tx] by (simp_all add: s1_def)
  have wf: "wfaddrs (place ?fs ?x)" using tx by (simp add: tree_at_def)
  have ax: "x \<noteq> a" "a \<notin> taddrs rx" using path_node [OF wf] by auto
  have gs: "map (rekey a kx) ?fs = ?gs" by (rule rekey_path [OF wf])
  have t2: "tree_at s2 ?gs rx" unfolding s2_def by (rule tree_at_rekey [OF t1])
  have red: "RED s2 x \<longleftrightarrow> cx = Red" using tree_at_node [OF tx] n1 ax by (simp add: RED_def s2_def)
  have rb2: "if cx = Red then rb_at ?gs rx else short_at ?gs rx"
  proof -
    have "if cx = Red then rb_at ?fs rx else short_at ?fs rx" by (rule unlink_redblack [OF rbx]) auto
    then show ?thesis unfolding gs [symmetric] rb_at_def short_at_def rb_ctx_rekey .
  qed
  have stk: "stk ?gs = stk ?fs" unfolding gs [symmetric] by (rule stk_rekey)
  have "take_out s rootp a (stk ?fs) x = (if \<not> RED s2 x then tdelete_fix s2 (stk ?gs) (troot rx) else Some s2)"
    using tree_at_node [OF tx] n1 ax relink_eq [OF tx]
    by (simp add: take_out_def Let_def s1_def s2_def stk)
  moreover obtain s' u where "(if \<not> RED s2 x then tdelete_fix s2 (stk ?gs) (troot rx) else Some s2) = Some s'"
      "tree_at s' [] u" "rb u" "inorder u = place ?gs rx" "same_outside (fst ` set (place ?gs rx)) s2 s'"
    using repair_ok [OF t2 rb2 red] len by auto
  moreover have pl: "place ?fs ?x = place fs (TNode a c k l r)"
    using us(2) by (simp add: inorder_plug [symmetric] plug_append del: inorder.simps)
  have "same_outside (fst ` set (place ?fs ?x)) s s2"
    unfolding s2_def s1_def by (subst same_set_node, simp add: lside_append, subst same_set_slot) auto
  moreover have "fst ` set (place ?gs rx) \<subseteq> fst ` set (place ?fs ?x)" by (auto simp: lside_append rside_append)
  ultimately show ?thesis
    unfolding pl [symmetric] by (auto simp: same_outside_def lside_all_left [OF us(1)] rside_append)
qed

lemma ascending_keys: "ascending compar xs \<longleftrightarrow> sorted_wrt (\<lambda>x y. compar x y < 0) (map snd xs)"
  by (simp add: ascending_def sorted_wrt_map)

text \<open>What a deletion does to the list of nodes and keys: one node is freed and one key is gone.\<close>

definition removed ::
  "('k \<Rightarrow> 'k \<Rightarrow> int) \<Rightarrow> 'k \<Rightarrow> (u64 \<times> 'k) list \<Rightarrow> u64 \<Rightarrow> (u64 \<times> 'k) list \<Rightarrow> bool" where
  "removed compar key xs x ys \<longleftrightarrow>
     x \<in> fst ` set xs \<and> fst ` set ys = fst ` set xs - {x}
     \<and> (\<exists>us k vs. map snd xs = us @ k # vs \<and> compar key k = 0 \<and> map snd ys = us @ vs)"

lemma removed_ascending: "removed compar key xs x ys \<Longrightarrow> ascending compar xs \<Longrightarrow> ascending compar ys"
  by (auto simp: removed_def ascending_keys sorted_wrt_append)

lemma removed_node:
  assumes "wfaddrs (us @ (a, k) # vs)" "compar key k = 0"
  shows "removed compar key (us @ (a, k) # vs) a (us @ vs)"
  unfolding removed_def
proof (intro conjI)
  show "fst ` set (us @ vs) = fst ` set (us @ (a, k) # vs) - {a}"
    using wfaddrs_mid [OF assms(1)] by auto
  show "\<exists>xs k' ys. map snd (us @ (a, k) # vs) = xs @ k' # ys \<and> compar key k' = 0 \<and> map snd (us @ vs) = xs @ ys"
    using assms(2) by (intro exI [of _ "map snd us"] exI [of _ k] exI [of _ "map snd vs"]) simp
qed simp

lemma removed_succ:
  assumes "wfaddrs (us @ (a, k) # (x, kx) # vs)" "compar key k = 0"
  shows "removed compar key (us @ (a, k) # (x, kx) # vs) x (us @ (a, kx) # vs)"
  unfolding removed_def
proof (intro conjI)
  show "fst ` set (us @ (a, kx) # vs) = fst ` set (us @ (a, k) # (x, kx) # vs) - {x}"
    using wfaddrs_mid [of "us @ [(a, k)]" x kx vs] assms(1) by auto
  show "\<exists>xs k' ys. map snd (us @ (a, k) # (x, kx) # vs) = xs @ k' # ys \<and> compar key k' = 0
      \<and> map snd (us @ (a, kx) # vs) = xs @ ys"
    using assms(2) by (intro exI [of _ "map snd us"] exI [of _ k] exI [of _ "kx # map snd vs"]) simp
qed simp

lemma delete_found:
  assumes t: "tree_at s fs (TNode a c k l r)" and rbt: "rb_at fs (TNode a c k l r)" and key: "compar key k = 0"
    and len: "length fs + theight (TNode a c k l r) < stacksize"
  shows "\<exists>x st s' u. (if LEFT s a = 0 \<or> RIGHT s a = 0 then Some (a, stk fs)
         else do { (up, st) \<leftarrow> tdelete_succ s (slot fs) (Rightp a) (stk fs); Some (DEREFNODEPTR s up, st) }) = Some (x, st)
    \<and> take_out s (slot fs) a st x = Some s' \<and> tree_at s' [] u \<and> rb u \<and> x \<notin> caddrs fs
    \<and> removed compar key (place fs (TNode a c k l r)) x (inorder u)
    \<and> same_outside (fst ` set (place fs (TNode a c k l r))) s s'"
proof -
  have wf: "wfaddrs (place fs (TNode a c k l r))" using t by (simp add: tree_at_def)
  have n: "LEFT s a = troot l" "RIGHT s a = troot r" "troot l = 0 \<longleftrightarrow> l = TLeaf" "troot r = 0 \<longleftrightarrow> r = TLeaf"
    using tree_at_node [OF t] by simp_all
  show ?thesis
  proof (cases "l = TLeaf \<or> r = TLeaf")
    case True
    have rem: "removed compar key (place fs (TNode a c k l r)) a (lside fs @ inorder l @ inorder r @ rside fs)"
      using removed_node [of "lside fs @ inorder l" a k "inorder r @ rside fs" compar key] wf key by simp
    have "a \<notin> caddrs fs" using wfaddrs_mid [of "lside fs @ inorder l" a k "inorder r @ rside fs"] wf by (simp add: image_Un)
    moreover obtain s' u where o: "take_out s (slot fs) a (stk fs) a = Some s'" "tree_at s' [] u" "rb u"
        "inorder u = lside fs @ inorder l @ inorder r @ rside fs"
        "same_outside (fst ` set (place fs (TNode a c k l r))) s s'"
      using take_out_node [OF t True rbt, of "slot fs"] len by auto
    moreover have "LEFT s a = 0 \<or> RIGHT s a = 0" using True n by auto
    ultimately show ?thesis using rem [folded o(4)]
      by (intro exI [of _ a] exI [of _ "stk fs"] exI [of _ s'] exI [of _ u]) simp
  next
    case False
    then have "tree_at s (RF a c k l # fs) r" "r \<noteq> TLeaf" using t by (simp_all add: tree_at_RF)
    moreover have "Suc (length fs + theight r) < stacksize" using len by simp
    ultimately obtain us x cx kx rx where su: "tdelete_succ s (slot fs) (Rightp a) (stk fs) =
        Some (slot (us @ RF a c k l # fs), stk (us @ RF a c k l # fs))"
      "all_left us" "plug us (TNode x cx kx TLeaf rx) = r" "length (us @ RF a c k l # fs) < stacksize"
      using succ_ok [of s "RF a c k l" fs r] unfolding slot.simps(3) by blast
    have pl: "place fs (TNode a c k l r) = (lside fs @ inorder l) @ (a, k) # (x, kx) # inorder rx @ rside us @ rside fs"
      using inorder_plug [of us "TNode x cx kx TLeaf rx"] lside_all_left [OF su(2), of "[]"] unfolding su(3) by simp
    have "tree_at s (us @ RF a c k l # fs) (TNode x cx kx TLeaf rx)"
      using t su(3) tree_at_plug [of s "us @ RF a c k l # fs" "TNode x cx kx TLeaf rx"] by (simp add: plug_append tree_at_plug)
    from tree_at_node [OF this] have "DEREFNODEPTR s (slot (us @ RF a c k l # fs)) = x" by simp
    moreover have "removed compar key (place fs (TNode a c k l r)) x
        ((lside fs @ inorder l) @ (a, kx) # inorder rx @ rside us @ rside fs)"
      unfolding pl using wf [unfolded pl] key by (rule removed_succ)
    moreover have "x \<notin> caddrs fs"
      using wfaddrs_mid [of "(lside fs @ inorder l) @ [(a, k)]" x kx "inorder rx @ rside us @ rside fs"] wf
      unfolding pl by (simp add: image_Un)
    moreover obtain s' u where o: "take_out s (slot fs) a (stk (us @ RF a c k l # fs)) x = Some s'" "tree_at s' [] u" "rb u"
        "inorder u = (lside fs @ inorder l) @ (a, kx) # inorder rx @ rside us @ rside fs"
        "same_outside (fst ` set (place fs (TNode a c k l r))) s s'"
      using take_out_succ [OF t rbt su(2,3,4), of "slot fs"] by auto
    ultimately show ?thesis using False n su(1)
      by (intro exI [of _ x] exI [of _ "stk (us @ RF a c k l # fs)"] exI [of _ s'] exI [of _ u]) simp
  qed
qed

lemma tdelete_ok:
  assumes ok: "tree_ok compar s t" and tot: "total_compar compar"
  shows "\<exists>a freed s' t'. tdelete compar key (Some Vroot) s = Some (a, freed, s')
    \<and> tree_ok compar s' t' \<and> same_outside (fst ` set (inorder t)) s s'
    \<and> (case freed of
          None \<Rightarrow> a = 0 \<and> s' = s \<and> t' = t \<and> (\<forall>x\<in>set (inorder t). compar key (snd x) \<noteq> 0)
        | Some x \<Rightarrow> removed compar key (inorder t) x (inorder t') \<and> a \<in> fst ` set (inorder t) \<and> (a = x \<longrightarrow> a = troot t))"
proof (cases "t = TLeaf")
  case True
  then have "root_var s = 0" using ok by (simp add: tree_ok_def tree_at_def)
  then have "tdelete compar key (Some Vroot) s = Some (0, None, s)"
    by (simp add: tdelete_def DEREFNODEPTR_def)
  then show ?thesis using ok True by auto
next
  case False
  have t: "tree_at s [] t" "rb t" "ascending compar (inorder t)" using ok by (auto simp: tree_ok_def)
  have rt: "DEREFNODEPTR s Vroot = troot t" "troot t \<noteq> 0" "troot t \<in> fst ` set (inorder t)"
    using tree_at_node [of s "[]"] t(1) False by (cases t; force)+
  obtain res where res: "tdelete_find compar key s Vroot (troot t) (troot t) [] = Some res"
    "case res of None \<Rightarrow> \<forall>x\<in>set (inorder t). compar key (snd x) \<noteq> 0
     | Some found \<Rightarrow> found_below compar key [] t (troot t) found"
    using find_ok [OF t(1) False _ tot, of key "troot t"] height_bound [OF t(1,2)] t(3)
    unfolding slot.simps stk.simps lside.simps rside.simps append_Nil append_Nil2 by (auto simp: fits_def)
  show ?thesis
  proof (cases res)
    case None
    then have "tdelete compar key (Some Vroot) s = Some (0, None, s)"
      using res(1) rt by (simp add: tdelete_eq Let_def)
    then show ?thesis using ok res(2) None by auto
  next
    case (Some found)
    obtain rootp retval st where f: "found = (rootp, retval, st)" by (cases found) auto
    then obtain fs u where fs: "rootp = slot fs" "st = stk fs" "plug fs u = t" "has_key compar key u"
      "retval = (if fs = [] then troot t else faddr (hd fs))" "length fs + theight u < stacksize"
      using res(2) Some by (auto simp: found_below_def)
    obtain a c k l r where u: "u = TNode a c k l r" "compar key k = 0" using fs(4) by (cases u) auto
    have tu: "tree_at s fs u" "rb_at fs u" "place fs u = inorder t"
      using t(1,2) fs(3) tree_at_plug [of s fs u] rb_plug [of fs u] inorder_plug [of fs u] by auto
    have a: "DEREFNODEPTR s (slot fs) = a" using tree_at_node [OF tu(1) [unfolded u]] by simp
    obtain x st' s' t' where del: "(if LEFT s a = 0 \<or> RIGHT s a = 0 then Some (a, stk fs)
         else do { (up, st) \<leftarrow> tdelete_succ s (slot fs) (Rightp a) (stk fs); Some (DEREFNODEPTR s up, st) }) = Some (x, st')"
      "take_out s (slot fs) a st' x = Some s'" "tree_at s' [] t'" "rb t'" "x \<notin> caddrs fs"
      "removed compar key (inorder t) x (inorder t')" "same_outside (fst ` set (inorder t)) s s'"
      using delete_found [of s fs a c k l r compar key, OF tu(1,2) [unfolded u(1)] u(2) fs(6) [unfolded u(1)]] unfolding tu(3) [unfolded u(1)] by blast
    have "tdelete compar key (Some Vroot) s = Some (retval, Some x, s')"
      using res(1) rt Some f del(1,2) unfolding fs(1,2)
      by (cases "LEFT s a = 0 \<or> RIGHT s a = 0") (auto simp: tdelete_eq Let_def a bind_eq_Some_conv)
    moreover have "tree_ok compar s' t'"
      using del(3,4) removed_ascending [OF del(6) t(3)] by (simp add: tree_ok_def)
    moreover have "retval \<in> fst ` set (inorder t) \<and> (retval = x \<longrightarrow> retval = troot t)"
    proof (cases fs)
      case Nil
      then show ?thesis using fs(5) rt by simp
    next
      case (Cons f gs)
      then have "retval \<in> caddrs fs" using fs(5) faddr_caddrs [of fs] by auto
      then show ?thesis using del(5) tu(3) by (metis UnE UnI1 UnI2 image_Un set_append)
    qed
    ultimately show ?thesis using del(6,7)
      by (intro exI [of _ retval] exI [of _ "Some x"] exI [of _ s'] exI [of _ t']) simp
  qed
qed

end
