(* ===== verification/Tsearch_Index.thy ===== *)
theory Tsearch_Index
  imports Tsearch_Delete "HOL-Library.Multiset"
begin

unbundle bit_operations_syntax

text \<open>
  Searching, walking and destroying a tree, and the three operations together as an index of keys: an interface for any
  such index, a client that makes a sequence of calls, and the trees of \<open>tsearch.c\<close> as an instance.
\<close>

section \<open>Search\<close>

lemma tfind_loop_ok:
  assumes "tree_at s fs t" "total_compar compar" "ascending compar (place fs t)" "fits compar key fs"
  shows "\<exists>a. tfind_loop compar key s (slot fs) = Some a
    \<and> (if \<exists>x\<in>set (place fs t). compar key (snd x) = 0 then \<exists>k. (a, k) \<in> set (place fs t) \<and> compar key k = 0 else a = 0)"
  using assms
proof (induction t arbitrary: fs)
  case TLeaf
  have "\<not> (\<exists>x\<in>set (place fs TLeaf). compar key (snd x) = 0)"
    using TLeaf.prems(4) by (force simp: fits_def)
  moreover have "DEREFNODEPTR s (slot fs) = 0" using TLeaf.prems(1) by (simp add: tree_at_def)
  ultimately show ?case by (subst tfind_loop.simps) simp
next
  case (TNode a c k l r)
  let ?t = "TNode a c k l r"
  have n: "DEREFNODEPTR s (slot fs) = a" "a \<noteq> 0" "node_key (nodes s a) = k"
    using tree_at_node [OF TNode.prems(1)] by simp_all
  show ?case
  proof (cases "compar key k = 0")
    case True
    then show ?thesis using n by (subst tfind_loop.simps) auto
  next
    case False
    obtain f u where f: "turn (compar key k) a c k l r = (f, u)" by fastforce
    have fit: "fits compar key (f # fs)" by (rule fits_turn [OF TNode.prems(2,3,4) False f])
    have tu: "tree_at s (f # fs) u" and pl: "place (f # fs) u = place fs ?t"
      using turn_laws(1,3) [OF f] TNode.prems(1) by auto
    have "u = l \<or> u = r" using turn_laws(8) [OF f] by auto
    then have "\<exists>a. tfind_loop compar key s (slot (f # fs)) = Some a
      \<and> (if \<exists>x\<in>set (place fs ?t). compar key (snd x) = 0
          then \<exists>k. (a, k) \<in> set (place fs ?t) \<and> compar key k = 0 else a = 0)"
      using TNode.IH(1) [of "f # fs"] TNode.IH(2) [of "f # fs"] tu TNode.prems(2,3) fit unfolding pl [symmetric] by blast
    moreover have "tfind_loop compar key s (slot fs) = tfind_loop compar key s (slot (f # fs))"
      using n False turn_laws(6) [OF f] by (subst tfind_loop.simps) simp
    ultimately show ?thesis by simp
  qed
qed

section \<open>Walks\<close>

text \<open>The calls of a walk of a tree.\<close>

fun walk :: "'k ttree \<Rightarrow> int \<Rightarrow> (u64 \<times> VISIT \<times> int) list" where
  "walk TLeaf n = []"
| "walk (TNode a c k l r) n =
     (if l = TLeaf \<and> r = TLeaf then [(a, leaf, n)]
      else (a, preorder, n) # walk l (n + 1) @ (a, postorder, n) # walk r (n + 1) @ [(a, endorder, n)])"

lemma trecurse_walk: "tree_at s fs t \<Longrightarrow> t \<noteq> TLeaf \<Longrightarrow> trecurse s (troot t) n = Some (walk t n)"
proof (induction t arbitrary: fs n)
  case (TNode a c k l r)
  have "tree_at s (LF a c k r # fs) l" "tree_at s (RF a c k l # fs) r"
    using TNode.prems(1) by (simp_all add: tree_at_LF tree_at_RF)
  then show ?case
    using tree_at_node [OF TNode.prems(1)] TNode.IH by (subst trecurse.simps) (cases "l = TLeaf"; cases "r = TLeaf"; simp)
qed simp

lemma trecurse_r_walk:
  "tree_at s fs t \<Longrightarrow> t \<noteq> TLeaf \<Longrightarrow> trecurse_r s (troot t) cl = Some (map (\<lambda>(a, v, n). (a, v, cl)) (walk t n))"
proof (induction t arbitrary: fs n)
  case (TNode a c k l r)
  have "tree_at s (LF a c k r # fs) l" "tree_at s (RF a c k l # fs) r"
    using TNode.prems(1) by (simp_all add: tree_at_LF tree_at_RF)
  then show ?case
    using tree_at_node [OF TNode.prems(1)] TNode.IH(1) [of _ "n + 1"] TNode.IH(2) [of _ "n + 1"]
    by (subst trecurse_r.simps) (cases "l = TLeaf"; cases "r = TLeaf"; simp)
qed simp

text \<open>The visits between the subtrees, with the key the caller reads at the node.\<close>

definition walk_keys :: "'k tstate \<Rightarrow> (u64 \<times> VISIT \<times> 'c) list \<Rightarrow> (u64 \<times> 'k) list" where
  "walk_keys s evs = map (\<lambda>(a, v, n). (a, node_key (nodes s a))) (filter (\<lambda>(a, v, n). v = postorder \<or> v = leaf) evs)"

lemma walk_inorder: "tree_at s fs t \<Longrightarrow> walk_keys s (walk t n) = inorder t"
proof (induction t arbitrary: fs n)
  case (TNode a c k l r)
  have "tree_at s (LF a c k r # fs) l" "tree_at s (RF a c k l # fs) r"
    using TNode.prems(1) by (simp_all add: tree_at_LF tree_at_RF)
  then have "walk_keys s (walk l (n + 1)) = inorder l" "walk_keys s (walk r (n + 1)) = inorder r" using TNode.IH by blast+
  then show ?case using tree_at_node [OF TNode.prems(1)] by (auto simp: walk_keys_def)
qed (simp add: walk_keys_def)

fun tdepth_first :: "'k ttree \<Rightarrow> ('k \<times> u64) list" where
  "tdepth_first TLeaf = []"
| "tdepth_first (TNode a c k l r) = tdepth_first l @ tdepth_first r @ [(k, a)]"

lemma tdestroy_order: "tree_at s fs t \<Longrightarrow> t \<noteq> TLeaf \<Longrightarrow> tdestroy_recurse s (troot t) = Some (tdepth_first t)"
proof (induction t arbitrary: fs)
  case (TNode a c k l r)
  have "tree_at s (LF a c k r # fs) l" "tree_at s (RF a c k l # fs) r"
    using TNode.prems(1) by (simp_all add: tree_at_LF tree_at_RF)
  then show ?case
    using tree_at_node [OF TNode.prems(1)] TNode.IH by (subst tdestroy_recurse.simps) (cases "l = TLeaf"; cases "r = TLeaf"; simp)
qed simp

lemma tdepth_first_mset: "mset (tdepth_first t) = mset (map prod.swap (inorder t))"
  by (induction t) auto

section \<open>The tree as an index of keys\<close>

text \<open>The keys of the tree, and the addresses of its nodes.\<close>

definition index_holds :: "('k \<Rightarrow> 'k \<Rightarrow> int) \<Rightarrow> 'k tstate \<Rightarrow> u64 set \<Rightarrow> 'k set \<Rightarrow> bool" where
  "index_holds compar s A K \<longleftrightarrow>
     total_compar compar \<and> (\<exists>t. tree_ok compar s t \<and> fst ` set (inorder t) = A \<and> snd ` set (inorder t) = K)"

definition same_key :: "('k \<Rightarrow> 'k \<Rightarrow> int) \<Rightarrow> 'k \<Rightarrow> 'k \<Rightarrow> bool" where
  "same_key compar x y \<longleftrightarrow> compar x y = 0"

lemma compar_eq_sym:
  assumes "total_compar compar" "compar x y = 0"
  shows "compar y x = 0"
proof -
  have "compar y x < 0 \<longleftrightarrow> 0 < compar x y" "compar x y < 0 \<longleftrightarrow> 0 < compar y x"
    using assms(1) by (simp_all add: total_compar_def)
  then show ?thesis using assms(2) by linarith
qed

lemma compar_flip: "total_compar compar \<Longrightarrow> compar x y < 0 \<longleftrightarrow> 0 < compar y x"
  by (simp add: total_compar_def)

lemma compar_eq_less: "total_compar compar \<Longrightarrow> compar x y = 0 \<Longrightarrow> compar y z < 0 \<Longrightarrow> compar x z < 0"
  unfolding total_compar_def by blast

lemma compar_less_eq:
  assumes tot: "total_compar compar" and lt: "compar x y < 0" and eq: "compar z y = 0"
  shows "0 < compar z x"
proof -
  have "\<not> compar z x < 0"
    using compar_eq_less [OF tot compar_eq_sym [OF tot eq], of x] compar_flip [OF tot, of x y] lt by auto
  moreover have "compar z x \<noteq> 0"
    using compar_eq_less [OF tot _ lt, of z] eq by auto
  ultimately show ?thesis by linarith
qed

text \<open>Every other key of the tree differs from a key it holds.\<close>

lemma removed_keys:
  assumes tot: "total_compar compar" and asc: "ascending compar xs" and rem: "removed compar key xs x ys"
  shows "snd ` set ys = {y \<in> snd ` set xs. compar key y \<noteq> 0}"
proof -
  obtain us k vs where k: "map snd xs = us @ k # vs" "compar key k = 0" "map snd ys = us @ vs"
    using rem by (auto simp: removed_def)
  have so: "sorted_wrt (\<lambda>x y. compar x y < 0) (us @ k # vs)" using asc k(1) by (simp add: ascending_keys)
  have "compar key y \<noteq> 0" if "y \<in> set us" for y
    using that so compar_less_eq [OF tot _ k(2), of y] by (auto simp: sorted_wrt_append)
  moreover have "compar key y \<noteq> 0" if "y \<in> set vs" for y
    using that so compar_eq_less [OF tot k(2), of y] by (auto simp: sorted_wrt_append)
  ultimately have "set (us @ vs) = {y \<in> set (us @ k # vs). compar key y \<noteq> 0}" using k(2) by auto
  then show ?thesis using k(1,3) by (metis list.set_map)
qed

lemma set_ins_sorted: "set (ins_sorted compar x xs) = insert x (set xs)"
  by (induction xs) auto

text \<open>
  What the three operations promise together: the state stands for a set of keys, one node for each, and every call returns.
  \<open>key_at\<close> is the key the caller reads at a node.
\<close>

locale ordered_index =
  fixes holds :: "'s \<Rightarrow> u64 set \<Rightarrow> 'k set \<Rightarrow> bool"
    and same :: "'k \<Rightarrow> 'k \<Rightarrow> bool"
    and key_at :: "'s \<Rightarrow> u64 \<Rightarrow> 'k"
    and add :: "'k \<Rightarrow> u64 \<Rightarrow> 's \<Rightarrow> (u64 \<times> 's) option"
    and look :: "'k \<Rightarrow> 's \<Rightarrow> u64 option"
    and del :: "'k \<Rightarrow> 's \<Rightarrow> (u64 \<times> u64 option \<times> 's) option"
  assumes add: "holds s A K \<Longrightarrow> (q \<noteq> 0 \<longrightarrow> q AND 1 = 0 \<and> q \<notin> A) \<Longrightarrow>
      \<exists>a s'. add key q s = Some (a, s')
        \<and> (if \<exists>x\<in>K. same key x then a \<in> A \<and> key_at s' a \<in> K \<and> same key (key_at s' a) \<and> holds s' A K
            else if q = 0 then a = 0 \<and> holds s' A K
            else a = q \<and> key_at s' q = key \<and> holds s' (insert q A) (insert key K))"
    and look: "holds s A K \<Longrightarrow>
      \<exists>a. look key s = Some a
        \<and> (if \<exists>x\<in>K. same key x then a \<in> A \<and> key_at s a \<in> K \<and> same key (key_at s a) else a = 0)"
    and del: "holds s A K \<Longrightarrow>
      \<exists>a f s'. del key s = Some (a, f, s')
        \<and> (case f of
              None \<Rightarrow> a = 0 \<and> s' = s \<and> \<not> (\<exists>x\<in>K. same key x)
            | Some x \<Rightarrow> a \<in> A \<and> x \<in> A \<and> (\<exists>x\<in>K. same key x) \<and> holds s' (A - {x}) {y \<in> K. \<not> same key y})"
    and not_null: "holds s A K \<Longrightarrow> 0 \<notin> A"

text \<open>
  A sequence of calls with an allocator that sees the nodes in use; the last component collects what the calls return, and
  the key at the node returned.
\<close>

datatype 'k index_op = Add 'k | Del 'k | Find 'k

fun run_index ::
  "('s \<Rightarrow> u64 \<Rightarrow> 'k) \<Rightarrow> ('k \<Rightarrow> u64 \<Rightarrow> 's \<Rightarrow> (u64 \<times> 's) option) \<Rightarrow> ('k \<Rightarrow> 's \<Rightarrow> u64 option)
     \<Rightarrow> ('k \<Rightarrow> 's \<Rightarrow> (u64 \<times> u64 option \<times> 's) option)
     \<Rightarrow> (u64 set \<Rightarrow> u64) \<Rightarrow> 'k index_op list \<Rightarrow> 's \<Rightarrow> u64 set \<Rightarrow> ('s \<times> u64 set \<times> (u64 \<times> 'k) list) option" where
  "run_index key_at add look del malloc [] s A = Some (s, A, [])"
| "run_index key_at add look del malloc (Add k # ops) s A =
     do {
       (a, s) \<leftarrow> add k (malloc A) s;
       let r = (a, key_at s a);
       (s, A, rs) \<leftarrow> run_index key_at add look del malloc ops s (if a = 0 then A else insert a A);
       Some (s, A, r # rs)
     }"
| "run_index key_at add look del malloc (Find k # ops) s A =
     do {
       a \<leftarrow> look k s;
       let r = (a, key_at s a);
       (s, A, rs) \<leftarrow> run_index key_at add look del malloc ops s A;
       Some (s, A, r # rs)
     }"
| "run_index key_at add look del malloc (Del k # ops) s A =
     do {
       (a, f, s) \<leftarrow> del k s;
       let r = (a, key_at s a);
       (s, A, rs) \<leftarrow> run_index key_at add look del malloc ops s (case f of None \<Rightarrow> A | Some x \<Rightarrow> A - {x});
       Some (s, A, r # rs)
     }"

text \<open>
  The same calls on a set \<open>K\<close> of keys, with the set \<open>A\<close> of nodes in use. An insertion of a new key returns what the
  allocator has for these nodes, and fails only if that is nothing. An insertion or a lookup of a key that is there
  returns a node of \<open>A\<close> with an equal key of \<open>K\<close>, a deletion some node of \<open>A\<close>, and one node goes.
\<close>

fun run_keys ::
  "('k \<Rightarrow> 'k \<Rightarrow> bool) \<Rightarrow> (u64 set \<Rightarrow> u64) \<Rightarrow> 'k index_op list \<Rightarrow> 'k set \<Rightarrow> u64 set \<Rightarrow> (u64 \<times> 'k) list \<Rightarrow> 'k set \<Rightarrow> u64 set \<Rightarrow> bool"
  where
  "run_keys same malloc [] K A rs K' A' \<longleftrightarrow> rs = [] \<and> K' = K \<and> A' = A"
| "run_keys same malloc (Add k # ops) K A ((r, rk) # rs) K' A' \<longleftrightarrow>
     (if \<exists>x\<in>K. same k x then r \<in> A \<and> rk \<in> K \<and> same k rk \<and> run_keys same malloc ops K A rs K' A'
      else if malloc A = 0 then r = 0 \<and> run_keys same malloc ops K A rs K' A'
      else r = malloc A \<and> rk = k \<and> run_keys same malloc ops (insert k K) (insert r A) rs K' A')"
| "run_keys same malloc (Find k # ops) K A ((r, rk) # rs) K' A' \<longleftrightarrow>
     (if \<exists>x\<in>K. same k x then r \<in> A \<and> rk \<in> K \<and> same k rk else r = 0) \<and> run_keys same malloc ops K A rs K' A'"
| "run_keys same malloc (Del k # ops) K A ((r, rk) # rs) K' A' \<longleftrightarrow>
     (if \<exists>x\<in>K. same k x
      then r \<in> A \<and> (\<exists>x\<in>A. run_keys same malloc ops {y \<in> K. \<not> same k y} (A - {x}) rs K' A')
      else r = 0 \<and> run_keys same malloc ops K A rs K' A')"
| "run_keys same malloc (op # ops) K A [] K' A' \<longleftrightarrow> False"

context ordered_index
begin

lemma run:
  assumes malloc: "\<And>A. malloc A \<noteq> 0 \<longrightarrow> malloc A AND 1 = 0 \<and> malloc A \<notin> A" and "holds s A K"
  shows "\<exists>s' A' rs K'. run_index key_at add look del malloc ops s A = Some (s', A', rs) \<and> holds s' A' K'
    \<and> run_keys same malloc ops K A rs K' A'"
  using assms(2)
proof (induction ops arbitrary: s A K)
  case (Cons op ops)
  note h = Cons.prems
  show ?case
  proof (cases op)
    case (Add k)
    obtain a s1 where a: "add k (malloc A) s = Some (a, s1)"
      "if \<exists>x\<in>K. same k x then a \<in> A \<and> key_at s1 a \<in> K \<and> same k (key_at s1 a) \<and> holds s1 A K
       else if malloc A = 0 then a = 0 \<and> holds s1 A K
       else a = malloc A \<and> key_at s1 (malloc A) = k \<and> holds s1 (insert (malloc A) A) (insert k K)"
      using add [OF h malloc, of k] by blast
    let ?A = "if a = 0 then A else insert a A"
    let ?K = "if (\<exists>x\<in>K. same k x) \<or> a = 0 then K else insert k K"
    have "holds s1 ?A ?K" using a(2) by (auto simp: insert_absorb split: if_splits)
    from Cons.IH [OF this] obtain s' A' rs K' where r: "run_index key_at add look del malloc ops s1 ?A = Some (s', A', rs)"
      "holds s' A' K'" "run_keys same malloc ops ?K ?A rs K' A'" by blast
    have "(\<exists>x\<in>K. same k x) \<longrightarrow> a \<noteq> 0" using a(2) not_null [OF h] by (auto split: if_splits)
    then have "run_keys same malloc (op # ops) K A ((a, key_at s1 a) # rs) K' A'"
      using r(3) a(2) Add by (cases "\<exists>x\<in>K. same k x") (auto simp: insert_absorb split: if_splits)
    then show ?thesis using a(1) r(1,2) Add
      by (intro exI [of _ s'] exI [of _ A'] exI [of _ "(a, key_at s1 a) # rs"] exI [of _ K']) simp
  next
    case (Find k)
    obtain a where a: "look k s = Some a"
      "if \<exists>x\<in>K. same k x then a \<in> A \<and> key_at s a \<in> K \<and> same k (key_at s a) else a = 0" using look [OF h, of k] by blast
    obtain s' A' rs K' where r: "run_index key_at add look del malloc ops s A = Some (s', A', rs)" "holds s' A' K'"
      "run_keys same malloc ops K A rs K' A'" using Cons.IH [OF h] by blast
    show ?thesis using Find a r
      by (intro exI [of _ s'] exI [of _ A'] exI [of _ "(a, key_at s a) # rs"] exI [of _ K']) simp
  next
    case (Del k)
    obtain a f s1 where d: "del k s = Some (a, f, s1)"
      "case f of None \<Rightarrow> a = 0 \<and> s1 = s \<and> \<not> (\<exists>x\<in>K. same k x)
        | Some x \<Rightarrow> a \<in> A \<and> x \<in> A \<and> (\<exists>x\<in>K. same k x) \<and> holds s1 (A - {x}) {y \<in> K. \<not> same k y}"
      using del [OF h] by blast
    let ?A = "case f of None \<Rightarrow> A | Some x \<Rightarrow> A - {x}" and ?K = "{y \<in> K. \<not> same k y}"
    have K: "?K = K" if "f = None" using d(2) that by auto
    then have "holds s1 ?A ?K" using d(2) h by (cases f) auto
    from Cons.IH [OF this] obtain s' A' rs K' where r: "run_index key_at add look del malloc ops s1 ?A = Some (s', A', rs)"
      "holds s' A' K'" "run_keys same malloc ops ?K ?A rs K' A'" by blast
    have "run_keys same malloc (op # ops) K A ((a, key_at s1 a) # rs) K' A'"
      using d(2) r(3) K Del by (cases f) auto
    then show ?thesis using d(1) r(1,2) Del
      by (intro exI [of _ s'] exI [of _ A'] exI [of _ "(a, key_at s1 a) # rs"] exI [of _ K']) simp
  qed
qed auto

end

text \<open>The operations of \<open>tsearch.c\<close> on one root variable keep the promise.\<close>

lemma index_holdsE:
  assumes "index_holds compar s A K"
  obtains t where "tree_ok compar s t" "A = fst ` set (inorder t)" "K = snd ` set (inorder t)" "total_compar compar"
    "\<And>key. (\<exists>x\<in>K. same_key compar key x) \<longleftrightarrow> (\<exists>x\<in>set (inorder t). compar key (snd x) = 0)"
  using assms unfolding index_holds_def same_key_def by (metis (no_types, lifting) image_iff)

lemma index_holdsI:
  "tree_ok compar s t \<Longrightarrow> total_compar compar \<Longrightarrow> index_holds compar s (fst ` set (inorder t)) (snd ` set (inorder t))"
  unfolding index_holds_def by blast

lemma tree_at_key:
  "tree_at s fs t \<Longrightarrow> (a, k) \<in> set (inorder t) \<Longrightarrow> node_key (nodes s a) = k"
proof (induction t arbitrary: fs)
  case (TNode b c k' l r)
  have "tree_at s (LF b c k' r # fs) l" "tree_at s (RF b c k' l # fs) r"
    using TNode.prems(1) by (simp_all add: tree_at_LF tree_at_RF)
  then show ?case using TNode tree_at_node [OF TNode.prems(1)] by auto
qed simp

lemma index_add:
  assumes h: "index_holds compar s A K" and q: "q \<noteq> 0 \<longrightarrow> q AND 1 = 0 \<and> q \<notin> A"
  shows "\<exists>a s'. tsearch compar key (Some Vroot) q s = Some (a, s')
      \<and> (if \<exists>x\<in>K. same_key compar key x
          then a \<in> A \<and> node_key (nodes s' a) \<in> K \<and> same_key compar key (node_key (nodes s' a)) \<and> index_holds compar s' A K
          else if q = 0 then a = 0 \<and> index_holds compar s' A K
          else a = q \<and> node_key (nodes s' q) = key \<and> index_holds compar s' (insert q A) (insert key K))"
proof -
  obtain t where t: "tree_ok compar s t" "A = fst ` set (inorder t)" "K = snd ` set (inorder t)" "total_compar compar"
    and ex: "\<And>key. (\<exists>x\<in>K. same_key compar key x) \<longleftrightarrow> (\<exists>x\<in>set (inorder t). compar key (snd x) = 0)"
    using h by (elim index_holdsE) blast
  obtain a s' t' where a: "tsearch compar key (Some Vroot) q s = Some (a, s')" "tree_ok compar s' t'"
    "if \<exists>x\<in>set (inorder t). compar key (snd x) = 0
     then inorder t' = inorder t \<and> (\<exists>k. (a, k) \<in> set (inorder t) \<and> compar key k = 0)
     else if q = 0 then inorder t' = inorder t \<and> a = 0
     else inorder t' = ins_sorted compar (q, key) (inorder t) \<and> a = q"
    using tsearch_ok [OF t(1,4), of q key] q t(2) by blast
  have ins: "set (ins_sorted compar (q, key) (inorder t)) = insert (q, key) (set (inorder t))" by (rule set_ins_sorted)
  have key: "node_key (nodes s' b) = k" if "(b, k) \<in> set (inorder t')" for b k
    using a(2) that tree_at_key [of s' "[]" t'] by (auto simp: tree_ok_def)
  note holds = index_holdsI [OF a(2) t(4)]
  consider (there) k where "\<exists>x\<in>K. same_key compar key x" "inorder t' = inorder t" "(a, k) \<in> set (inorder t)" "compar key k = 0"
    | (full) "\<not> (\<exists>x\<in>K. same_key compar key x)" "q = 0" "inorder t' = inorder t" "a = 0"
    | (new) "\<not> (\<exists>x\<in>K. same_key compar key x)" "q \<noteq> 0" "inorder t' = ins_sorted compar (q, key) (inorder t)" "a = q"
    using a(3) unfolding ex [symmetric] by (auto split: if_split_asm)
  then have "if \<exists>x\<in>K. same_key compar key x
          then a \<in> A \<and> node_key (nodes s' a) \<in> K \<and> same_key compar key (node_key (nodes s' a)) \<and> index_holds compar s' A K
          else if q = 0 then a = 0 \<and> index_holds compar s' A K
          else a = q \<and> node_key (nodes s' q) = key \<and> index_holds compar s' (insert q A) (insert key K)"
  proof cases
    case there
    then have "a \<in> A" "k \<in> K" by (auto simp: t(2,3) intro: rev_image_eqI)
    then show ?thesis using there key [of a k] holds by (auto simp: same_key_def t(2,3))
  next
    case full
    then show ?thesis using holds by (simp add: t(2,3))
  next
    case new
    then show ?thesis using key [of q key] holds by (simp add: ins t(2,3))
  qed
  with a(1) show ?thesis by blast
qed

lemma index_look:
  assumes h: "index_holds compar s A K"
  shows "\<exists>a. tfind compar key (Some Vroot) s = Some a
      \<and> (if \<exists>x\<in>K. same_key compar key x
          then a \<in> A \<and> node_key (nodes s a) \<in> K \<and> same_key compar key (node_key (nodes s a)) else a = 0)"
    "0 \<notin> A"
proof -
  obtain t where t: "tree_ok compar s t" "A = fst ` set (inorder t)" "total_compar compar" "K = snd ` set (inorder t)"
    and ex: "\<And>key. (\<exists>x\<in>K. same_key compar key x) \<longleftrightarrow> (\<exists>x\<in>set (inorder t). compar key (snd x) = 0)"
    using h by (elim index_holdsE) blast
  have "wfaddrs (inorder t)" using t(1) by (simp add: tree_ok_def tree_at_def)
  then show "0 \<notin> A" using t(2) by (auto simp: wfaddrs_def)
  obtain a where a: "tfind compar key (Some Vroot) s = Some a"
    "if \<exists>x\<in>set (inorder t). compar key (snd x) = 0 then \<exists>k. (a, k) \<in> set (inorder t) \<and> compar key k = 0 else a = 0"
    using tfind_loop_ok [of s "[]" t compar key] t(1,3)
    unfolding slot.simps lside.simps rside.simps append_Nil append_Nil2 by (auto simp: tfind_def tree_ok_def fits_def)
  have "a \<in> A \<and> node_key (nodes s a) \<in> K \<and> same_key compar key (node_key (nodes s a))"
    if "(a, k) \<in> set (inorder t)" "compar key k = 0" for k
    using that t tree_at_key [of s "[]" t a k] by (auto simp: tree_ok_def same_key_def intro: rev_image_eqI)
  then show "\<exists>a. tfind compar key (Some Vroot) s = Some a
      \<and> (if \<exists>x\<in>K. same_key compar key x
          then a \<in> A \<and> node_key (nodes s a) \<in> K \<and> same_key compar key (node_key (nodes s a)) else a = 0)"
    unfolding ex using a by (intro exI [of _ a]) (auto split: if_split_asm)
qed

lemma index_del:
  assumes h: "index_holds compar s A K"
  shows "\<exists>a f s'. tdelete compar key (Some Vroot) s = Some (a, f, s')
      \<and> (case f of None \<Rightarrow> a = 0 \<and> s' = s \<and> \<not> (\<exists>x\<in>K. same_key compar key x)
          | Some x \<Rightarrow> a \<in> A \<and> x \<in> A \<and> (\<exists>x\<in>K. same_key compar key x)
              \<and> index_holds compar s' (A - {x}) {y \<in> K. \<not> same_key compar key y})"
proof -
  obtain t where t: "tree_ok compar s t" "A = fst ` set (inorder t)" "K = snd ` set (inorder t)" "total_compar compar"
    and ex: "\<And>key. (\<exists>x\<in>K. same_key compar key x) \<longleftrightarrow> (\<exists>x\<in>set (inorder t). compar key (snd x) = 0)"
    using h by (elim index_holdsE) blast
  obtain a f s' t' where d: "tdelete compar key (Some Vroot) s = Some (a, f, s')" "tree_ok compar s' t'"
    "case f of None \<Rightarrow> a = 0 \<and> s' = s \<and> t' = t \<and> (\<forall>x\<in>set (inorder t). compar key (snd x) \<noteq> 0)
      | Some x \<Rightarrow> removed compar key (inorder t) x (inorder t') \<and> a \<in> fst ` set (inorder t) \<and> (a = x \<longrightarrow> a = troot t)"
    using tdelete_ok [OF t(1,4), of key] by blast
  have rem: "index_holds compar s' (A - {x}) {y \<in> K. \<not> same_key compar key y} \<and> x \<in> A \<and> (\<exists>x\<in>K. same_key compar key x)"
    if r: "removed compar key (inorder t) x (inorder t')" for x
  proof -
    have "snd ` set (inorder t') = {y \<in> K. \<not> same_key compar key y}"
      using removed_keys [OF t(4) _ r] t(1,3) by (simp add: tree_ok_def same_key_def)
    moreover have "fst ` set (inorder t') = A - {x}" "x \<in> A" using r t(2) by (auto simp: removed_def)
    moreover obtain us k vs where "map snd (inorder t) = us @ k # vs" "compar key k = 0" using r by (auto simp: removed_def)
    then have "k \<in> K" "same_key compar key k" unfolding t(3) same_key_def by (metis in_set_conv_decomp image_set, simp)
    ultimately show ?thesis using index_holdsI [OF d(2) t(4)] by auto
  qed
  then show ?thesis
    using d t(2) ex by (intro exI [of _ a] exI [of _ f] exI [of _ s']) (auto split: option.splits)
qed

interpretation tree: ordered_index "index_holds compar" "same_key compar" "\<lambda>s a. node_key (nodes s a)"
  "\<lambda>key q s. tsearch compar key (Some Vroot) q s"
  "\<lambda>key s. tfind compar key (Some Vroot) s" "\<lambda>key s. tdelete compar key (Some Vroot) s" for compar
  by unfold_locales (fact index_add index_look index_del)+

end
