(* ===== verification/Tsearch_Properties.thy ===== *)
theory Tsearch_Properties
  imports Tsearch_Index
begin

unbundle bit_operations_syntax

text \<open>
  What the search trees of \<open>tsearch.c\<close> promise, and the promises at a concrete tree.
\<close>

section \<open>A tree to apply the properties to\<close>

definition ex_state :: "int tstate" where
  "ex_state = \<lparr>root_var = 16,
     nodes = (\<lambda>_. cnode Black 0 0 0)(16 := cnode Black 5 32 48, 32 := cnode Red 3 0 0, 48 := cnode Red 9 0 0)\<rparr>"

definition ex_tree :: "int ttree" where
  "ex_tree = TNode 16 Black 5 (TNode 32 Red 3 TLeaf TLeaf) (TNode 48 Red 9 TLeaf TLeaf)"

definition ex_empty :: "int tstate" where
  "ex_empty = \<lparr>root_var = 0, nodes = (\<lambda>_. cnode Black 0 0 0)\<rparr>"

definition ex_malloc :: "u64 set \<Rightarrow> u64" where
  "ex_malloc A = (if 16 \<notin> A then 16 else if 32 \<notin> A then 32 else if 48 \<notin> A then 48 else 0)"

lemma total_compar_minus: "total_compar (\<lambda>x y :: int. x - y)"
  by (simp add: total_compar_def)

lemma ex_tree_ok: "tree_ok (\<lambda>x y. x - y) ex_state ex_tree"
  by (simp add: tree_ok_def tree_at_def ex_state_def ex_tree_def wfaddrs_def evenp_def ascending_def)

lemma ex_malloc_fresh: "ex_malloc A \<noteq> 0 \<longrightarrow> ex_malloc A AND 1 = 0 \<and> ex_malloc A \<notin> A"
  by (simp add: ex_malloc_def)

section \<open>Properties\<close>

text \<open>
  C5. \<open>tsearch\<close> on a red-black tree ordered by a consistent comparison function returns: it never follows a stale pointer
  after a rotation.  The tree afterwards is again red-black and ordered.  If a node has the key, that node is returned and
  the nodes and keys are the same; otherwise a node is inserted at its place in the order and returned, or a null pointer
  is returned if there is no memory.  No other memory is written.
\<close>

theorem tsearch_inserts:
  assumes "tree_ok compar s t" "total_compar compar" "q \<noteq> 0 \<longrightarrow> q AND 1 = 0 \<and> q \<notin> fst ` set (inorder t)"
  shows "\<exists>a s' t'. tsearch compar key (Some Vroot) q s = Some (a, s')
    \<and> tree_ok compar s' t' \<and> same_outside (insert q (fst ` set (inorder t))) s s'
    \<and> (if \<exists>x\<in>set (inorder t). compar key (snd x) = 0
        then inorder t' = inorder t \<and> (\<exists>k. (a, k) \<in> set (inorder t) \<and> compar key k = 0)
        else if q = 0 then inorder t' = inorder t \<and> a = 0
        else inorder t' = ins_sorted compar (q, key) (inorder t) \<and> a = q)"
  using assms by (rule tsearch_ok)

theorem tsearch_inserts_witness:
  "\<exists>s' t'. tsearch (\<lambda>x y. x - y) 7 (Some Vroot) 64 ex_state = Some (64, s') \<and> tree_ok (\<lambda>x y. x - y) s' t'
     \<and> inorder t' = [(32, 3), (16, 5), (64, 7), (48, 9)]"
  using tsearch_inserts [OF ex_tree_ok total_compar_minus, of 64 7] by (auto simp: ex_tree_def)

text \<open>
  C6. \<open>tdelete\<close> on such a tree returns: its loops end and its assertions on the stack of node pointers hold, because
  node addresses are distinct even words and so a red-black tree of them has fewer levels than the stack.  If no node has
  the key, nothing changes and a null pointer is returned.  Otherwise one node is freed, the key is gone and the other keys
  stay in order, and the tree is again red-black; the pointer returned is a node of the old tree, and it is the freed one only
  if it was the root.
\<close>

theorem tdelete_removes:
  assumes "tree_ok compar s t" "total_compar compar"
  shows "\<exists>a freed s' t'. tdelete compar key (Some Vroot) s = Some (a, freed, s')
    \<and> tree_ok compar s' t' \<and> same_outside (fst ` set (inorder t)) s s'
    \<and> (case freed of
          None \<Rightarrow> a = 0 \<and> s' = s \<and> t' = t \<and> (\<forall>x\<in>set (inorder t). compar key (snd x) \<noteq> 0)
        | Some x \<Rightarrow> removed compar key (inorder t) x (inorder t') \<and> a \<in> fst ` set (inorder t) \<and> (a = x \<longrightarrow> a = troot t))"
  using assms by (rule tdelete_ok)

theorem tdelete_removes_witness:
  "\<exists>a x s' t'. tdelete (\<lambda>x y. x - y) 5 (Some Vroot) ex_state = Some (a, Some x, s') \<and> tree_ok (\<lambda>x y. x - y) s' t'
     \<and> removed (\<lambda>x y. x - y) 5 (inorder ex_tree) x (inorder t')"
  using tdelete_removes [OF ex_tree_ok total_compar_minus, of 5]
  by (elim exE conjE) (auto simp: ex_tree_def split: option.splits)

text \<open>
  C7. Any sequence of calls of \<open>tsearch\<close>, \<open>tfind\<close> and \<open>tdelete\<close> that starts with a null root pointer returns, call after
  call, with an allocator that returns aligned memory not in use or nothing.  The results are those of the same operations
  on a set of keys.  Inserting a key that is not in the set returns the very node the allocator provides, which then has
  that key, and a null pointer exactly if the allocator has none.  Inserting or looking up a key of the set returns a node
  of the tree that has an equal key; looking up or deleting another key returns a null pointer.  A deletion gives one node
  back.  The tree at the end holds the keys of the set, one node each.
\<close>

theorem index_calls:
  assumes "total_compar compar" "\<And>A. malloc A \<noteq> 0 \<longrightarrow> malloc A AND 1 = 0 \<and> malloc A \<notin> A" "root_var s = 0"
  shows "\<exists>s' A rs K.
    run_index (\<lambda>s a. node_key (nodes s a)) (\<lambda>key q s. tsearch compar key (Some Vroot) q s)
      (\<lambda>key s. tfind compar key (Some Vroot) s) (\<lambda>key s. tdelete compar key (Some Vroot) s) malloc ops s {} = Some (s', A, rs)
    \<and> index_holds compar s' A K \<and> run_keys (same_key compar) malloc ops {} {} rs K A"
proof (rule tree.run)
  show "index_holds compar s {} {}"
    using assms(1,3) by (auto simp: index_holds_def tree_ok_def tree_at_def wfaddrs_def ascending_def intro!: exI [of _ TLeaf])
qed (rule assms(2))

theorem index_calls_witness:
  "\<exists>s' A K r4 k4.
    run_index (\<lambda>s a. node_key (nodes s a)) (\<lambda>key q s. tsearch (\<lambda>x y. x - y) key (Some Vroot) q s)
      (\<lambda>key s. tfind (\<lambda>x y. x - y) key (Some Vroot) s) (\<lambda>key s. tdelete (\<lambda>x y. x - y) key (Some Vroot) s)
      ex_malloc [Add 4, Add 7, Find 4] ex_empty {} = Some (s', A, [(16, 4), (32, 7), (r4, k4)])
    \<and> index_holds (\<lambda>x y. x - y) s' A K \<and> r4 \<in> {16, 32} \<and> k4 = 4 \<and> K = {4, 7} \<and> A = {16, 32}"
proof -
  have e: "root_var ex_empty = 0" by (simp add: ex_empty_def)
  obtain s' A rs K where r: "run_index (\<lambda>s a. node_key (nodes s a)) (\<lambda>key q s. tsearch (\<lambda>x y. x - y) key (Some Vroot) q s)
      (\<lambda>key s. tfind (\<lambda>x y. x - y) key (Some Vroot) s) (\<lambda>key s. tdelete (\<lambda>x y. x - y) key (Some Vroot) s)
      ex_malloc [Add 4, Add 7, Find 4] ex_empty {} = Some (s', A, rs)"
    "index_holds (\<lambda>x y. x - y) s' A K" "run_keys (same_key (\<lambda>x y. x - y)) ex_malloc [Add 4, Add 7, Find 4] {} {} rs K A"
    using index_calls [OF total_compar_minus ex_malloc_fresh e, of "[Add 4, Add 7, Find 4]"] by blast
  have "\<exists>r4 k4. rs = [(16, 4), (32, 7), (r4, k4)] \<and> r4 \<in> {16, 32} \<and> k4 = 4 \<and> K = {4, 7} \<and> A = {16, 32}"
    using r(3) by (cases rs; cases "tl rs"; cases "tl (tl rs)") (auto simp: ex_malloc_def same_key_def)
  then show ?thesis using r(1,2) by blast
qed

text \<open>
  C36. \<open>twalk\<close> of a tree ordered by the comparison function returns after the calls of the action that the manual describes:
  a node without children is announced once as \<open>leaf\<close>, any other node as \<open>preorder\<close> before its left subtree, as \<open>postorder\<close>
  between its subtrees and as \<open>endorder\<close> after its right subtree, all with its depth as the level.  The visits announced as
  \<open>postorder\<close> or \<open>leaf\<close> are the nodes of the tree, each once, in ascending order of the keys read there.  \<open>twalk_r\<close> makes the
  same visits in the same order, with the closure in place of the level.
\<close>

theorem twalk_ascending:
  assumes "tree_ok compar s t"
  shows "twalk s (root_var s) True = Some (walk t 0)
    \<and> twalk_r s (root_var s) True closure = Some (map (\<lambda>(a, v, n). (a, v, closure)) (walk t 0))
    \<and> walk_keys s (walk t 0) = inorder t
    \<and> distinct (map fst (walk_keys s (walk t 0)))
    \<and> sorted_wrt (\<lambda>x y. compar x y < 0) (map snd (walk_keys s (walk t 0)))"
proof -
  have t: "tree_at s [] t" "ascending compar (inorder t)" using assms by (simp_all add: tree_ok_def)
  have "twalk s (root_var s) True = Some (walk t 0)"
    "twalk_r s (root_var s) True closure = Some (map (\<lambda>(a, v, n). (a, v, closure)) (walk t 0))"
    using tree_at_root [OF t(1)] trecurse_walk [OF t(1), of 0] trecurse_r_walk [OF t(1), of closure 0]
    by (cases "t = TLeaf"; simp add: twalk_def twalk_r_def)+
  then show ?thesis using walk_inorder [OF t(1), of 0] t by (simp add: ascending_keys tree_at_def wfaddrs_def)
qed

theorem twalk_ascending_witness:
  "twalk ex_state (root_var ex_state) True
     = Some [(16, preorder, 0), (32, leaf, 1), (16, postorder, 0), (48, leaf, 1), (16, endorder, 0)]
   \<and> walk_keys ex_state (walk ex_tree 0) = [(32, 3), (16, 5), (48, 9)]"
  using twalk_ascending [OF ex_tree_ok, of "()"] by (simp add: ex_tree_def)

text \<open>
  C37. \<open>tdestroy\<close> returns after it has handed every key of the tree to the caller's function and freed every node, each
  exactly once, the children of a node before the node.
\<close>

theorem tdestroy_frees_each_once:
  assumes "tree_at s [] t"
  shows "\<exists>frees. tdestroy s (root_var s) = Some frees \<and> frees = tdepth_first t \<and> distinct (map snd frees)
    \<and> mset frees = mset (map prod.swap (inorder t))"
proof -
  have ms: "mset (tdepth_first t) = mset (map prod.swap (inorder t))" by (rule tdepth_first_mset)
  then have "mset (map snd (tdepth_first t)) = mset (map fst (inorder t))"
    by (metis (no_types, lifting) comp_apply list.map_comp map_eq_conv mset_map snd_swap)
  from mset_eq_imp_distinct_iff [OF this] have "distinct (map snd (tdepth_first t))"
    using assms by (simp add: tree_at_def wfaddrs_def)
  moreover have "tdestroy s (root_var s) = Some (tdepth_first t)"
    using tree_at_root [OF assms] tdestroy_order [OF assms] by (cases "t = TLeaf") (simp_all add: tdestroy_def)
  ultimately show ?thesis using ms by simp
qed

theorem tdestroy_frees_each_once_witness:
  "tdestroy ex_state (root_var ex_state) = Some [(3, 32), (9, 48), (5, 16)]"
proof -
  have "tree_at ex_state [] ex_tree" using ex_tree_ok by (simp add: tree_ok_def)
  from tdestroy_frees_each_once [OF this] show ?thesis by (simp add: ex_tree_def)
qed

end
