(* ===== verification/Spec2Isabelle.thy ===== *)
theory Spec2Isabelle
  imports Xdr_Properties Hsearch_Map Qsort_Properties Rand48 Random_Properties Strtol Inet_Net_Properties Tsearch_Properties
begin

text \<open>
  A verification library for parts of the GNU C Library.

  The library is a collection of components that share little state; each is modelled in theories of its own, on top of a
  common prelude, and this theory imports them all.  Definitions carry the names of the C functions, types and
  constants they translate.  C integers are words of their width (LP64) where they can wrap around and
  natural numbers or integers where a comment says why they cannot; \<open>errno\<close> is part of the result of the functions that
  store it; \<open>malloc\<close>, \<open>calloc\<close> and callbacks are arguments.

  \<^bold>\<open>Prelude.\<close>  \<open>Glibc_Prelude\<close> has the integer types, the \<open>errno\<close> values, a byte memory with block reads,
  writes and \<open>memcpy\<close>, the frame predicate \<open>only_changes\<close>, and big- and little-endian packing; \<open>Chars\<close> has C
  strings, buffers of a fixed length and the character classes of the C locale.

  \<^bold>\<open>XDR\<close> (\<open>src/sunrpc\<close>).  \<open>Xdr_Stream\<close> is the operations vector of \<open>rpc/xdr.h\<close>, with a locale of the laws the filters rely on;
  \<open>Xdr\<close> has the filters of \<open>xdr.c\<close> and \<open>xdr_intXX_t.c\<close>, \<open>Xdr_Array\<close> those of \<open>xdr_array.c\<close> and \<open>xdr_ref.c\<close>;
  \<open>Xdr_Mem\<close> is the memory stream (\<open>xdr_mem.c\<close>) and \<open>Xdr_Sizeof\<close> the counting stream (\<open>xdr_sizeof.c\<close>), both
  interpretations of the locale.  \<open>Xdr_Codec\<close> and \<open>Xdr_Properties\<close> show that every filter round-trips through
  the memory stream, that decoding and encoding keep to their buffers, and that the counting stream counts what the
  memory stream writes.

  \<^bold>\<open>Hash tables\<close> (\<open>src/misc/hsearch_r.c\<close>, \<open>hsearch.c\<close>).  \<open>Hsearch\<close> has the operations and the table invariant, with the probing
  bounded by the size of the table (the probe sequence visits every slot, as the size is prime); \<open>Hsearch_Map\<close>
  shows that the table refines a finite map and that a table created for \<open>nel\<close> keys accepts that many.

  \<^bold>\<open>Sorting and searching\<close> (\<open>src/stdlib/qsort.c\<close>, \<open>bsearch\<close>, \<open>src/misc/lsearch.c\<close>).  \<open>Qsort\<close> translates the code at the level of byte
  memory; \<open>Qsort_Blocks\<close> reads arrays of elements off the memory; \<open>Qsort_Merge\<close>, \<open>Qsort_Indirect\<close> and \<open>Qsort_Heap\<close> treat
  the direct merge sort, the sort of pointers with its in-place permutation and the heap sort used without memory;
  \<open>Qsort_Properties\<close> concludes that \<open>qsort\<close> sorts, that it is stable whenever it has memory, and that its size
  computations do not overflow.

  \<^bold>\<open>Random numbers\<close> (\<open>src/stdlib/random_r.c\<close>, \<open>random.c\<close>, \<open>rand.c\<close>, \<open>rand_r.c\<close>, \<open>*rand48*.c\<close>).  \<open>Random_Gen\<close> has the additive
  generator and its state arrays; \<open>Random_State\<close> and \<open>Random_Properties\<close> show that it is a shift register, that
  seeding is a Lehmer sequence, and that arrays can be left and resumed.  \<open>Rand48\<close> has the 48-bit family and shows that it is
  the linear congruential generator modulo \<open>2\<^sup>4\<^sup>8\<close>.

  \<^bold>\<open>Numbers in text\<close> (\<open>src/stdlib/strtol_l.c\<close> and callers).  \<open>Strtol\<close> shows the value, the clamping and the end pointer
  on every input.

  \<^bold>\<open>Internet addresses\<close> (\<open>src/resolv/inet_*.c\<close>, \<open>src/inet/inet_*.c\<close>).  \<open>Inet\<close> has the presentation forms,
  \<open>Inet_Addr\<close> the older routines, which call \<open>strtoul\<close>; \<open>Inet_Parse\<close>, \<open>Inet_Print\<close>, \<open>Inet_Properties\<close>,
  \<open>Inet_Addr_Properties\<close> and \<open>Inet_Net_Properties\<close> show the round trips, which texts are accepted and that the three IPv4
  parsers agree.  The buffers of the parsers and of the network printers are lists of a fixed length, read and written by
  \<open>load_at\<close>, \<open>read_at\<close> and \<open>store_at\<close> of \<open>Chars\<close>, which give \<open>None\<close> outside of them: that the functions give \<open>Some\<close> is
  that they keep within their buffers.


  \<^bold>\<open>Search trees\<close> (\<open>src/misc/tsearch.c\<close>).  \<open>Tsearch\<close> translates the code on a heap of nodes, with the colour in the low bit of
  the left pointer and \<open>node *\<close> pointers to the root variable or into nodes.  \<open>Tsearch_Rep\<close> says which tree a heap represents, seen
  from the place the code is at; \<open>Tsearch_Split\<close> and \<open>Tsearch_Repair\<close> have the rotations of insertion and deletion, each a
  local change of the heap; \<open>Tsearch_Redblack\<close> the red-black conditions and the order of the keys; \<open>Tsearch_Insert\<close> and
  \<open>Tsearch_Delete\<close> the loops, with the bound of the stack of \<open>tdelete\<close> from the number of addresses;
  \<open>Tsearch_Index\<close> an interface for an index of keys that the operations implement.  The loops are partial functions and are
  shown to return.

  \<^bold>\<open>Loops and fuel.\<close>  Loops are structural recursions or \<open>function\<close>s with a termination proof.  Two are bounded explicitly: the
  probing of a hash table by the size of the table, after which it would be back at its start, and the loop of \<open>inet_neta\<close>
  by the four shifts that make its argument zero.

  \<^bold>\<open>Not modelled.\<close>  The record and stdio streams and the floating-point filters of XDR; wide-character and
  locale-grouping instances of \<open>strtol\<close>; locks around static buffers, as the functions hold them
  throughout.  Of the rest of the library, most is input and output, system calls, generated tables or
  assembly; \<open>malloc\<close> and the dynamic linker work on the whole address space; the mathematical functions need
  numerical analysis; formatted output, regular expressions and time zones are large interpreters that are left out.
\<close>

end
